(* ===== verification/LzPrelude.thy ===== *)
theory LzPrelude
  imports Main "HOL-Library.Word" "HOL-Library.Monad_Syntax"
begin

text \<open>
  The types and the generic facts that every component shares: the machine integers of the Rust
  code (\<open>u8\<close> to \<open>u64\<close> as words; \<open>usize\<close> lengths and offsets as \<open>nat\<close>), checked slice access
  (\<open>None\<close> is the out-of-range panic, or undefined behaviour behind an \<open>unsafe\<close> pointer), the
  little-endian readers of the standard library, and the bridge lemmas from words to \<open>nat\<close>.
\<close>

unbundle bit_operations_syntax

type_synonym u8 = "8 word"
type_synonym u16 = "16 word"
type_synonym u32 = "32 word"
type_synonym u64 = "64 word"
type_synonym bytes = "u8 list"

named_theorems lz_unfold \<open>definitions of the model that a proof unfolds together\<close>

subsection \<open>Slices\<close>

text \<open>\<open>slice.get(i)\<close>, and indexing \<open>slice[i]\<close> whose failure is a panic.\<close>

definition get_at :: "'a list \<Rightarrow> nat \<Rightarrow> 'a option" where
  "get_at xs i = (if i < length xs then Some (xs ! i) else None)"

definition set_at :: "'a list \<Rightarrow> nat \<Rightarrow> 'a \<Rightarrow> 'a list option" where
  "set_at xs i v = (if i < length xs then Some (xs[i := v]) else None)"

lemma get_at_Some_iff [simp]: "get_at xs i = Some x \<longleftrightarrow> i < length xs \<and> xs ! i = x"
  by (auto simp: get_at_def)

lemma get_at_None_iff [simp]: "get_at xs i = None \<longleftrightarrow> length xs \<le> i"
  by (auto simp: get_at_def)

lemma set_at_Some_iff [simp]: "set_at xs i v = Some ys \<longleftrightarrow> i < length xs \<and> ys = xs[i := v]"
  by (auto simp: set_at_def)

lemma set_at_None_iff [simp]: "set_at xs i v = None \<longleftrightarrow> length xs \<le> i"
  by (auto simp: set_at_def)

lemma get_at_in [simp]: "i < length xs \<Longrightarrow> get_at xs i = Some (xs ! i)"
  and get_at_out [simp]: "length xs \<le> i \<Longrightarrow> get_at xs i = None"
  and set_at_in [simp]: "i < length xs \<Longrightarrow> set_at xs i v = Some (xs[i := v])"
  and set_at_out [simp]: "length xs \<le> i \<Longrightarrow> set_at xs i v = None"
  by simp_all

lemma get_at_append: "get_at (xs @ ys) i = (if i < length xs then Some (xs ! i) else get_at ys (i - length xs))"
  by (auto simp: get_at_def nth_append)

lemma get_at_drop [simp]: "get_at (drop n xs) i = get_at xs (n + i)"
  by (auto simp: get_at_def)

text \<open>\<open>dst[at..at + src.len()].copy_from_slice(src)\<close>\<close>

definition copy_into :: "'a list \<Rightarrow> nat \<Rightarrow> 'a list \<Rightarrow> 'a list option" where
  "copy_into dst at src =
     (if at + length src \<le> length dst
      then Some (take at dst @ src @ drop (at + length src) dst) else None)"

text \<open>\<open>data[from..to]\<close>, a panic unless \<open>from \<le> to \<le> data.len()\<close>.\<close>

definition slice :: "'a list \<Rightarrow> nat \<Rightarrow> nat \<Rightarrow> 'a list option" where
  "slice xs from to = (if from \<le> to \<and> to \<le> length xs then Some (take (to - from) (drop from xs)) else None)"

lemma slice_Some_iff [simp]:
  "slice xs from to = Some ys \<longleftrightarrow> from \<le> to \<and> to \<le> length xs \<and> ys = take (to - from) (drop from xs)"
  by (auto simp: slice_def)

lemma copy_into_Some_iff [simp]:
  "copy_into dst at src = Some d \<longleftrightarrow>
     at + length src \<le> length dst \<and> d = take at dst @ src @ drop (at + length src) dst"
  by (auto simp: copy_into_def)

subsection \<open>Words and natural numbers\<close>

lemma unat_u8_lt [simp]: "unat (w :: u8) < 256"
  using unsigned_less [of w] by simp

lemma unat_u16_lt [simp]: "unat (w :: u16) < 65536"
  using unsigned_less [of w] by simp

lemma unat_u32_lt [simp]: "unat (w :: u32) < 4294967296"
  using unsigned_less [of w] by simp

lemma unat_u64_lt [simp]: "unat (w :: u64) < 18446744073709551616"
  using unsigned_less [of w] by simp

lemma unat_minus_1_u32 [simp]: "unat (-1 :: u32) = 4294967295"
  by (simp add: unsigned_minus_1_eq_mask mask_eq_exp_minus_1)

lemma unat_of_nat_small: "n < 2 ^ LENGTH('a) \<Longrightarrow> unat (of_nat n :: 'a::len word) = n"
  by (simp only: unat_of_nat mod_less)

lemma bit_unat [simp]: "bit (unat w) n = bit (w :: 'a::len word) n"
  by (simp add: bit_unsigned_iff)

lemma word_eq_unatI: "unat a = unat b \<Longrightarrow> a = b"
  by (simp add: word_unat_eq_iff)

lemma unat_push_bit:
  fixes w :: "'a::len word"
  assumes "unat w * 2 ^ k < 2 ^ LENGTH('a)"
  shows "unat (push_bit k w) = unat w * 2 ^ k"
proof -
  have "unat (push_bit k w) = take_bit LENGTH('a) (push_bit k (unat w))"
    by (rule unsigned_push_bit_eq)
  also have "\<dots> = take_bit LENGTH('a) (unat w * 2 ^ k)"
    by (simp only: push_bit_eq_mult)
  finally show ?thesis using assms by (simp add: take_bit_nat_eq_self)
qed

lemma unat_drop_bit: "unat (drop_bit k (w :: 'a::len word)) = unat w div 2 ^ k"
  unfolding unat_drop_bit_eq by (rule drop_bit_eq_div)

lemma unat_and_mask: "unat ((w :: 'a::len word) AND mask k) = unat w mod 2 ^ k"
proof -
  have "unat (w AND mask k) = unat (take_bit k w)"
    by (simp only: take_bit_eq_mask)
  also have "\<dots> = take_bit k (unat w)"
    by (rule unsigned_take_bit_eq)
  finally show ?thesis by (simp only: take_bit_eq_mod)
qed

text \<open>A value below \<open>2 ^ k\<close> and a value shifted left by \<open>k\<close> share no bit: OR is addition.\<close>

lemma or_push_bit_eq_plus:
  fixes a b :: "'a::len word"
  assumes "unat a < 2 ^ k"
  shows "a OR push_bit k b = a + push_bit k b"
proof -
  have "take_bit k a = a"
    using assms by (intro word_eq_unatI) (simp only: unsigned_take_bit_eq take_bit_nat_eq_self)
  then have "\<not> bit a n" if "k \<le> n" for n
    using that by (metis bit_take_bit_iff linorder_not_le)
  then have "a AND push_bit k b = 0"
    by (intro bit_word_eqI) (auto simp: bit_simps)
  then show ?thesis by (simp add: disjunctive_add_eq_or)
qed

lemma unat_or_push_bit:
  fixes a b :: "'a::len word"
  assumes "unat a < 2 ^ k" and "unat a + unat b * 2 ^ k < 2 ^ LENGTH('a)"
  shows "unat (a OR push_bit k b) = unat a + unat b * 2 ^ k"
proof -
  have *: "unat (push_bit k b) = unat b * 2 ^ k"
    using assms(2) by (intro unat_push_bit) simp
  with assms show ?thesis
    by (simp add: or_push_bit_eq_plus unat_word_ariths)
qed

lemma unat_ucast_up [simp]:
  assumes "LENGTH('a) \<le> LENGTH('b)"
  shows "unat (ucast (w :: 'a::len word) :: 'b::len word) = unat w"
  using assms by (simp add: unsigned_ucast_eq take_bit_nat_eq_self less_le_trans [OF unsigned_less])

subsection \<open>Little-endian readers: \<open>u32::from_le_bytes\<close>, \<open>u64::from_le_bytes\<close>\<close>

definition u32_from_le_bytes :: "u8 \<Rightarrow> u8 \<Rightarrow> u8 \<Rightarrow> u8 \<Rightarrow> u32" where
  "u32_from_le_bytes a b c d =
     ucast a OR push_bit 8 (ucast b) OR push_bit 16 (ucast c) OR push_bit 24 (ucast d)"

fun le_nat :: "bytes \<Rightarrow> nat" where
  "le_nat [] = 0"
| "le_nat (b # bs) = unat b + 256 * le_nat bs"

end
