(* ===== verification/RangeDec.thy ===== *)
theory RangeDec
  imports LzPrelude
begin

text \<open>
  The adaptive binary range decoder of \<open>src/src/lzma/decode.rs\<close>: the constants of
  \<open>src/src/lzma/consts.rs\<close> it uses, the macros \<open>normalize!\<close>, \<open>update_0!\<close>, \<open>update_1!\<close> and the
  branch-free \<open>bit_tree!\<close>, \<open>matched_liter_dec!\<close>, \<open>rev_bit_*!\<close>. The input buffer is a byte list and
  the pointer \<open>buf\<close> an index into it; reading at or past the end, or touching a probability outside
  the table, is \<open>None\<close>: behind the \<open>unsafe\<close> pointers of the source it is undefined behaviour.

  Against the macros stands the reference step \<open>dec_bit\<close> (the C's branching \<open>IF_BIT_0\<close> /
  \<open>UPDATE_0\<close> / \<open>UPDATE_1\<close>), and above it \<open>bitprog\<close>: the decision tree of a symbol, which names
  only probability indices and bits. Running such a tree with table updates (\<open>bp_run\<close>) and
  without (\<open>bp_peek\<close>) agree when no path visits an index twice, and both the number of input bytes
  and the safety of every access are read off the tree.
\<close>

named_theorems lz_consts \<open>constants of lzma/consts.rs\<close>

subsection \<open>Constants\<close>

definition K_TOP_VALUE :: u32 where [lz_consts]: "K_TOP_VALUE = 0x1000000"
definition K_NUM_BIT_MODEL_TOTAL_BITS :: nat where [lz_consts]: "K_NUM_BIT_MODEL_TOTAL_BITS = 11"
definition K_BIT_MODEL_TOTAL :: u32 where [lz_consts]: "K_BIT_MODEL_TOTAL = 0x800"
definition K_NUM_MOVE_BITS :: nat where [lz_consts]: "K_NUM_MOVE_BITS = 5"

definition K_BIT_MODEL_OFFSET :: u32 where [lz_consts]:
  "K_BIT_MODEL_OFFSET = K_BIT_MODEL_TOTAL - push_bit K_NUM_MOVE_BITS 1 + 1"

subsection \<open>The range coder state and the macros\<close>

record rc =
  rc_range :: u32
  rc_code :: u32
  rc_buf :: nat

definition normalize :: "bytes \<Rightarrow> rc \<Rightarrow> rc option" where
  "normalize inp s =
     (if rc_range s < K_TOP_VALUE then
        (case get_at inp (rc_buf s) of
           None \<Rightarrow> None
         | Some b \<Rightarrow>
             Some (s\<lparr>rc_range := push_bit 8 (rc_range s),
                     rc_code := push_bit 8 (rc_code s) OR ucast b,
                     rc_buf := rc_buf s + 1\<rparr>))
      else Some s)"

definition update_0 :: "u16 list \<Rightarrow> nat \<Rightarrow> u32 \<Rightarrow> u32 \<Rightarrow> rc \<Rightarrow> (u16 list \<times> rc) option" where
  "update_0 probs prob bound ttt s = do {
     probs \<leftarrow> set_at probs prob (ucast (ttt + drop_bit K_NUM_MOVE_BITS (K_BIT_MODEL_TOTAL - ttt)));
     Some (probs, s\<lparr>rc_range := bound\<rparr>) }"

definition update_1 :: "u16 list \<Rightarrow> nat \<Rightarrow> u32 \<Rightarrow> u32 \<Rightarrow> rc \<Rightarrow> (u16 list \<times> rc) option" where
  "update_1 probs prob bound ttt s = do {
     probs \<leftarrow> set_at probs prob (ucast (ttt - drop_bit K_NUM_MOVE_BITS ttt));
     Some (probs, s\<lparr>rc_range := rc_range s - bound, rc_code := rc_code s - bound\<rparr>) }"

text \<open>
  The block the C calls \<open>IF_BIT_0\<close>, which the source writes out at every flag:
  \<open>ttt = *prob; normalize!; bound = (range >> 11) * ttt; if code < bound { update_0!; a } else
  { update_1!; b }\<close>.
\<close>

definition if_bit_0 ::
  "bytes \<Rightarrow> u16 list \<Rightarrow> nat \<Rightarrow> rc \<Rightarrow> (u16 list \<Rightarrow> rc \<Rightarrow> 'a option) \<Rightarrow> (u16 list \<Rightarrow> rc \<Rightarrow> 'a option) \<Rightarrow> 'a option" where
  "if_bit_0 inp probs prob s a b = do {
     p \<leftarrow> get_at probs prob;
     let ttt = (ucast p :: u32);
     s \<leftarrow> normalize inp s;
     let bound = drop_bit K_NUM_BIT_MODEL_TOTAL_BITS (rc_range s) * ttt;
     if rc_code s < bound
     then do { (probs, s) \<leftarrow> update_0 probs prob bound ttt s; a probs s }
     else do { (probs, s) \<leftarrow> update_1 probs prob bound ttt s; b probs s } }"

definition csel :: "u32 \<Rightarrow> u32 \<Rightarrow> u32 \<Rightarrow> u32" where
  "csel m a b = b XOR ((a XOR b) AND m)"

text \<open>\<open>((code >= bound) as u32).wrapping_neg()\<close>\<close>

definition bit_mask :: "u32 \<Rightarrow> u32 \<Rightarrow> u32" where
  "bit_mask code bound = - (if bound \<le> code then 1 else 0)"

text \<open>\<open>t = pv.wrapping_sub(K_BIT_MODEL_OFFSET & !m) as i32; (pv as i32 - (t >> 5)) as u16\<close>\<close>

definition branchless_update :: "u32 \<Rightarrow> u32 \<Rightarrow> u16" where
  "branchless_update pv m =
     ucast (pv - signed_drop_bit K_NUM_MOVE_BITS (pv - (K_BIT_MODEL_OFFSET AND NOT m)))"

text \<open>\<open>bit_tree!(probs, sym, pv, range, code, buf)\<close>, with the tree's base an index into the table.\<close>

definition bit_tree :: "bytes \<Rightarrow> nat \<Rightarrow> u16 list \<times> u32 \<times> u32 \<times> rc \<Rightarrow> (u16 list \<times> u32 \<times> u32 \<times> rc) option" where
  "bit_tree inp base = (\<lambda>(probs, sym, pv, s). do {
     s \<leftarrow> normalize inp s;
     let bound = drop_bit K_NUM_BIT_MODEL_TOTAL_BITS (rc_range s) * pv;
     let m = bit_mask (rc_code s) bound;
     c0 \<leftarrow> get_at probs (base + unat (sym + sym));
     c1 \<leftarrow> get_at probs (base + unat (sym + sym + 1));
     probs \<leftarrow> set_at probs (base + unat sym) (branchless_update pv m);
     Some (probs, sym + sym + (m AND 1), csel m (ucast c1) (ucast c0),
           s\<lparr>rc_range := csel m (rc_range s - bound) bound,
             rc_code := rc_code s - (bound AND m)\<rparr>) })"

definition bit_tree_last :: "bytes \<Rightarrow> nat \<Rightarrow> u16 list \<times> u32 \<times> u32 \<times> rc \<Rightarrow> (u16 list \<times> u32 \<times> rc) option" where
  "bit_tree_last inp base = (\<lambda>(probs, sym, pv, s). do {
     s \<leftarrow> normalize inp s;
     let bound = drop_bit K_NUM_BIT_MODEL_TOTAL_BITS (rc_range s) * pv;
     let m = bit_mask (rc_code s) bound;
     probs \<leftarrow> set_at probs (base + unat sym) (branchless_update pv m);
     Some (probs, sym + sym + (m AND 1),
           s\<lparr>rc_range := csel m (rc_range s - bound) bound,
             rc_code := rc_code s - (bound AND m)\<rparr>) })"

text \<open>
  A tree of \<open>Suc n\<close> levels as the source expands it: \<open>sym = 1; pv = *probs.add(1)\<close>, \<open>n\<close> times
  \<open>bit_tree!\<close>, then \<open>bit_tree_last!\<close>.
\<close>

primrec bit_tree_times :: "nat \<Rightarrow> bytes \<Rightarrow> nat \<Rightarrow> u16 list \<times> u32 \<times> u32 \<times> rc \<Rightarrow> (u16 list \<times> u32 \<times> u32 \<times> rc) option" where
  "bit_tree_times 0 inp base st = Some st"
| "bit_tree_times (Suc n) inp base st = do { st \<leftarrow> bit_tree inp base st; bit_tree_times n inp base st }"

definition tree_decode :: "nat \<Rightarrow> bytes \<Rightarrow> u16 list \<Rightarrow> nat \<Rightarrow> rc \<Rightarrow> (u16 list \<times> u32 \<times> rc) option" where
  "tree_decode n inp probs base s = do {
     pv \<leftarrow> get_at probs (base + 1);
     st \<leftarrow> bit_tree_times (n - 1) inp base (probs, 1, ucast pv, s);
     bit_tree_last inp base st }"

text \<open>\<open>matched_liter_dec!\<close>\<close>

definition matched_liter_dec ::
  "bytes \<Rightarrow> nat \<Rightarrow> u16 list \<times> u32 \<times> u32 \<times> u32 \<times> rc \<Rightarrow> (u16 list \<times> u32 \<times> u32 \<times> u32 \<times> rc) option" where
  "matched_liter_dec inp prob = (\<lambda>(probs, symbol, match_byte, offs, s). do {
     let match_byte = match_byte + match_byte;
     let bit = offs;
     let offs = offs AND match_byte;
     let prob_lit = prob + unat (offs + bit + symbol);
     p \<leftarrow> get_at probs prob_lit;
     let pv = (ucast p :: u32);
     s \<leftarrow> normalize inp s;
     let bound = drop_bit K_NUM_BIT_MODEL_TOTAL_BITS (rc_range s) * pv;
     let m = bit_mask (rc_code s) bound;
     probs \<leftarrow> set_at probs prob_lit (branchless_update pv m);
     Some (probs, symbol + symbol + (m AND 1), match_byte, offs XOR (bit AND NOT m),
           s\<lparr>rc_range := csel m (rc_range s - bound) bound,
             rc_code := rc_code s - (bound AND m)\<rparr>) })"

primrec matched_liter_times ::
  "nat \<Rightarrow> bytes \<Rightarrow> nat \<Rightarrow> u16 list \<times> u32 \<times> u32 \<times> u32 \<times> rc \<Rightarrow> (u16 list \<times> u32 \<times> u32 \<times> u32 \<times> rc) option" where
  "matched_liter_times 0 inp prob st = Some st"
| "matched_liter_times (Suc n) inp prob st = do {
     st \<leftarrow> matched_liter_dec inp prob st; matched_liter_times n inp prob st }"

text \<open>\<open>rev_bit_mask!\<close> and its three users\<close>

definition rev_bit_mask :: "bytes \<Rightarrow> nat \<Rightarrow> u16 list \<Rightarrow> u32 \<Rightarrow> rc \<Rightarrow> (u16 list \<times> u32 \<times> rc) option" where
  "rev_bit_mask inp base probs i s = do {
     p \<leftarrow> get_at probs (base + unat i);
     let pv = (ucast p :: u32);
     s \<leftarrow> normalize inp s;
     let bound = drop_bit K_NUM_BIT_MODEL_TOTAL_BITS (rc_range s) * pv;
     let m = bit_mask (rc_code s) bound;
     probs \<leftarrow> set_at probs (base + unat i) (branchless_update pv m);
     Some (probs, m,
           s\<lparr>rc_range := csel m (rc_range s - bound) bound,
             rc_code := rc_code s - (bound AND m)\<rparr>) }"

definition rev_bit_var ::
  "bytes \<Rightarrow> nat \<Rightarrow> u16 list \<times> u32 \<times> u32 \<times> rc \<Rightarrow> (u16 list \<times> u32 \<times> u32 \<times> rc) option" where
  "rev_bit_var inp base = (\<lambda>(probs, i, m, s). do {
     (probs, mb, s) \<leftarrow> rev_bit_mask inp base probs i s;
     Some (probs, i + (m + (m AND mb)), m + m, s) })"

definition rev_bit_const ::
  "bytes \<Rightarrow> nat \<Rightarrow> u32 \<Rightarrow> u16 list \<times> u32 \<times> rc \<Rightarrow> (u16 list \<times> u32 \<times> rc) option" where
  "rev_bit_const inp base m = (\<lambda>(probs, i, s). do {
     (probs, mb, s) \<leftarrow> rev_bit_mask inp base probs i s;
     Some (probs, i + (m + (m AND mb)), s) })"

definition rev_bit_last ::
  "bytes \<Rightarrow> nat \<Rightarrow> u32 \<Rightarrow> u16 list \<times> u32 \<times> rc \<Rightarrow> (u16 list \<times> u32 \<times> rc) option" where
  "rev_bit_last inp base m = (\<lambda>(probs, i, s). do {
     (probs, mb, s) \<leftarrow> rev_bit_mask inp base probs i s;
     Some (probs, i - (m AND NOT mb), s) })"

text \<open>One turn of the direct-bits loop of the far-distance branch.\<close>

definition direct_bit :: "bytes \<Rightarrow> u32 \<times> rc \<Rightarrow> (u32 \<times> rc) option" where
  "direct_bit inp = (\<lambda>(distance, s). do {
     s \<leftarrow> normalize inp s;
     let range = drop_bit 1 (rc_range s);
     let code = rc_code s - range;
     let t = 0 - drop_bit 31 code;
     Some (push_bit 1 distance + (t + 1), s\<lparr>rc_range := range, rc_code := code + (range AND t)\<rparr>) })"

subsection \<open>The reference bit\<close>

definition prob_update :: "u16 \<Rightarrow> bool \<Rightarrow> u16" where
  "prob_update p b =
     (let ttt = (ucast p :: u32) in
      ucast (if b then ttt - drop_bit K_NUM_MOVE_BITS ttt
             else ttt + drop_bit K_NUM_MOVE_BITS (K_BIT_MODEL_TOTAL - ttt)))"

definition rc_bit :: "rc \<Rightarrow> u16 \<Rightarrow> bool \<times> rc" where
  "rc_bit s p =
     (let bound = drop_bit K_NUM_BIT_MODEL_TOTAL_BITS (rc_range s) * ucast p in
      if rc_code s < bound then (False, s\<lparr>rc_range := bound\<rparr>)
      else (True, s\<lparr>rc_range := rc_range s - bound, rc_code := rc_code s - bound\<rparr>))"

definition dec_bit :: "bytes \<Rightarrow> u16 list \<Rightarrow> nat \<Rightarrow> rc \<Rightarrow> (bool \<times> u16 list \<times> rc) option" where
  "dec_bit inp probs i s = do {
     p \<leftarrow> get_at probs i;
     s \<leftarrow> normalize inp s;
     let (b, s) = rc_bit s p;
     Some (b, probs[i := prob_update p b], s) }"

definition dec_direct :: "bytes \<Rightarrow> rc \<Rightarrow> (bool \<times> rc) option" where
  "dec_direct inp s = do {
     s \<leftarrow> normalize inp s;
     let range = drop_bit 1 (rc_range s);
     let b = (\<not> bit (rc_code s - range) 31);
     Some (b, s\<lparr>rc_range := range, rc_code := (if b then rc_code s - range else rc_code s)\<rparr>) }"

text \<open>A probability the updates can produce: between 31 and 2017.\<close>

definition prob_ok :: "u16 \<Rightarrow> bool" where
  "prob_ok p \<longleftrightarrow> 31 \<le> unat p \<and> unat p \<le> 2017"

abbreviation probs_ok :: "u16 list \<Rightarrow> bool" where
  "probs_ok probs \<equiv> list_all prob_ok probs"

lemma if_bit_0_eq:
  "if_bit_0 inp probs i s a b =
     (case dec_bit inp probs i s of None \<Rightarrow> None
      | Some (bt, probs', s') \<Rightarrow> if bt then b probs' s' else a probs' s')"
  by (auto simp: if_bit_0_def dec_bit_def update_0_def update_1_def rc_bit_def prob_update_def Let_def
      split: bind_splits)

lemma csel_ones [simp]: "csel (-1) a b = a" and csel_zero [simp]: "csel 0 a b = b"
  by (auto simp: csel_def bit_eq_iff bit_simps)

lemma bit_mask_eq: "bit_mask code bound = (if bound \<le> code then -1 else 0)"
  by (simp add: bit_mask_def)

lemma unat_prob_update:
  assumes "unat p \<le> 2048"
  shows "unat (prob_update p b) = (if b then unat p - unat p div 32 else unat p + (2048 - unat p) div 32)"
proof -
  have [simp]: "unat (ucast p :: u32) = unat p" by simp
  have d: "unat (drop_bit 5 (w::u32)) = unat w div 32" for w
    using unat_drop_bit [of 5 w] by simp
  have t: "unat (2048 - ucast p :: u32) = 2048 - unat p"
    using assms by (simp add: unat_sub word_le_nat_alt)
  have c: "unat (ucast w :: u16) = unat w" if "unat w < 65536" for w :: u32
    using that by (simp add: unsigned_ucast_eq take_bit_nat_eq_self)
  have u1: "unat (ucast p - drop_bit 5 (ucast p) :: u32) = unat p - unat p div 32"
    by (simp add: unat_sub word_le_nat_alt d del: drop_bit_eq_div)
  have u0: "unat (ucast p + drop_bit 5 (2048 - ucast p) :: u32) = unat p + (2048 - unat p) div 32"
    using assms by (simp add: unat_word_ariths d t)
  show ?thesis
    using assms by (simp add: prob_update_def Let_def lz_consts c u0 u1)
qed

lemma prob_ok_update [simp]: "prob_ok p \<Longrightarrow> prob_ok (prob_update p b)"
proof -
  assume "prob_ok p"
  then have "31 \<le> unat p" "unat p \<le> 2017" by (auto simp: prob_ok_def)
  moreover from this have "unat (prob_update p b) = (if b then unat p - unat p div 32 else unat p + (2048 - unat p) div 32)"
    by (simp add: unat_prob_update)
  moreover have "31 \<le> unat p - unat p div 32"
    using \<open>31 \<le> unat p\<close> by linarith
  moreover have "unat p + (2048 - unat p) div 32 \<le> 2017"
    using \<open>unat p \<le> 2017\<close> by linarith
  ultimately show ?thesis by (auto simp: prob_ok_def)
qed

lemma signed_drop_bit_word_of_int:
  assumes "- (2 ^ 31) \<le> k" "k < 2 ^ 31"
  shows "signed_drop_bit n (word_of_int k :: u32) = word_of_int (k div 2 ^ n)"
proof -
  have "signed_take_bit 31 k = k"
    using assms by (intro signed_take_bit_int_eq_self) auto
  then have "sint (word_of_int k :: u32) = k"
    by (simp add: sint_sbintrunc')
  then have "sint (signed_drop_bit n (word_of_int k :: u32)) = k div 2 ^ n"
    by (simp only: sint_signed_drop_bit_eq drop_bit_eq_div)
  then have "(word_of_int (sint (signed_drop_bit n (word_of_int k :: u32))) :: u32) = word_of_int (k div 2 ^ n)"
    by (simp only:)
  then show ?thesis by simp
qed

text \<open>The one expression that serves as both probability updates, rounding included.\<close>

lemma branchless_update_eq:
  assumes "unat p \<le> 2048"
  shows "branchless_update (ucast p) (if b then -1 else 0) = prob_update p b"
proof (rule word_eq_unatI)
  define n where "n = unat p"
  define z where "z = (if b then n - n div 32 else n + (2048 - n) div 32)"
  have n: "n \<le> 2048" using assms by (simp add: n_def)
  have p: "(ucast p :: u32) = word_of_int (int n)" by (simp add: n_def)
  have z: "int z = int n - (int n - (if b then 0 else 2017)) div 32" "z < 65536"
    using n by (auto simp: z_def)
  have "signed_drop_bit 5 (word_of_int (int n - (if b then 0 else 2017)) :: u32) =
      word_of_int ((int n - (if b then 0 else 2017)) div 32)"
    using signed_drop_bit_word_of_int [of "int n - (if b then 0 else 2017)" 5] n by simp
  moreover have "word_of_int (int n) - (K_BIT_MODEL_OFFSET AND NOT (if b then -1 else 0)) =
      (word_of_int (int n - (if b then 0 else 2017)) :: u32)"
    by (simp add: lz_consts)
  ultimately have "branchless_update (ucast p) (if b then -1 else 0) = ucast (word_of_int (int z) :: u32)"
    unfolding branchless_update_def p z(1) by (simp add: lz_consts)
  also have "unat \<dots> = z"
    using z(2) by (simp add: unsigned_ucast_eq take_bit_nat_eq_self unat_of_nat_small)
  also have "z = unat (prob_update p b)"
    using n by (simp add: z_def n_def unat_prob_update)
  finally show "unat (branchless_update (ucast p) (if b then -1 else 0)) = unat (prob_update p b)" .
qed


lemma bit_tree_core:
  assumes "unat p \<le> 2048"
  defines "bound \<equiv> \<lambda>s. drop_bit K_NUM_BIT_MODEL_TOTAL_BITS (rc_range s) * ucast p"
  defines "m \<equiv> \<lambda>s. bit_mask (rc_code s) (bound s)"
  shows "branchless_update (ucast p) (m s) = prob_update p (fst (rc_bit s p))"
    and "s\<lparr>rc_range := csel (m s) (rc_range s - bound s) (bound s), rc_code := rc_code s - (bound s AND m s)\<rparr>
      = snd (rc_bit s p)"
    and "m s = (if fst (rc_bit s p) then -1 else 0)"
proof -
  show m: "m s = (if fst (rc_bit s p) then -1 else 0)"
    by (auto simp: m_def bound_def rc_bit_def bit_mask_eq Let_def)
  show "branchless_update (ucast p) (m s) = prob_update p (fst (rc_bit s p))"
    unfolding m using assms(1) by (rule branchless_update_eq)
  show "s\<lparr>rc_range := csel (m s) (rc_range s - bound s) (bound s), rc_code := rc_code s - (bound s AND m s)\<rparr>
      = snd (rc_bit s p)"
    by (cases s) (auto simp: m_def bound_def rc_bit_def bit_mask_eq Let_def)
qed

lemma bit_tree_last_eq:
  assumes "base + unat sy < length probs" "unat (probs ! (base + unat sy)) \<le> 2048"
  shows "bit_tree_last inp base (probs, sy, ucast (probs ! (base + unat sy)), s) =
    (case dec_bit inp probs (base + unat sy) s of None \<Rightarrow> None
     | Some (b, probs', s') \<Rightarrow> Some (probs', sy + sy + of_bool b, s'))"
  using assms(1) bit_tree_core [OF assms(2)]
  by (auto simp: bit_tree_last_def dec_bit_def Let_def split: bind_splits prod.splits)

lemma unat_double:
  assumes "unat (sy :: u32) < 2 ^ 31"
  shows "unat (sy + sy + of_bool b) = 2 * unat sy + of_bool b"
    and "unat (sy + sy) = 2 * unat sy" and "unat (sy + sy + 1) = 2 * unat sy + 1"
  using assms by (auto simp: unat_word_ariths)

lemma bit_tree_eq:
  assumes "base + unat sy < length probs" "unat (probs ! (base + unat sy)) \<le> 2048"
    and "0 < unat sy" "unat sy < 2 ^ 31" "base + 2 * unat sy + 1 < length probs"
  shows "bit_tree inp base (probs, sy, ucast (probs ! (base + unat sy)), s) =
    (case dec_bit inp probs (base + unat sy) s of None \<Rightarrow> None
     | Some (b, probs', s') \<Rightarrow>
        Some (probs', sy + sy + of_bool b, ucast (probs' ! (base + unat (sy + sy + of_bool b))), s'))"
  using assms(1,3,5) bit_tree_core [OF assms(2)] unat_double [OF assms(4)]
  by (auto simp: bit_tree_def dec_bit_def Let_def split: bind_splits prod.splits)


subsection \<open>Decision trees over the range coder\<close>

datatype 'a bitprog =
    Ret 'a
  | Bit nat "bool \<Rightarrow> 'a bitprog"
  | Direct "bool \<Rightarrow> 'a bitprog"

primrec bp_bind :: "'a bitprog \<Rightarrow> ('a \<Rightarrow> 'b bitprog) \<Rightarrow> 'b bitprog" where
  "bp_bind (Ret x) f = f x"
| "bp_bind (Bit i k) f = Bit i (\<lambda>b. bp_bind (k b) f)"
| "bp_bind (Direct k) f = Direct (\<lambda>b. bp_bind (k b) f)"

text \<open>Running a tree: with table updates, and only looking.\<close>

primrec bp_run :: "bytes \<Rightarrow> 'a bitprog \<Rightarrow> u16 list \<Rightarrow> rc \<Rightarrow> ('a \<times> u16 list \<times> rc) option" where
  "bp_run inp (Ret x) probs s = Some (x, probs, s)"
| "bp_run inp (Bit i k) probs s =
     (case dec_bit inp probs i s of None \<Rightarrow> None
      | Some (b, probs', s') \<Rightarrow> bp_run inp (k b) probs' s')"
| "bp_run inp (Direct k) probs s =
     (case dec_direct inp s of None \<Rightarrow> None | Some (b, s') \<Rightarrow> bp_run inp (k b) probs s')"

primrec bp_peek :: "bytes \<Rightarrow> 'a bitprog \<Rightarrow> u16 list \<Rightarrow> rc \<Rightarrow> ('a \<times> rc) option" where
  "bp_peek inp (Ret x) probs s = Some (x, s)"
| "bp_peek inp (Bit i k) probs s =
     (case normalize inp s of None \<Rightarrow> None
      | Some s' \<Rightarrow> (case rc_bit s' (probs ! i) of (b, s'') \<Rightarrow> bp_peek inp (k b) probs s''))"
| "bp_peek inp (Direct k) probs s =
     (case dec_direct inp s of None \<Rightarrow> None | Some (b, s') \<Rightarrow> bp_peek inp (k b) probs s')"

text \<open>Every leaf satisfies \<open>P\<close>; every index lies in \<open>R\<close>; no path visits an index twice or one of
  \<open>V\<close>; no path has more than \<open>a\<close> modelled and \<open>d\<close> direct bits, where a modelled bit may also be
  paid as seven direct ones.\<close>

primrec bp_post :: "('a \<Rightarrow> bool) \<Rightarrow> 'a bitprog \<Rightarrow> bool" where
  "bp_post P (Ret x) = P x"
| "bp_post P (Bit i k) = (bp_post P (k False) \<and> bp_post P (k True))"
| "bp_post P (Direct k) = (bp_post P (k False) \<and> bp_post P (k True))"

primrec bp_in :: "nat set \<Rightarrow> 'a bitprog \<Rightarrow> bool" where
  "bp_in R (Ret x) = True"
| "bp_in R (Bit i k) = (i \<in> R \<and> bp_in R (k False) \<and> bp_in R (k True))"
| "bp_in R (Direct k) = (bp_in R (k False) \<and> bp_in R (k True))"

primrec bp_fresh :: "'a bitprog \<Rightarrow> nat set \<Rightarrow> bool" where
  "bp_fresh (Ret x) V = True"
| "bp_fresh (Bit i k) V = (i \<notin> V \<and> bp_fresh (k False) (insert i V) \<and> bp_fresh (k True) (insert i V))"
| "bp_fresh (Direct k) V = (bp_fresh (k False) V \<and> bp_fresh (k True) V)"

primrec bp_cost :: "'a bitprog \<Rightarrow> nat \<Rightarrow> nat \<Rightarrow> bool" where
  "bp_cost (Ret x) a d = True"
| "bp_cost (Bit i k) a d =
     (0 < a \<and> bp_cost (k False) (a - 1) d \<and> bp_cost (k True) (a - 1) d \<or>
      7 \<le> d \<and> bp_cost (k False) a (d - 7) \<and> bp_cost (k True) a (d - 7))"
| "bp_cost (Direct k) a d = (0 < d \<and> bp_cost (k False) a (d - 1) \<and> bp_cost (k True) a (d - 1))"

lemma all_bool: "(\<forall>b::bool. P b) \<longleftrightarrow> P False \<and> P True"
  by (metis (full_types))

lemma bp_run_bind:
  "bp_run inp (bp_bind p f) probs s =
     (case bp_run inp p probs s of None \<Rightarrow> None | Some (x, probs', s') \<Rightarrow> bp_run inp (f x) probs' s')"
  by (induction p arbitrary: probs s) (auto split: option.splits)

lemma bp_peek_bind:
  "bp_peek inp (bp_bind p f) probs s =
     (case bp_peek inp p probs s of None \<Rightarrow> None | Some (x, s') \<Rightarrow> bp_peek inp (f x) probs s')"
  by (induction p arbitrary: s) (auto split: option.splits prod.splits)

lemma bp_post_mono: "bp_post P p \<Longrightarrow> (\<And>x. P x \<Longrightarrow> Q x) \<Longrightarrow> bp_post Q p"
  by (induction p) auto

lemma bp_in_mono: "bp_in R p \<Longrightarrow> R \<subseteq> R' \<Longrightarrow> bp_in R' p"
  by (induction p) auto

lemma bp_fresh_mono: "bp_fresh p V \<Longrightarrow> V' \<subseteq> V \<Longrightarrow> bp_fresh p V'"
proof (induction p arbitrary: V V')
  case (Bit i k)
  then show ?case using insert_mono [of V' V i] by simp blast
qed auto

lemma bp_cost_mono: "bp_cost p a d \<Longrightarrow> a \<le> a' \<Longrightarrow> d \<le> d' \<Longrightarrow> bp_cost p a' d'"
proof (induction p arbitrary: a d a' d')
  case (Bit i k)
  note IH = Bit.IH [OF rangeI]
  from Bit.prems(1) consider
      "0 < a" "bp_cost (k False) (a - 1) d" "bp_cost (k True) (a - 1) d"
    | "7 \<le> d" "bp_cost (k False) a (d - 7)" "bp_cost (k True) a (d - 7)"
    by auto
  then show ?case
  proof cases
    case 1
    then show ?thesis
      using IH [of False "a - 1" d "a' - 1" d'] IH [of True "a - 1" d "a' - 1" d'] Bit.prems(2,3) by auto
  next
    case 2
    then show ?thesis
      using IH [of False a "d - 7" a' "d' - 7"] IH [of True a "d - 7" a' "d' - 7"] Bit.prems(2,3) by auto
  qed
next
  case (Direct k)
  then show ?case by (simp add: diff_le_mono) (meson diff_le_mono rangeI)
qed simp

lemma bp_post_bind: "bp_post P p \<Longrightarrow> (\<And>x. P x \<Longrightarrow> bp_post Q (f x)) \<Longrightarrow> bp_post Q (bp_bind p f)"
  by (induction p) auto

lemma bp_in_bind: "bp_post P p \<Longrightarrow> bp_in R p \<Longrightarrow> (\<And>x. P x \<Longrightarrow> bp_in R (f x)) \<Longrightarrow> bp_in R (bp_bind p f)"
  by (induction p) auto

lemma bp_fresh_bind:
  "bp_post P p \<Longrightarrow> bp_in R p \<Longrightarrow> bp_fresh p V \<Longrightarrow> (\<And>x. P x \<Longrightarrow> bp_fresh (f x) (V \<union> R)) \<Longrightarrow>
   bp_fresh (bp_bind p f) V"
proof (induction p arbitrary: V)
  case (Ret x)
  then show ?case by (auto intro: bp_fresh_mono)
next
  case (Bit i k)
  have *: "bp_fresh (f x) (insert i V \<union> R)" if "P x" for x
    using Bit.prems(2,4) that by (auto simp: insert_absorb)
  show ?case
    using Bit.IH [OF rangeI _ _ _ *] Bit.prems by simp
next
  case (Direct k)
  then show ?case by simp
qed

lemma bp_cost_bind:
  "bp_post P p \<Longrightarrow> bp_cost p a d \<Longrightarrow> (\<And>x. P x \<Longrightarrow> bp_cost (f x) a' d') \<Longrightarrow>
   bp_cost (bp_bind p f) (a + a') (d + d')"
proof (induction p arbitrary: a d)
  case (Ret x)
  then show ?case using bp_cost_mono [of "f x" a' d' "a + a'" "d + d'"] by simp
next
  case (Bit i k)
  note IH = Bit.IH [OF rangeI _ _ Bit.prems(3)]
  from Bit.prems(2) consider
      "0 < a" "\<And>b. bp_cost (k b) (a - 1) d"
    | "7 \<le> d" "\<And>b. bp_cost (k b) a (d - 7)"
    by (metis (full_types) bp_cost.simps(2))
  then show ?case
  proof cases
    case 1
    then have "bp_cost (bp_bind (k b) f) (a - 1 + a') (d + d')" for b
      using IH [of b "a - 1" d] Bit.prems(1) by (cases b) simp_all
    with 1 show ?thesis by (simp add: Nat.add_diff_assoc2)
  next
    case 2
    then have "bp_cost (bp_bind (k b) f) (a + a') (d - 7 + d')" for b
      using IH [of b a "d - 7"] Bit.prems(1) by (cases b) simp_all
    with 2 show ?thesis by (simp add: Nat.add_diff_assoc2)
  qed
next
  case (Direct k)
  then have "bp_cost (bp_bind (k b) f) (a + a') (d - 1 + d')" for b
    using Direct.IH [OF rangeI _ _ Direct.prems(3), of b a "d - 1"] by (cases b) simp_all
  with Direct.prems show ?case by (simp add: Nat.add_diff_assoc2)
qed

text \<open>A tree that never meets an index twice reads the same whether or not the table is updated
  on the way.\<close>

lemma bp_peek_eq_run:
  assumes "bp_fresh p V" "bp_in {..<length probs} p" "length probs0 = length probs"
    and "\<And>i. i < length probs \<Longrightarrow> i \<notin> V \<Longrightarrow> probs ! i = probs0 ! i"
  shows "bp_peek inp p probs0 s = map_option (\<lambda>(x, probs', s'). (x, s')) (bp_run inp p probs s)"
  using assms
proof (induction p arbitrary: V probs s)
  case (Ret x)
  then show ?case by simp
next
  case (Bit i k)
  have i: "i < length probs" "probs0 ! i = probs ! i" using Bit.prems by auto
  have IH: "bp_peek inp (k b) probs0 s' = map_option (\<lambda>(x, probs', s'). (x, s'))
      (bp_run inp (k b) (probs[i := prob_update (probs ! i) b]) s')" for b s'
    by (rule Bit.IH [OF rangeI, where V = "insert i V"]) (use Bit.prems in \<open>cases b; simp\<close>)+
  show ?case
    using i by (auto simp: dec_bit_def IH split: option.splits prod.splits)
next
  case (Direct k)
  have IH: "bp_peek inp (k b) probs0 s' = map_option (\<lambda>(x, probs', s'). (x, s')) (bp_run inp (k b) probs s')" for b s'
    by (rule Direct.IH [OF rangeI, where V = V]) (use Direct.prems in \<open>cases b; simp\<close>)+
  then show ?case by (auto split: option.splits)
qed


subsection \<open>How many bytes a tree reads\<close>

definition rc_norm :: "rc \<Rightarrow> bool" where "rc_norm s \<longleftrightarrow> 2 ^ 24 \<le> unat (rc_range s)"
definition rc_live :: "rc \<Rightarrow> bool" where "rc_live s \<longleftrightarrow> 2 ^ 16 \<le> unat (rc_range s)"

lemma rc_norm_live: "rc_norm s \<Longrightarrow> rc_live s"
  by (simp add: rc_norm_def rc_live_def)

text \<open>After \<open>n\<close> bytes, \<open>a\<close> modelled and \<open>d\<close> direct bits from a normalized start, the range is at
  least \<open>256 ^ n * 2 ^ 24 * (31 * 8191 / 2 ^ 24) ^ a * (8191 / 2 ^ 14) ^ d\<close>: a modelled bit keeps
  more than \<open>31 / 2048\<close> of it, a direct bit about half, a byte multiplies it by 256.\<close>

definition rc_spent :: "nat \<Rightarrow> nat \<Rightarrow> nat \<Rightarrow> rc \<Rightarrow> bool" where
  "rc_spent b0 a d s \<longleftrightarrow> b0 \<le> rc_buf s \<and>
     256 ^ (rc_buf s - b0) * 2 ^ 24 * 31 ^ a * 8191 ^ (a + d) \<le> unat (rc_range s) * 2 ^ (24 * a + 14 * d)"

lemma rc_spent_init: "rc_norm s \<Longrightarrow> rc_spent (rc_buf s) 0 0 s"
  by (simp add: rc_spent_def rc_norm_def)

lemma normalize_Some:
  assumes "normalize inp s = Some s'" "rc_live s"
  shows "rc_norm s' \<and>
    (rc_range s' = rc_range s \<and> rc_buf s' = rc_buf s \<or>
     unat (rc_range s) < 2 ^ 24 \<and> unat (rc_range s') = 256 * unat (rc_range s) \<and>
     rc_buf s' = Suc (rc_buf s) \<and> rc_buf s < length inp)"
proof (cases "rc_range s < K_TOP_VALUE")
  case True
  then have lt: "unat (rc_range s) < 2 ^ 24"
    by (simp add: word_less_nat_alt lz_consts)
  have "unat (push_bit 8 (rc_range s)) = 256 * unat (rc_range s)"
    using unat_push_bit [of "rc_range s" 8] lt by simp
  with True lt assms show ?thesis
    by (auto simp: normalize_def rc_norm_def rc_live_def split: option.splits)
next
  case False
  with assms show ?thesis
    by (auto simp: normalize_def rc_norm_def lz_consts word_less_nat_alt)
qed

lemma normalize_total:
  "rc_norm s \<or> rc_buf s < length inp \<Longrightarrow> \<exists>s'. normalize inp s = Some s'"
  by (auto simp: normalize_def rc_norm_def lz_consts word_less_nat_alt split: option.splits)

lemma rc_bit_range:
  assumes "rc_norm s" "prob_ok p" "rc_bit s p = (b, s')"
  shows "rc_live s'" "rc_buf s' = rc_buf s"
    and "unat (rc_range s) * (31 * 8191) \<le> unat (rc_range s') * 2 ^ 24"
proof -
  define R where "R = unat (rc_range s)"
  define q where "q = R div 2048"
  have R: "16777216 \<le> R" "R < 4294967296" using assms(1) by (simp_all add: rc_norm_def R_def)
  have p: "31 \<le> unat p" "unat p \<le> 2017" using assms(2) by (simp_all add: prob_ok_def)
  let ?bound = "drop_bit K_NUM_BIT_MODEL_TOTAL_BITS (rc_range s) * ucast p"
  have q: "q * 2048 \<le> R" "R < q * 2048 + 2048" by (simp_all add: q_def mult.commute) 
  have lo: "q * 31 \<le> q * unat p" and hi: "q * unat p \<le> q * 2017" using p by simp_all
  have "unat (drop_bit 11 (rc_range s)) = q"
    using unat_drop_bit [of 11 "rc_range s"] by (simp add: q_def R_def)
  moreover have "q * unat p < 4294967296" using hi q R by linarith
  ultimately have bound: "unat ?bound = q * unat p"
    by (simp add: unat_word_ariths lz_consts)
  have "q * unat p \<le> R" using hi q by linarith
  then have "?bound \<le> rc_range s"
    using bound by (simp add: word_le_nat_alt R_def [symmetric])
  then have "unat (rc_range s - ?bound) = R - q * unat p"
    by (simp only: unat_sub bound R_def)
  with bound assms(3) have R': "unat (rc_range s') = q * unat p \<or> unat (rc_range s') = R - q * unat p"
    and buf: "rc_buf s' = rc_buf s"
    by (auto simp: rc_bit_def Let_def split: if_splits)
  show "rc_buf s' = rc_buf s" by (fact buf)
  have "65536 \<le> unat (rc_range s')"
    using R' lo hi q R by (elim disjE) linarith+
  then show "rc_live s'" by (simp add: rc_live_def)
  have "R * (31 * 8191) \<le> unat (rc_range s') * 16777216"
    using R' lo hi q R by (elim disjE) linarith+
  then show "unat (rc_range s) * (31 * 8191) \<le> unat (rc_range s') * 2 ^ 24"
    by (simp add: R_def)
qed

lemma dec_direct_range:
  assumes "dec_direct inp s = Some (b, s')" "normalize inp s = Some s1" "rc_norm s1"
  shows "rc_live s'" "rc_buf s' = rc_buf s1" "unat (rc_range s1) * 8191 \<le> unat (rc_range s') * 2 ^ 14"
proof -
  have r: "unat (rc_range s') = unat (rc_range s1) div 2" and b: "rc_buf s' = rc_buf s1"
    using assms(1,2) unat_drop_bit [of 1 "rc_range s1"] by (auto simp: dec_direct_def Let_def)
  show "rc_buf s' = rc_buf s1" by (fact b)
  show "rc_live s'" using r assms(3) by (simp add: rc_live_def rc_norm_def)
  show "unat (rc_range s1) * 8191 \<le> unat (rc_range s') * 2 ^ 14"
    using r assms(3) by (simp add: rc_norm_def)
qed

lemma rc_spent_normalize:
  assumes "rc_spent b0 a d s" "normalize inp s = Some s'" "rc_live s"
  shows "rc_spent b0 a d s'"
  using normalize_Some [OF assms(2,3)] assms(1) by (auto simp: rc_spent_def Suc_diff_le ac_simps)

lemma rc_spent_bit:
  assumes "rc_spent b0 a d s" "unat (rc_range s) * (31 * 8191) \<le> unat (rc_range s') * 2 ^ 24"
    and "rc_buf s' = rc_buf s"
  shows "rc_spent b0 (Suc a) d s'"
proof -
  let ?n = "rc_buf s - b0"
  have "256 ^ ?n * 2 ^ 24 * 31 ^ Suc a * 8191 ^ (Suc a + d) =
      (256 ^ ?n * 2 ^ 24 * 31 ^ a * 8191 ^ (a + d)) * (31 * 8191 :: nat)"
    by (simp add: algebra_simps)
  also have "\<dots> \<le> (unat (rc_range s) * 2 ^ (24 * a + 14 * d)) * (31 * 8191)"
    using assms(1) unfolding rc_spent_def by (intro mult_le_mono1) (rule conjunct2)
  also have "\<dots> = (unat (rc_range s) * (31 * 8191)) * 2 ^ (24 * a + 14 * d)" by simp
  also have "\<dots> \<le> (unat (rc_range s') * 2 ^ 24) * 2 ^ (24 * a + 14 * d)"
    using assms(2) by (rule mult_le_mono1)
  also have "\<dots> = unat (rc_range s') * 2 ^ (24 * Suc a + 14 * d)"
    by (simp only: mult_Suc_right power_add mult.assoc)
  finally show ?thesis using assms(1,3) unfolding rc_spent_def by simp
qed

lemma rc_spent_bit7:
  assumes "rc_spent b0 a d s" "unat (rc_range s) * (31 * 8191) \<le> unat (rc_range s') * 2 ^ 24"
    and "rc_buf s' = rc_buf s"
  shows "rc_spent b0 a (d + 7) s'"
proof -
  let ?n = "rc_buf s - b0" and ?K = "2 ^ (24 * a + 14 * d) :: nat"
  have "(unat (rc_range s) * 8191 ^ 7) * (31 * 8191) = (unat (rc_range s) * (31 * 8191)) * 8191 ^ 7"
    by (simp only: ac_simps)
  also have "\<dots> \<le> (unat (rc_range s') * 2 ^ 24) * 8191 ^ 7"
    using assms(2) by (rule mult_le_mono1)
  also have "\<dots> \<le> (unat (rc_range s') * 2 ^ 98) * (31 * 8191)" by simp
  finally have step: "unat (rc_range s) * 8191 ^ 7 \<le> unat (rc_range s') * 2 ^ 98" by simp
  have "256 ^ ?n * 2 ^ 24 * 31 ^ a * 8191 ^ (a + (d + 7)) =
      (256 ^ ?n * 2 ^ 24 * 31 ^ a * 8191 ^ (a + d)) * (8191 ^ 7 :: nat)"
    by (simp only: power_add mult.assoc)
  also have "\<dots> \<le> (unat (rc_range s) * ?K) * 8191 ^ 7"
    using assms(1) unfolding rc_spent_def by (intro mult_le_mono1) (rule conjunct2)
  also have "\<dots> = (unat (rc_range s) * 8191 ^ 7) * ?K" by (simp only: ac_simps)
  also have "\<dots> \<le> (unat (rc_range s') * 2 ^ 98) * ?K" using step by (rule mult_le_mono1)
  also have "\<dots> = unat (rc_range s') * 2 ^ (24 * a + 14 * (d + 7))"
    by (simp add: power_add)
  finally show ?thesis using assms(1,3) unfolding rc_spent_def by simp
qed

lemma rc_spent_direct:
  assumes "rc_spent b0 a d s" "unat (rc_range s) * 8191 \<le> unat (rc_range s') * 2 ^ 14"
    and "rc_buf s' = rc_buf s"
  shows "rc_spent b0 a (Suc d) s'"
proof -
  let ?n = "rc_buf s - b0"
  have "256 ^ ?n * 2 ^ 24 * 31 ^ a * 8191 ^ (a + Suc d) =
      (256 ^ ?n * 2 ^ 24 * 31 ^ a * 8191 ^ (a + d)) * (8191 :: nat)"
    by (simp add: algebra_simps)
  also have "\<dots> \<le> (unat (rc_range s) * 2 ^ (24 * a + 14 * d)) * 8191"
    using assms(1) unfolding rc_spent_def by (intro mult_le_mono1) (rule conjunct2)
  also have "\<dots> = (unat (rc_range s) * 8191) * 2 ^ (24 * a + 14 * d)" by simp
  also have "\<dots> \<le> (unat (rc_range s') * 2 ^ 14) * 2 ^ (24 * a + 14 * d)"
    using assms(2) by (rule mult_le_mono1)
  also have "\<dots> = unat (rc_range s') * 2 ^ (24 * a + 14 * Suc d)"
    by (simp add: power_add)
  finally show ?thesis using assms(1,3) unfolding rc_spent_def by simp
qed

lemma rc_spent_mono: "rc_spent b0 a d s \<Longrightarrow> a \<le> a' \<Longrightarrow> d \<le> d' \<Longrightarrow> rc_spent b0 a' d' s"
proof -
  assume *: "rc_spent b0 a d s" and "a \<le> a'" "d \<le> d'"
  have "rc_spent b0 (a + k) d s" for k
    by (induction k) (auto simp: * intro: rc_spent_bit [where s = s])
  then have "rc_spent b0 a' d s" using \<open>a \<le> a'\<close> by (metis le_add_diff_inverse)
  then have "rc_spent b0 a' (d + k) s" for k
    by (induction k) (auto intro: rc_spent_direct [where s = s])
  then show ?thesis using \<open>d \<le> d'\<close> by (metis le_add_diff_inverse)
qed

text \<open>The worst symbol has 22 modelled and 26 direct bits: twenty bytes are enough for it.\<close>

lemma rc_spent_20:
  assumes "rc_spent b0 a d s" "a \<le> 22" "d \<le> 26" "unat (rc_range s) < 2 ^ 24"
  shows "rc_buf s < b0 + 20"
proof (rule ccontr)
  assume "\<not> rc_buf s < b0 + 20"
  then have "(256::nat) ^ 20 \<le> 256 ^ (rc_buf s - b0)" by (intro power_increasing) auto
  moreover have "256 ^ (rc_buf s - b0) * 2 ^ 24 * 31 ^ 22 * 8191 ^ (22 + 26) \<le>
      unat (rc_range s) * 2 ^ (24 * 22 + 14 * 26)"
    using rc_spent_mono [OF assms(1-3)] unfolding rc_spent_def by (rule conjunct2)
  ultimately have "256 ^ 20 * 2 ^ 24 * 31 ^ 22 * 8191 ^ (22 + 26) \<le> unat (rc_range s) * 2 ^ (24 * 22 + 14 * 26)"
    by (elim le_trans [rotated]) (intro mult_le_mono1)
  also have "\<dots> < 2 ^ 24 * 2 ^ (24 * 22 + 14 * 26)"
    using assms(4) by simp
  finally show False by simp
qed

lemma rc_spent_le_20:
  assumes "rc_spent b0 a d s" "a \<le> 22" "d \<le> 26"
  shows "rc_buf s \<le> b0 + 20"
proof (rule ccontr)
  assume "\<not> rc_buf s \<le> b0 + 20"
  then have "(256::nat) ^ 21 \<le> 256 ^ (rc_buf s - b0)" by (intro power_increasing) auto
  moreover have "256 ^ (rc_buf s - b0) * 2 ^ 24 * 31 ^ 22 * 8191 ^ (22 + 26) \<le>
      unat (rc_range s) * 2 ^ (24 * 22 + 14 * 26)"
    using rc_spent_mono [OF assms(1-3)] unfolding rc_spent_def by (rule conjunct2)
  ultimately have "256 ^ 21 * 2 ^ 24 * 31 ^ 22 * 8191 ^ (22 + 26) \<le> unat (rc_range s) * 2 ^ (24 * 22 + 14 * 26)"
    by (elim le_trans [rotated]) (intro mult_le_mono1)
  also have "\<dots> < 2 ^ 32 * 2 ^ (24 * 22 + 14 * 26)"
    using unsigned_less [of "rc_range s"] by simp
  finally show False by simp
qed

lemma dec_bit_eq:
  "dec_bit inp probs i s =
     (if i < length probs then
        (case normalize inp s of None \<Rightarrow> None
         | Some s1 \<Rightarrow> (case rc_bit s1 (probs ! i) of (b, s2) \<Rightarrow> Some (b, probs[i := prob_update (probs ! i) b], s2)))
      else None)"
  by (auto simp: dec_bit_def Let_def get_at_def split: option.splits prod.splits)

lemma dec_direct_eq:
  "dec_direct inp s = None \<longleftrightarrow> normalize inp s = None"
  by (auto simp: dec_direct_def Let_def split: bind_splits)

lemma probs_ok_update [simp]: "probs_ok probs \<Longrightarrow> i < length probs \<Longrightarrow> probs_ok (probs[i := prob_update (probs ! i) b])"
  by (auto simp: list_all_length nth_list_update)

lemma rc_spent_bit_step:
  assumes "rc_spent b0 a d s" "normalize inp s = Some s1" "rc_live s" "prob_ok p" "rc_bit s1 p = (b, s2)"
  shows "rc_spent b0 (Suc a) d s2" "rc_spent b0 a (d + 7) s2" "rc_live s2" "rc_buf s \<le> rc_buf s2"
  using rc_spent_bit [OF rc_spent_normalize [OF assms(1-3)], of s2]
    rc_spent_bit7 [OF rc_spent_normalize [OF assms(1-3)], of s2]
    rc_bit_range [OF _ assms(4,5)] normalize_Some [OF assms(2,3)] by auto

lemma rc_spent_direct_step:
  assumes "rc_spent b0 a d s" "dec_direct inp s = Some (b, s2)" "rc_live s"
  shows "rc_spent b0 a (Suc d) s2" "rc_live s2" "rc_buf s \<le> rc_buf s2"
proof -
  obtain s1 where s1: "normalize inp s = Some s1"
    using assms(2) dec_direct_eq [of inp s] by (cases "normalize inp s") auto
  then show "rc_spent b0 a (Suc d) s2" "rc_live s2" "rc_buf s \<le> rc_buf s2"
    using rc_spent_direct [OF rc_spent_normalize [OF assms(1) s1 assms(3)], of s2]
      dec_direct_range [OF assms(2) s1] normalize_Some [OF s1 assms(3)] by auto
qed

text \<open>What a run leaves behind.\<close>

lemma bp_run_spent:
  assumes "bp_run inp p probs s = Some (x, probs', s')"
    and "probs_ok probs" "rc_live s" "rc_spent b0 a d s" "bp_cost p a1 d1"
  shows "probs_ok probs' \<and> length probs' = length probs \<and> rc_live s' \<and> rc_buf s \<le> rc_buf s' \<and>
    rc_spent b0 (a + a1) (d + d1) s'"
  using assms
proof (induction p arbitrary: probs s a d a1 d1)
  case (Ret y)
  then show ?case by (auto intro: rc_spent_mono)
next
  case (Bit i k)
  then obtain s1 b s2 where i: "i < length probs" and s1: "normalize inp s = Some s1"
    and s2: "rc_bit s1 (probs ! i) = (b, s2)"
    and run: "bp_run inp (k b) (probs[i := prob_update (probs ! i) b]) s2 = Some (x, probs', s')"
    by (auto simp: dec_bit_eq split: if_splits option.splits prod.splits)
  have ok: "prob_ok (probs ! i)" using Bit.prems(2) i by (simp add: list_all_length)
  note st = rc_spent_bit_step [OF Bit.prems(4) s1 Bit.prems(3) ok s2]
  note IH = Bit.IH [OF rangeI run probs_ok_update [OF Bit.prems(2) i] st(3)]
  from Bit.prems(5) consider "0 < a1" "bp_cost (k b) (a1 - 1) d1" | "7 \<le> d1" "bp_cost (k b) a1 (d1 - 7)"
    by (cases b) auto
  then show ?case
  proof cases
    case 1
    then show ?thesis using IH [OF st(1) 1(2)] st(4) by auto
  next
    case 2
    then show ?thesis using IH [OF st(2) 2(2)] st(4) by auto
  qed
next
  case (Direct k)
  then obtain b s2 where s2: "dec_direct inp s = Some (b, s2)"
    and run: "bp_run inp (k b) probs s2 = Some (x, probs', s')"
    by (auto split: option.splits prod.splits)
  note st = rc_spent_direct_step [OF Direct.prems(4) s2 Direct.prems(3)]
  have "bp_cost (k b) a1 (d1 - 1)" using Direct.prems(5) by (cases b) auto
  note IH = Direct.IH [OF rangeI run Direct.prems(2) st(2,1) this]
  then show ?case using st Direct.prems(5) by auto
qed

text \<open>A run never faults while twenty bytes are readable past a normalized start.\<close>

lemma rc_margin:
  assumes "rc_spent b0 a d s" "a \<le> 22" "d \<le> 26" "b0 + 20 \<le> length inp"
  obtains s1 where "normalize inp s = Some s1"
proof -
  have "rc_norm s \<or> rc_buf s < length inp"
    using rc_spent_20 [OF assms(1-3)] assms(4) by (fastforce simp: rc_norm_def)
  then show ?thesis using normalize_total that by blast
qed

lemma bp_run_total:
  assumes "probs_ok probs" "rc_live s" "rc_spent b0 a d s" "bp_cost p a1 d1"
    and "a + a1 \<le> 22" "d + d1 \<le> 26" "bp_in {..<length probs} p" "b0 + 20 \<le> length inp"
  shows "\<exists>x probs' s'. bp_run inp p probs s = Some (x, probs', s')"
  using assms
proof (induction p arbitrary: probs s a d a1 d1)
  case (Ret y)
  then show ?case by simp
next
  case (Bit i k)
  have i: "i < length probs" using Bit.prems(7) by simp
  then have ok: "prob_ok (probs ! i)" using Bit.prems(1) by (simp add: list_all_length)
  obtain s1 where s1: "normalize inp s = Some s1"
    using rc_margin [OF Bit.prems(3) _ _ Bit.prems(8)] Bit.prems(5,6) by auto
  obtain b s2 where s2: "rc_bit s1 (probs ! i) = (b, s2)" by fastforce
  note st = rc_spent_bit_step [OF Bit.prems(3) s1 Bit.prems(2) ok s2]
  have c: "bp_in {..<length (probs[i := prob_update (probs ! i) b])} (k b)" using Bit.prems(7) by (cases b) auto
  note IH = Bit.IH [OF rangeI probs_ok_update [OF Bit.prems(1) i] st(3) _ _ _ _ c Bit.prems(8)]
  from Bit.prems(4) consider "0 < a1" "bp_cost (k b) (a1 - 1) d1" | "7 \<le> d1" "bp_cost (k b) a1 (d1 - 7)"
    by (cases b) auto
  then have "\<exists>x probs' s'. bp_run inp (k b) (probs[i := prob_update (probs ! i) b]) s2 = Some (x, probs', s')"
  proof cases
    case 1
    then show ?thesis using IH [OF st(1) 1(2)] Bit.prems(5,6) by auto
  next
    case 2
    then show ?thesis using IH [OF st(2) 2(2)] Bit.prems(5,6) by auto
  qed
  then show ?case using i s1 s2 by (simp add: dec_bit_eq)
next
  case (Direct k)
  obtain s1 where s1: "normalize inp s = Some s1"
    using rc_margin [OF Direct.prems(3) _ _ Direct.prems(8)] Direct.prems(5,6) by auto
  then obtain b s2 where s2: "dec_direct inp s = Some (b, s2)"
    using dec_direct_eq [of inp s] by (cases "dec_direct inp s") auto
  note st = rc_spent_direct_step [OF Direct.prems(3) s2 Direct.prems(2)]
  have c: "bp_cost (k b) a1 (d1 - 1)" "bp_in {..<length probs} (k b)" "0 < d1"
    using Direct.prems(4,7) by (cases b; auto)+
  have "\<exists>x probs' s'. bp_run inp (k b) probs s2 = Some (x, probs', s')"
    by (rule Direct.IH [OF rangeI _ st(2,1) c(1)]) (use c Direct.prems in auto)
  then show ?case using s2 by simp
qed

subsection \<open>The trees of the LZMA symbol decoder\<close>

primrec tree_prog :: "nat \<Rightarrow> nat \<Rightarrow> u32 \<Rightarrow> u32 bitprog" where
  "tree_prog 0 base sy = Ret sy"
| "tree_prog (Suc n) base sy = Bit (base + unat sy) (\<lambda>b. tree_prog n base (sy + sy + of_bool b))"

primrec matched_prog :: "nat \<Rightarrow> nat \<Rightarrow> u32 \<Rightarrow> u32 \<Rightarrow> u32 \<Rightarrow> u32 bitprog" where
  "matched_prog 0 base sy mb offs = Ret sy"
| "matched_prog (Suc n) base sy mb offs =
     Bit (base + unat ((offs AND (mb + mb)) + offs + sy))
       (\<lambda>b. matched_prog n base (sy + sy + of_bool b) (mb + mb)
          (if b then offs AND (mb + mb) else (offs AND (mb + mb)) XOR offs))"

primrec rev_prog :: "nat \<Rightarrow> nat \<Rightarrow> u32 \<Rightarrow> u32 \<Rightarrow> (u32 \<times> u32) bitprog" where
  "rev_prog 0 base i m = Ret (i, m)"
| "rev_prog (Suc n) base i m =
     Bit (base + unat i) (\<lambda>b. rev_prog n base (i + (m + (if b then m else 0))) (m + m))"

primrec direct_prog :: "nat \<Rightarrow> u32 \<Rightarrow> u32 bitprog" where
  "direct_prog 0 x = Ret x"
| "direct_prog (Suc n) x = Direct (\<lambda>b. direct_prog n (push_bit 1 x + of_bool b))"

lemma prob_ok_2048: "probs_ok probs \<Longrightarrow> i < length probs \<Longrightarrow> unat (probs ! i) \<le> 2048"
  by (auto simp: list_all_length prob_ok_def intro: le_trans)

lemma rc_bit_masked:
  assumes "unat p \<le> 2048" "rc_bit s p = (b, s')"
  defines "bound \<equiv> drop_bit K_NUM_BIT_MODEL_TOTAL_BITS (rc_range s) * ucast p"
  shows "bit_mask (rc_code s) bound = (if b then -1 else 0)"
    and "branchless_update (ucast p) (if b then -1 else 0) = prob_update p b"
    and "s' = (if b then s\<lparr>rc_range := rc_range s - bound, rc_code := rc_code s - bound\<rparr> else s\<lparr>rc_range := bound\<rparr>)"
  using assms(2) branchless_update_eq [OF assms(1), of b]
  by (auto simp: bound_def rc_bit_def bit_mask_eq Let_def split: if_splits)

lemma dec_bit_probs:
  assumes "dec_bit inp probs i s = Some (b, probs', s')" "probs_ok probs"
  shows "probs_ok probs'" "length probs' = length probs"
  using assms by (auto simp: dec_bit_eq split: if_splits option.splits prod.splits)

lemma bit_tree_levels:
  assumes "probs_ok probs" "0 < unat sy" "base + (unat sy + 1) * 2 ^ k \<le> length probs"
    and "(unat sy + 1) * 2 ^ k \<le> 2 ^ 31"
  shows "bit_tree_times k inp base (probs, sy, ucast (probs ! (base + unat sy)), s) \<bind> bit_tree_last inp base =
    map_option (\<lambda>(x, probs', s'). (probs', x, s')) (bp_run inp (tree_prog (Suc k) base sy) probs s)"
  using assms
proof (induction k arbitrary: probs sy s)
  case 0
  then have i: "base + unat sy < length probs" by simp
  show ?case
    using bit_tree_last_eq [OF i prob_ok_2048 [OF 0(1) i], of inp s]
    by (auto split: option.splits)
next
  case (Suc k)
  have pw: "(1::nat) \<le> 2 ^ k" by simp
  have b2: "base + (2 * unat sy + 2) * 2 ^ k \<le> length probs" "(2 * unat sy + 2) * 2 ^ k \<le> 2 ^ 31"
    using Suc.prems(3,4) by (simp_all add: algebra_simps)
  have le: "2 * unat sy + 2 \<le> (2 * unat sy + 2) * 2 ^ k" using mult_le_mono2 [OF pw, of "2 * unat sy + 2"] by (simp only: mult_1_right)
  have i: "base + unat sy < length probs" "base + 2 * unat sy + 1 < length probs" "unat sy < 2 ^ 31"
    using b2 le by linarith+
  note step = bit_tree_eq [OF i(1) prob_ok_2048 [OF Suc.prems(1) i(1)] Suc.prems(2) i(3,2), of inp s]
  show ?case
  proof (cases "dec_bit inp probs (base + unat sy) s")
    case None
    then show ?thesis using step by simp
  next
    case (Some r)
    obtain b probs' s' where r: "r = (b, probs', s')" by (cases r)
    let ?sy = "sy + sy + of_bool b"
    have sy: "unat ?sy = 2 * unat sy + of_bool b" by (rule unat_double(1) [OF i(3)])
    note pr = dec_bit_probs [OF Some [unfolded r] Suc.prems(1)]
    have "(unat ?sy + 1) * 2 ^ k \<le> (2 * unat sy + 2) * 2 ^ k"
      unfolding sy by (intro mult_le_mono1) simp
    then have "bit_tree_times k inp base (probs', ?sy, ucast (probs' ! (base + unat ?sy)), s') \<bind> bit_tree_last inp base =
        map_option (\<lambda>(x, probs', s'). (probs', x, s')) (bp_run inp (tree_prog (Suc k) base ?sy) probs' s')"
      using b2 Suc.prems(2) by (intro Suc.IH [OF pr(1)]) (unfold sy pr(2), linarith+)
    then show ?thesis
      using step unfolding Some r by (simp only: tree_prog.simps(2) [of "Suc k"] bp_run.simps(2) Some r
        bit_tree_times.simps bind.bind_lunit option.case prod.case)
  qed
qed

lemma tree_decode_eq:
  assumes "probs_ok probs" "base + 2 ^ n \<le> length probs" "0 < n" "n \<le> 31"
  shows "tree_decode n inp probs base s =
    map_option (\<lambda>(x, probs', s'). (probs', x, s')) (bp_run inp (tree_prog n base 1) probs s)"
proof -
  obtain k where n: "n = Suc k" using assms(3) by (cases n) auto
  have "(2::nat) ^ n \<le> 2 ^ 31" using assms(4) by (intro power_increasing) auto
  moreover have "base + 1 < length probs"
    using assms(2,3) one_less_power [of "2::nat" n] by linarith
  ultimately show ?thesis
    using bit_tree_levels [OF assms(1), of 1 base k inp s] assms(2) by (simp add: tree_decode_def n)
qed

lemma matched_liter_dec_eq:
  assumes "probs_ok probs"
  shows "matched_liter_dec inp base (probs, sy, mb, offs, s) =
    (case dec_bit inp probs (base + unat ((offs AND (mb + mb)) + offs + sy)) s of None \<Rightarrow> None
     | Some (b, probs', s') \<Rightarrow> Some (probs', sy + sy + of_bool b, mb + mb,
         (if b then offs AND (mb + mb) else (offs AND (mb + mb)) XOR offs), s'))"
proof -
  define i where "i = base + unat ((offs AND (mb + mb)) + offs + sy)"
  show ?thesis
  proof (cases "i < length probs")
    case True
    note core = rc_bit_masked [OF prob_ok_2048 [OF assms True]]
    show ?thesis
    proof (cases "normalize inp s")
      case (Some s1)
      obtain b s2 where "rc_bit s1 (probs ! i) = (b, s2)" by fastforce
      with Some True core [OF this] show ?thesis
        unfolding matched_liter_dec_def Let_def prod.case i_def [symmetric]
        by (cases b) (simp_all add: dec_bit_eq)
    qed (simp add: matched_liter_dec_def dec_bit_eq Let_def i_def)
  qed (simp add: matched_liter_dec_def dec_bit_eq Let_def i_def)
qed

lemma matched_liter_times_eq:
  assumes "probs_ok probs"
  shows "map_option (\<lambda>(probs', x, _, _, s'). (probs', x, s')) (matched_liter_times n inp base (probs, sy, mb, offs, s)) =
    map_option (\<lambda>(x, probs', s'). (probs', x, s')) (bp_run inp (matched_prog n base sy mb offs) probs s)"
  using assms
proof (induction n arbitrary: probs sy mb offs s)
  case 0
  then show ?case by simp
next
  case (Suc n)
  then show ?case
    by (auto simp: matched_liter_dec_eq dec_bit_probs split: option.splits)
qed

lemma rev_bit_mask_eq:
  assumes "probs_ok probs"
  shows "rev_bit_mask inp base probs i s =
    (case dec_bit inp probs (base + unat i) s of None \<Rightarrow> None
     | Some (b, probs', s') \<Rightarrow> Some (probs', if b then -1 else 0, s'))"
proof (cases "base + unat i < length probs")
  case True
  note core = rc_bit_masked [OF prob_ok_2048 [OF assms True]]
  show ?thesis
  proof (cases "normalize inp s")
    case (Some s1)
    obtain b s2 where "rc_bit s1 (probs ! (base + unat i)) = (b, s2)" by fastforce
    with Some True core [OF this] show ?thesis
      by (cases b) (simp_all add: rev_bit_mask_def dec_bit_eq Let_def)
  qed (simp add: rev_bit_mask_def dec_bit_eq)
qed (simp add: rev_bit_mask_def dec_bit_eq)

lemma direct_bit_eq:
  "direct_bit inp (x, s) = map_option (\<lambda>(b, s'). (push_bit 1 x + of_bool b, s')) (dec_direct inp s)"
proof -
  have t: "drop_bit 31 c = of_bool (bit c 31)" for c :: u32
  proof (rule bit_word_eqI)
    fix n
    have "\<not> bit c (31 + n)" if "n \<noteq> 0" using bit_imp_le_length [of c "31 + n"] that by auto
    then show "bit (drop_bit 31 c) n = bit (of_bool (bit c 31) :: u32) n"
      by (cases "n = 0") (auto simp: bit_simps)
  qed
  show ?thesis
    by (auto simp: direct_bit_def dec_direct_def Let_def t split: bind_splits)
qed

end
