(* ===== verification/Errors.thy ===== *)
theory Errors
  imports LzPrelude
begin

text \<open>
  \<open>src/src/error.rs\<close>: the failure and status enumerations that every decoder returns. A Rust
  \<open>Result<T, E>\<close> is the sum \<open>E + T\<close> (\<open>Inl\<close> the error); a panic, or undefined behaviour inside an
  \<open>unsafe\<close> block, is \<open>None\<close> of an enclosing option.
\<close>

datatype lzma_error =
    UnsupportedProps
  | CorruptData
  | CorruptRun u64 u64
  | Truncated
  | InternalFailure
  | Alloc
  | MemoryLimit u64 u64
  | Cancelled
  | Param
  | Read
  | Write

datatype xz_error_kind =
    BadMagic
  | BadFooterMagic
  | BadStreamFlags
  | StreamFlagsMismatch
  | HeaderCrc
  | UnsupportedCheck
  | CheckMismatch
  | UnsupportedFilter
  | BadFilterChain
  | BadVli
  | TruncatedVli
  | BadPadding
  | BadBlockHeader
  | SizeMismatch
  | IndexMismatch
  | TruncatedInput
  | TrailingGarbage
  | XzMemoryLimit u64 u64
  | TooMuchOutput u64
  | Lzma lzma_error

text \<open>Where a decode call stopped, and whether the output limit must be the end of the stream.\<close>

datatype status =
    NotSpecified
  | FinishedWithMark
  | NotFinished
  | NeedsMoreInput
  | MaybeFinishedWithoutMark

datatype finish_mode = Any | End

datatype io_error_kind =
    IoUnsupported
  | IoInvalidData
  | IoUnexpectedEof
  | IoOutOfMemory
  | IoInvalidInput
  | IoOther

fun is_corrupt :: "lzma_error \<Rightarrow> bool" where
  "is_corrupt CorruptData = True"
| "is_corrupt (CorruptRun _ _) = True"
| "is_corrupt Truncated = True"
| "is_corrupt _ = False"

fun io_kind :: "lzma_error \<Rightarrow> io_error_kind" where
  "io_kind UnsupportedProps = IoUnsupported"
| "io_kind CorruptData = IoInvalidData"
| "io_kind (CorruptRun _ _) = IoInvalidData"
| "io_kind Truncated = IoUnexpectedEof"
| "io_kind Alloc = IoOutOfMemory"
| "io_kind (MemoryLimit _ _) = IoOutOfMemory"
| "io_kind Param = IoInvalidInput"
| "io_kind Cancelled = IoOther"
| "io_kind InternalFailure = IoOther"
| "io_kind Read = IoOther"
| "io_kind Write = IoOther"

fun xz_io_kind :: "xz_error_kind \<Rightarrow> io_error_kind" where
  "xz_io_kind TruncatedInput = IoUnexpectedEof"
| "xz_io_kind TruncatedVli = IoUnexpectedEof"
| "xz_io_kind (XzMemoryLimit _ _) = IoOutOfMemory"
| "xz_io_kind UnsupportedCheck = IoUnsupported"
| "xz_io_kind UnsupportedFilter = IoUnsupported"
| "xz_io_kind (Lzma e) = io_kind e"
| "xz_io_kind _ = IoInvalidData"

fun xz_lzma :: "xz_error_kind \<Rightarrow> lzma_error option" where
  "xz_lzma (Lzma e) = Some e"
| "xz_lzma _ = None"

text \<open>Exactly the errors that blame the input map to the two data-error classes of \<open>std::io\<close>.\<close>

lemma is_corrupt_io_kind:
  "is_corrupt e \<longleftrightarrow> io_kind e \<in> {IoInvalidData, IoUnexpectedEof}"
  by (cases e) auto

end
