(* ===== verification/LzmaState.thy ===== *)
theory LzmaState
  imports RangeDec Errors
begin

text \<open>
  The decoder state of \<open>src/src/lzma/state.rs\<close> and the constants of \<open>src/src/lzma/consts.rs\<close>
  that lay out the probability table: \<open>LzmaProps\<close> (parsing, construction, the rounding of the
  dictionary buffer) and \<open>LzmaDec\<close> with its allocation and resets. Whether an allocation
  succeeds is the parameter \<open>alloc_ok\<close> (\<open>Vec::try_reserve_exact\<close> of \<open>n\<close> elements).
\<close>

subsection \<open>Constants\<close>

definition RC_INIT_SIZE :: nat where [lz_consts]: "RC_INIT_SIZE = 5"
definition LZMA_REQUIRED_INPUT_MAX :: nat where [lz_consts]: "LZMA_REQUIRED_INPUT_MAX = 20"
definition LZMA_PROPS_SIZE :: nat where [lz_consts]: "LZMA_PROPS_SIZE = 5"
definition K_NUM_POS_BITS_MAX :: nat where [lz_consts]: "K_NUM_POS_BITS_MAX = 4"
definition K_NUM_POS_STATES_MAX :: nat where [lz_consts]: "K_NUM_POS_STATES_MAX = 2 ^ K_NUM_POS_BITS_MAX"
definition K_LEN_NUM_LOW_BITS :: nat where [lz_consts]: "K_LEN_NUM_LOW_BITS = 3"
definition K_LEN_NUM_LOW_SYMBOLS :: u32 where [lz_consts]: "K_LEN_NUM_LOW_SYMBOLS = push_bit K_LEN_NUM_LOW_BITS 1"
definition K_LEN_NUM_HIGH_BITS :: nat where [lz_consts]: "K_LEN_NUM_HIGH_BITS = 8"
definition K_LEN_NUM_HIGH_SYMBOLS :: u32 where [lz_consts]: "K_LEN_NUM_HIGH_SYMBOLS = push_bit K_LEN_NUM_HIGH_BITS 1"
definition LEN_LOW :: nat where [lz_consts]: "LEN_LOW = 0"
definition LEN_HIGH :: nat where [lz_consts]:
  "LEN_HIGH = LEN_LOW + 2 * (K_NUM_POS_STATES_MAX * 2 ^ K_LEN_NUM_LOW_BITS)"
definition K_NUM_LEN_PROBS :: nat where [lz_consts]: "K_NUM_LEN_PROBS = LEN_HIGH + unat K_LEN_NUM_HIGH_SYMBOLS"
definition LEN_CHOICE :: nat where [lz_consts]: "LEN_CHOICE = LEN_LOW"
definition LEN_CHOICE_2 :: nat where [lz_consts]: "LEN_CHOICE_2 = LEN_LOW + 2 ^ K_LEN_NUM_LOW_BITS"
definition K_NUM_STATES :: u32 where [lz_consts]: "K_NUM_STATES = 12"
definition K_NUM_STATES2 :: nat where [lz_consts]: "K_NUM_STATES2 = 16"
definition K_NUM_LIT_STATES :: u32 where [lz_consts]: "K_NUM_LIT_STATES = 7"
definition K_START_POS_MODEL_INDEX :: u32 where [lz_consts]: "K_START_POS_MODEL_INDEX = 4"
definition K_END_POS_MODEL_INDEX :: u32 where [lz_consts]: "K_END_POS_MODEL_INDEX = 14"
definition K_NUM_FULL_DISTANCES :: nat where [lz_consts]:
  "K_NUM_FULL_DISTANCES = 2 ^ (unat K_END_POS_MODEL_INDEX div 2)"
definition K_NUM_POS_SLOT_BITS :: nat where [lz_consts]: "K_NUM_POS_SLOT_BITS = 6"
definition K_NUM_LEN_TO_POS_STATES :: nat where [lz_consts]: "K_NUM_LEN_TO_POS_STATES = 4"
definition K_NUM_ALIGN_BITS :: nat where [lz_consts]: "K_NUM_ALIGN_BITS = 4"
definition K_ALIGN_TABLE_SIZE :: nat where [lz_consts]: "K_ALIGN_TABLE_SIZE = 2 ^ K_NUM_ALIGN_BITS"
definition K_MATCH_MIN_LEN :: u32 where [lz_consts]: "K_MATCH_MIN_LEN = 2"
definition K_MATCH_SPEC_LEN_START :: u32 where [lz_consts]:
  "K_MATCH_SPEC_LEN_START = K_MATCH_MIN_LEN + K_LEN_NUM_LOW_SYMBOLS * 2 + K_LEN_NUM_HIGH_SYMBOLS"
definition K_MATCH_SPEC_LEN_ERROR_DATA :: u32 where [lz_consts]: "K_MATCH_SPEC_LEN_ERROR_DATA = push_bit 9 1"
definition K_MATCH_SPEC_LEN_ERROR_FAIL :: u32 where [lz_consts]:
  "K_MATCH_SPEC_LEN_ERROR_FAIL = K_MATCH_SPEC_LEN_ERROR_DATA - 1"

definition K_START_OFFSET :: nat where [lz_consts]: "K_START_OFFSET = 1664"
definition SPEC_POS :: nat where [lz_consts]: "SPEC_POS = 0"
definition IS_REP0_LONG :: nat where [lz_consts]: "IS_REP0_LONG = SPEC_POS + K_NUM_FULL_DISTANCES"
definition REP_LEN_CODER :: nat where [lz_consts]:
  "REP_LEN_CODER = IS_REP0_LONG + K_NUM_STATES2 * 2 ^ K_NUM_POS_BITS_MAX"
definition LEN_CODER :: nat where [lz_consts]: "LEN_CODER = REP_LEN_CODER + K_NUM_LEN_PROBS"
definition IS_MATCH :: nat where [lz_consts]: "IS_MATCH = LEN_CODER + K_NUM_LEN_PROBS"
definition ALIGN :: nat where [lz_consts]: "ALIGN = IS_MATCH + K_NUM_STATES2 * 2 ^ K_NUM_POS_BITS_MAX"
definition IS_REP :: nat where [lz_consts]: "IS_REP = ALIGN + K_ALIGN_TABLE_SIZE"
definition IS_REP_G0 :: nat where [lz_consts]: "IS_REP_G0 = IS_REP + unat K_NUM_STATES"
definition IS_REP_G1 :: nat where [lz_consts]: "IS_REP_G1 = IS_REP_G0 + unat K_NUM_STATES"
definition IS_REP_G2 :: nat where [lz_consts]: "IS_REP_G2 = IS_REP_G1 + unat K_NUM_STATES"
definition POS_SLOT :: nat where [lz_consts]: "POS_SLOT = IS_REP_G2 + unat K_NUM_STATES"
definition LITERAL :: nat where [lz_consts]:
  "LITERAL = POS_SLOT + K_NUM_LEN_TO_POS_STATES * 2 ^ K_NUM_POS_SLOT_BITS"
definition NUM_BASE_PROBS :: nat where [lz_consts]: "NUM_BASE_PROBS = LITERAL"
definition LZMA_LIT_SIZE :: nat where [lz_consts]: "LZMA_LIT_SIZE = 0x300"
definition LZMA_DIC_MIN :: u32 where [lz_consts]: "LZMA_DIC_MIN = push_bit 12 1"
definition K_BAD_REP_CODE :: u32 where [lz_consts]: "K_BAD_REP_CODE = 0xC0000000 - 0x400"

definition lzma_props_get_num_probs :: "u8 \<Rightarrow> u8 \<Rightarrow> nat" where
  "lzma_props_get_num_probs lc lp = NUM_BASE_PROBS + LZMA_LIT_SIZE * 2 ^ unat (lc + lp)"

text \<open>The three compile-time assertions of \<open>consts.rs\<close>.\<close>

lemma consts_assertions:
  "ALIGN = K_START_OFFSET" "NUM_BASE_PROBS = 1984"
  "let k_range0 = 0xFFFFFFFF :: u32;
       k_bound0 = push_bit (K_NUM_BIT_MODEL_TOTAL_BITS - 1) (drop_bit K_NUM_BIT_MODEL_TOTAL_BITS k_range0)
   in K_BAD_REP_CODE = k_bound0 + push_bit (K_NUM_BIT_MODEL_TOTAL_BITS - 1)
        (drop_bit K_NUM_BIT_MODEL_TOTAL_BITS (k_range0 - k_bound0))"
  by (simp_all add: lz_consts)

subsection \<open>Properties\<close>

record lzma_props =
  lc :: u8
  lp :: u8
  pb :: u8
  dict_size :: u32

definition props_parse :: "bytes \<Rightarrow> (lzma_error + lzma_props) option" where
  "props_parse props = do {
     b1 \<leftarrow> get_at props 1; b2 \<leftarrow> get_at props 2; b3 \<leftarrow> get_at props 3; b4 \<leftarrow> get_at props 4;
     let dict = u32_from_le_bytes b1 b2 b3 b4;
     let dict = (if dict < LZMA_DIC_MIN then LZMA_DIC_MIN else dict);
     d \<leftarrow> get_at props 0;
     if 9 * 5 * 5 \<le> d then Some (Inl UnsupportedProps)
     else (let lc_v = d mod 9; d = d div 9; pb_v = d div 5; lp_v = d mod 5 in
       Some (Inr \<lparr>lc = lc_v, lp = lp_v, pb = pb_v, dict_size = dict\<rparr>)) }"

definition props_new :: "u8 \<Rightarrow> u8 \<Rightarrow> u8 \<Rightarrow> u32 \<Rightarrow> lzma_error + lzma_props" where
  "props_new lc_v lp_v pb_v dict =
     (if 8 < lc_v \<or> 4 < lp_v \<or> 4 < pb_v then Inl UnsupportedProps
      else Inr \<lparr>lc = lc_v, lp = lp_v, pb = pb_v, dict_size = max dict LZMA_DIC_MIN\<rparr>)"

definition set_lclppb :: "u8 \<Rightarrow> u8 \<Rightarrow> u8 \<Rightarrow> lzma_props \<Rightarrow> lzma_props" where
  "set_lclppb lc_v lp_v pb_v props = props\<lparr>lc := lc_v, lp := lp_v, pb := pb_v\<rparr>"

definition dic_buf_size :: "lzma_props \<Rightarrow> nat" where
  "dic_buf_size props =
     (let d = (ucast (dict_size props) :: u64);
          m = (if push_bit 30 1 \<le> dict_size props then push_bit 22 1 - 1
               else if push_bit 22 1 \<le> dict_size props then push_bit 20 1 - 1
               else push_bit 12 1 - 1);
          rounded = (d + m) AND NOT m
      in if rounded < d then unat d else unat rounded)"

text \<open>What both constructors promise.\<close>

definition props_ok :: "lzma_props \<Rightarrow> bool" where
  "props_ok props \<longleftrightarrow> unat (lc props) \<le> 8 \<and> unat (lp props) \<le> 4 \<and> unat (pb props) \<le> 4 \<and>
     4096 \<le> unat (dict_size props)"

subsection \<open>The decoder\<close>

record lzma_dec =
  p_prop :: lzma_props
  p_probs :: "u16 list"
  p_dic :: bytes
  p_dic_buf_size :: nat
  p_dic_pos :: nat
  p_range :: u32
  p_code :: u32
  p_processed_pos :: u32
  p_check_dic_size :: u32
  p_reps :: "u32 \<times> u32 \<times> u32 \<times> u32"
  p_state :: u32
  p_remain_len :: u32
  p_temp_buf_size :: nat
  p_temp_buf :: bytes
  p_force_portable :: bool

definition init_dic_and_state :: "bool \<Rightarrow> bool \<Rightarrow> lzma_dec \<Rightarrow> lzma_dec" where
  "init_dic_and_state init_dic init_state p =
     (let p = p\<lparr>p_remain_len := K_MATCH_SPEC_LEN_START + 1, p_temp_buf_size := 0\<rparr>;
          p = (if init_dic
               then p\<lparr>p_processed_pos := 0, p_check_dic_size := 0, p_remain_len := K_MATCH_SPEC_LEN_START + 2\<rparr>
               else p)
      in if init_state then p\<lparr>p_remain_len := K_MATCH_SPEC_LEN_START + 2\<rparr> else p)"

definition dec_init :: "lzma_dec \<Rightarrow> lzma_dec" where
  "dec_init p = init_dic_and_state True True (p\<lparr>p_dic_pos := 0\<rparr>)"

text \<open>\<open>probs[..num_probs].fill(..)\<close> panics when the table is shorter.\<close>

definition reset_state :: "lzma_dec \<Rightarrow> lzma_dec option" where
  "reset_state p =
     (let num_probs = lzma_props_get_num_probs (lc (p_prop p)) (lp (p_prop p)) in
      if num_probs \<le> length (p_probs p)
      then Some (p\<lparr>p_probs := replicate num_probs (ucast (drop_bit 1 K_BIT_MODEL_TOTAL)) @ drop num_probs (p_probs p),
                   p_reps := (1, 1, 1, 1), p_state := 0\<rparr>)
      else None)"

definition dec_alloc :: "(nat \<Rightarrow> bool) \<Rightarrow> lzma_props \<Rightarrow> nat \<Rightarrow> lzma_error + lzma_dec" where
  "dec_alloc alloc_ok props buf_size =
     (let num_probs = lzma_props_get_num_probs (lc props) (lp props) in
      if \<not> alloc_ok num_probs then Inl Alloc
      else if buf_size \<noteq> 0 \<and> \<not> alloc_ok buf_size then Inl Alloc
      else Inr (dec_init
        \<lparr>p_prop = props, p_probs = replicate num_probs 0, p_dic = replicate buf_size 0, p_dic_buf_size = buf_size,
         p_dic_pos = 0, p_range = 0, p_code = 0, p_processed_pos = 0, p_check_dic_size = 0,
         p_reps = (0, 0, 0, 0), p_state = 0, p_remain_len = 0, p_temp_buf_size = 0,
         p_temp_buf = replicate LZMA_REQUIRED_INPUT_MAX 0, p_force_portable = False\<rparr>))"

definition dec_new :: "(nat \<Rightarrow> bool) \<Rightarrow> lzma_props \<Rightarrow> lzma_error + lzma_dec" where
  "dec_new alloc_ok props = dec_alloc alloc_ok props (dic_buf_size props)"

definition dec_new_probs_only :: "(nat \<Rightarrow> bool) \<Rightarrow> lzma_props \<Rightarrow> lzma_error + lzma_dec" where
  "dec_new_probs_only alloc_ok props = dec_alloc alloc_ok props 0"

subsection \<open>What the constructors establish\<close>

lemma props_new_ok: "props_new lc_v lp_v pb_v d = Inr props \<Longrightarrow> props_ok props"
  by (auto simp: props_new_def props_ok_def word_less_nat_alt word_le_nat_alt not_less lz_consts max_def split: if_splits)

lemma props_parse_ok:
  assumes "props_parse bs = Some (Inr props)"
  shows "props_ok props"
proof -
  have d: "unat (d div 9) < 25" if "\<not> 225 \<le> d" for d :: u8
    using that by (simp add: word_le_nat_alt unat_div)
  show ?thesis
    using assms d [of "bs ! 0"]
    by (auto simp: props_parse_def props_ok_def lz_consts Let_def unat_div unat_mod word_less_nat_alt not_less
        split: bind_splits if_splits)
qed

text \<open>Parsing inverts the byte a header stores for a triple in range.\<close>

lemma props_parse_byte:
  assumes "lc_v < 9" "lp_v < 5" "pb_v < 5"
  shows "props_parse [of_nat ((pb_v * 5 + lp_v) * 9 + lc_v), a, b, c, d] =
    Some (Inr \<lparr>lc = of_nat lc_v, lp = of_nat lp_v, pb = of_nat pb_v,
               dict_size = max (u32_from_le_bytes a b c d) LZMA_DIC_MIN\<rparr>)"
proof -
  define n where "n = (pb_v * 5 + lp_v) * 9 + lc_v"
  have n: "n < 225" "n mod 9 = lc_v" "n div 9 div 5 = pb_v" "n div 9 mod 5 = lp_v"
  proof -
    have "n mod 9 = lc_v" "n div 9 = pb_v * 5 + lp_v"
      using assms by (simp_all add: n_def mod_mult_self3 [of "pb_v * 5 + lp_v" 9 lc_v, simplified] del: mult_Suc)
    then show "n < 225" "n mod 9 = lc_v" "n div 9 div 5 = pb_v" "n div 9 mod 5 = lp_v"
      using assms mod_mult_self3 [of pb_v 5 lp_v] by (simp_all add: n_def)
  qed
  have u: "unat (of_nat n :: u8) = n" using n(1) by (intro unat_of_nat_small) simp
  have w: "x = of_nat k" if "unat x = k" for x :: u8 and k using that by auto
  have "\<not> 225 \<le> (of_nat n :: u8)" using n(1) u by (simp add: word_le_nat_alt)
  moreover have "of_nat n mod 9 = (of_nat lc_v :: u8)" "of_nat n div 9 div 5 = (of_nat pb_v :: u8)"
    "of_nat n div 9 mod 5 = (of_nat lp_v :: u8)"
    using n u by (auto intro!: w simp: unat_mod unat_div)
  ultimately show ?thesis unfolding n_def [symmetric]
    by (auto simp: props_parse_def Let_def max_def)
qed

lemma dic_buf_size_bounds:
  "unat (dict_size props) \<le> dic_buf_size props \<and> dic_buf_size props \<le> unat (dict_size props) + (2 ^ 22 - 1)"
proof -
  define d where "d = (ucast (dict_size props) :: u64)"
  have d: "unat d = unat (dict_size props)" by (simp add: d_def)
  have r: "unat ((d + m) AND NOT m) \<le> unat (dict_size props) + unat m" for m
  proof -
    have "unat ((d + m) AND NOT m) \<le> unat (d + m)"
      using word_and_le2 [of "d + m" "NOT m"] by (simp add: word_le_nat_alt)
    also have "\<dots> \<le> unat d + unat m" by (simp add: unat_word_ariths)
    finally show ?thesis by (simp add: d)
  qed
  show ?thesis
    using r [of "push_bit 22 1 - 1"] r [of "push_bit 20 1 - 1"] r [of "push_bit 12 1 - 1"]
    unfolding dic_buf_size_def d_def [symmetric] Let_def
    by (auto simp: d word_less_nat_alt not_less)
qed

lemma reset_state_Some:
  "lzma_props_get_num_probs (lc (p_prop p)) (lp (p_prop p)) \<le> length (p_probs p) \<Longrightarrow> \<exists>q. reset_state p = Some q"
  by (simp add: reset_state_def Let_def)

end
