(* ===== verification/Lzma2Frame.thy ===== *)
theory Lzma2Frame
  imports LzmaState
begin

text \<open>
  \<open>src/src/lzma2/frame.rs\<close>: the LZMA2 chunk-header state machine that the decoder, the parser and the
  run scanner share. \<open>update_state\<close> returns the frame with everything but \<open>state\<close> updated, the
  properties it writes through, and the next state, which the callers store.
\<close>

definition LZMA2_CONTROL_COPY_RESET_DIC :: u8 where "LZMA2_CONTROL_COPY_RESET_DIC = 1"
definition LZMA2_LCLP_MAX :: u8 where "LZMA2_LCLP_MAX = 4"

definition is_uncompressed_state :: "u8 \<Rightarrow> bool" where
  "is_uncompressed_state control \<longleftrightarrow> control AND push_bit 7 1 = 0"

definition dic_size_from_prop :: "u8 \<Rightarrow> u32" where
  "dic_size_from_prop p = push_bit (unat p div 2 + 11) (2 OR (ucast p AND 1))"

definition dic_size_from_prop_full :: "u8 \<Rightarrow> u32" where
  "dic_size_from_prop_full p = (if p = 40 then 0xFFFFFFFF else dic_size_from_prop p)"

datatype lzma2_state =
    Control | Unpack0 | Unpack1 | Pack0 | Pack1 | Prop | Data | DataCont | Finished | Error

record lzma2_frame =
  f_state :: lzma2_state
  f_control :: u8
  f_need_init_level :: u8
  f_is_extra_mode :: bool
  f_unpack_size :: u32
  f_pack_size :: u32

definition frame_new :: lzma2_frame where
  "frame_new = \<lparr>f_state = Control, f_control = 0, f_need_init_level = 0xE0, f_is_extra_mode = False,
     f_unpack_size = 0, f_pack_size = 0\<rparr>"

definition frame_init :: "lzma2_frame \<Rightarrow> lzma2_frame" where
  "frame_init f = f\<lparr>f_state := Control, f_need_init_level := 0xE0, f_is_extra_mode := False, f_unpack_size := 0\<rparr>"

definition update_control :: "u8 \<Rightarrow> lzma2_frame \<Rightarrow> lzma2_frame \<times> lzma2_state" where
  "update_control b f =
     (let f = f\<lparr>f_is_extra_mode := False, f_control := b\<rparr> in
      if b = 0 then (f, Finished)
      else if is_uncompressed_state b then
        if b = LZMA2_CONTROL_COPY_RESET_DIC then (f\<lparr>f_need_init_level := 0xC0\<rparr>, Unpack0)
        else if 2 < b \<or> f_need_init_level f = 0xE0 then (f, Error)
        else (f, Unpack0)
      else if b < f_need_init_level f then (f, Error)
      else (f\<lparr>f_need_init_level := 0, f_unpack_size := push_bit 16 (ucast (b AND 0x1F))\<rparr>, Unpack0))"

definition update_state :: "u8 \<Rightarrow> lzma_props \<Rightarrow> lzma2_frame \<Rightarrow> lzma2_frame \<times> lzma_props \<times> lzma2_state" where
  "update_state b prop f = (case f_state f of
     Control \<Rightarrow> (let (f, next) = update_control b f in (f, prop, next))
   | Unpack0 \<Rightarrow> (f\<lparr>f_unpack_size := f_unpack_size f OR push_bit 8 (ucast b)\<rparr>, prop, Unpack1)
   | Unpack1 \<Rightarrow>
       (let f = f\<lparr>f_unpack_size := (f_unpack_size f OR ucast b) + 1\<rparr> in
        (f, prop, if is_uncompressed_state (f_control f) then Data else Pack0))
   | Pack0 \<Rightarrow> (f\<lparr>f_pack_size := push_bit 8 (ucast b)\<rparr>, prop, Pack1)
   | Pack1 \<Rightarrow>
       (let f = f\<lparr>f_pack_size := (f_pack_size f OR ucast b) + 1\<rparr> in
        (f, prop, if f_control f AND 0x40 \<noteq> 0 then Prop else Data))
   | Prop \<Rightarrow>
       if 9 * 5 * 5 \<le> b then (f, prop, Error)
       else (let lc_v = b mod 9; b = b div 9; pb_v = b div 5; lp_v = b mod 5 in
         if LZMA2_LCLP_MAX < lc_v + lp_v then (f, prop, Error)
         else (f, set_lclppb lc_v lp_v pb_v prop, Data))
   | _ \<Rightarrow> (f, prop, Error))"

text \<open>A step of the machine as the callers take it: the returned state is stored.\<close>

definition frame_step :: "u8 \<Rightarrow> lzma_props \<times> lzma2_frame \<Rightarrow> lzma_props \<times> lzma2_frame" where
  "frame_step b = (\<lambda>(prop, f). let (f, prop, next) = update_state b prop f in (prop, f\<lparr>f_state := next\<rparr>))"

subsection \<open>Control bytes\<close>

lemma is_uncompressed_iff: "is_uncompressed_state b \<longleftrightarrow> unat b < 128"
proof -
  have "is_uncompressed_state b \<longleftrightarrow> \<not> bit b 7"
    using and_exp_eq_0_iff_not_bit [of b 7] by (simp add: is_uncompressed_state_def)
  also have "bit b 7 \<longleftrightarrow> odd (unat b div 2 ^ 7)"
    using bit_unat [of b 7] bit_iff_odd [of "unat b" 7] by simp
  also have "\<not> odd (unat b div 2 ^ 7) \<longleftrightarrow> unat b < 128"
  proof -
    have "unat b div 128 < 2" using unat_u8_lt [of b] by (simp add: less_mult_imp_div_less del: unat_u8_lt)
    then show ?thesis by (cases "unat b div 128 = 0") (auto simp: div_eq_0_iff less_2_cases_iff)
  qed
  finally show ?thesis .
qed

text \<open>The dictionary sizes: \<open>2\<close> or \<open>3\<close> times a power of two, up to the special 40.\<close>

lemma dic_size_from_prop_nat:
  assumes "unat p < 40"
  shows "unat (dic_size_from_prop p) = (2 + unat p mod 2) * 2 ^ (unat p div 2 + 11)"
proof -
  have p1: "(ucast p :: u32) AND 1 = of_bool (odd (ucast p :: u32))" by (simp add: and_one_eq mod_2_eq_odd)
  have o: "odd (unat p) \<longleftrightarrow> odd (ucast p :: u32)"
    using bit_unat [of "ucast p :: u32" 0] by (simp add: bit_0)
  have d: "unat (2 OR (ucast p AND 1) :: u32) = 2 + unat p mod 2"
    unfolding p1 using o by (cases "odd (ucast p :: u32)") (auto simp: odd_iff_mod_2_eq_one)
  have "(2 + unat p mod 2) * 2 ^ (unat p div 2 + 11) < 4 * 2 ^ (unat p div 2 + 11)" by simp
  also have "(4::nat) * 2 ^ (unat p div 2 + 11) \<le> 4 * 2 ^ 30"
    using assms by (intro mult_le_mono2 power_increasing) auto
  finally have "(2 + unat p mod 2) * 2 ^ (unat p div 2 + 11) < 2 ^ 32" by simp
  then show ?thesis unfolding dic_size_from_prop_def
    using unat_push_bit [of "2 OR (ucast p AND 1) :: u32" "unat p div 2 + 11"] d by simp
qed

lemma dic_size_from_prop_full_bounds:
  assumes "unat p \<le> 40"
  shows "4096 \<le> unat (dic_size_from_prop_full p)"
proof (cases "p = 40")
  case False
  then have "unat p \<noteq> 40" using word_eq_unatI [of p 40] by fastforce
  then have "unat p < 40" using assms by simp
  moreover have "(2::nat) ^ 11 \<le> 2 ^ (unat p div 2 + 11)" by (intro power_increasing) auto
  then have "2 * 2 ^ 11 \<le> (2 + unat p mod 2) * 2 ^ (unat p div 2 + 11)" by (intro mult_le_mono) auto
  ultimately show ?thesis using False by (simp add: dic_size_from_prop_full_def dic_size_from_prop_nat)
qed (simp add: dic_size_from_prop_full_def)

subsection \<open>Sizes\<close>

text \<open>The declared sizes of a chunk, as its header bytes spell them.\<close>

definition lzma_unpack :: "u8 \<Rightarrow> u8 \<Rightarrow> u8 \<Rightarrow> nat" where
  "lzma_unpack c u1 u0 = unat c mod 32 * 65536 + unat u1 * 256 + unat u0 + 1"

definition be16_size :: "u8 \<Rightarrow> u8 \<Rightarrow> nat" where
  "be16_size b1 b0 = unat b1 * 256 + unat b0 + 1"

lemma unat_and_1F: "unat (b AND 0x1F :: u8) = unat b mod 32"
  using unat_and_mask [of b 5] by (simp add: mask_eq_exp_minus_1)

lemma unat_or_low:
  fixes h x :: u32
  assumes "unat h mod 2 ^ k = 0" "unat x < 2 ^ k" "unat h + unat x < 2 ^ 32"
  shows "unat (h OR x) = unat h + unat x"
proof -
  have hd: "unat (drop_bit k h) * 2 ^ k = unat h"
    using div_mult_mod_eq [of "unat h" "2 ^ k"] assms(1) by (simp only: unat_drop_bit add_0_right)
  then have "h = push_bit k (drop_bit k h)"
    using unat_push_bit [of "drop_bit k h" k] assms(3) by (intro word_eq_unatI) simp
  then have "unat (h OR x) = unat (x OR push_bit k (drop_bit k h))" by (simp only: or.commute)
  moreover have "unat x + unat (drop_bit k h) * 2 ^ k < 2 ^ LENGTH(32)" unfolding hd using assms(3) by simp
  then have "unat (x OR push_bit k (drop_bit k h)) = unat x + unat (drop_bit k h) * 2 ^ k"
    by (rule unat_or_push_bit [OF assms(2)])
  ultimately show ?thesis using hd by (simp only: add.commute)
qed

lemma or_byte_1:
  assumes "unat h mod 65536 = 0" "unat h + 65536 \<le> 2 ^ 32"
  shows "unat (h OR push_bit 8 (ucast (b :: u8)) :: u32) = unat h + unat b * 256"
proof -
  have b: "unat (push_bit 8 (ucast b) :: u32) = unat b * 256" using unat_push_bit [of "ucast b :: u32" 8] unat_u8_lt [of b] by simp
  moreover have "unat b * 256 < 65536" using unat_u8_lt [of b] by linarith
  moreover from this have "unat h + unat b * 256 < 2 ^ 32" using assms(2) by linarith
  ultimately show ?thesis using unat_or_low [of h 16 "push_bit 8 (ucast b)"] assms(1) by simp
qed

lemma or_byte_0:
  assumes "unat h mod 256 = 0" "unat h + 256 \<le> 2 ^ 32"
  shows "unat (h OR ucast (b :: u8) :: u32) = unat h + unat b"
proof -
  have "unat b < 256" by simp
  then show ?thesis using unat_or_low [of h 8 "ucast b"] assms by (simp del: unat_u8_lt)
qed

lemma size_bytes:
  assumes "unat h mod 65536 = 0" "unat h + 65536 \<le> 2 ^ 32"
  shows "unat ((h OR push_bit 8 (ucast (b1 :: u8))) OR ucast (b0 :: u8) :: u32) = unat h + unat b1 * 256 + unat b0"
proof -
  have 1: "unat (h OR push_bit 8 (ucast b1) :: u32) = unat h + unat b1 * 256" by (rule or_byte_1 [OF assms])
  have "unat h mod 256 = 0" using assms(1) mod_mod_cancel [of 256 65536 "unat h"] by simp
  then have "(unat h + unat b1 * 256) mod 256 = 0" by simp
  moreover have "unat h + unat b1 * 256 + 256 \<le> 2 ^ 32" using assms(2) unat_u8_lt [of b1] by linarith
  ultimately show ?thesis using or_byte_0 [of "h OR push_bit 8 (ucast b1)" b0] 1 by simp
qed

lemma size_bytes_Suc:
  fixes h :: u32
  assumes "unat h mod 65536 = 0" "unat h + 65536 < 2 ^ 32"
  shows "unat (((h OR push_bit 8 (ucast (b1 :: u8))) OR ucast (b0 :: u8) :: u32) + 1) = unat h + be16_size b1 b0"
proof -
  have "unat b0 < 256" "unat b1 < 256" by simp_all
  then have "unat h + unat b1 * 256 + unat b0 + 1 < 2 ^ 32" using assms(2) by linarith
  then show ?thesis using size_bytes [of h b1 b0] assms by (simp add: unat_word_ariths be16_size_def)
qed

lemma control_high:
  "unat (push_bit 16 (ucast (c AND 0x1F :: u8)) :: u32) = unat c mod 32 * 65536"
proof -
  have "unat c mod 32 < 32" by simp
  then show ?thesis
    using unat_push_bit [of "ucast (c AND 0x1F) :: u32" 16] by (simp add: unat_and_1F)
qed

text \<open>The header of an LZMA chunk, from the state between chunks.\<close>

lemma lzma_header:
  fixes u1 u0 p1 p0 :: u8 and pr :: lzma_props
  assumes "f_state f = Control" "128 \<le> unat c" "f_need_init_level f \<le> c"
  defines "r \<equiv> fold frame_step [c, u1, u0, p1, p0] (pr, f)"
  shows "fst r = pr" "f_control (snd r) = c" "f_need_init_level (snd r) = 0"
    "f_state (snd r) = (if c AND 0x40 \<noteq> 0 then Prop else Data)"
    "unat (f_unpack_size (snd r)) = lzma_unpack c u1 u0" "unat (f_pack_size (snd r)) = be16_size p1 p0"
proof -
  have c0: "c \<noteq> 0" "\<not> is_uncompressed_state c" "\<not> c < f_need_init_level f"
    using assms(2,3) by (auto simp: is_uncompressed_iff)
  have u: "unat (((push_bit 16 (ucast (c AND 0x1F)) OR push_bit 8 (ucast u1)) OR ucast u0 :: u32) + 1) = lzma_unpack c u1 u0"
    using size_bytes_Suc [of "push_bit 16 (ucast (c AND 0x1F))" u1 u0] control_high [of c] mod_less_divisor [of 32 "unat c"]
    by (simp add: lzma_unpack_def be16_size_def add.assoc)
  have p: "unat ((push_bit 8 (ucast p1) OR ucast p0 :: u32) + 1) = be16_size p1 p0"
    using size_bytes_Suc [of 0 p1 p0] by simp
  show "fst r = pr" "f_control (snd r) = c" "f_need_init_level (snd r) = 0"
    "f_state (snd r) = (if c AND 0x40 \<noteq> 0 then Prop else Data)"
    "unat (f_unpack_size (snd r)) = lzma_unpack c u1 u0" "unat (f_pack_size (snd r)) = be16_size p1 p0"
    using assms(1) c0 u p by (simp_all add: r_def frame_step_def update_state_def update_control_def Let_def)
qed

lemma stored_header:
  fixes u1 u0 :: u8 and pr :: lzma_props
  assumes "f_state f = Control" "f_unpack_size f = 0" "c = 1 \<or> c = 2 \<and> f_need_init_level f \<noteq> 0xE0"
  defines "r \<equiv> fold frame_step [c, u1, u0] (pr, f)"
  shows "fst r = pr" "f_control (snd r) = c" "f_state (snd r) = Data"
    "unat (f_unpack_size (snd r)) = be16_size u1 u0"
proof -
  have u: "unat ((push_bit 8 (ucast u1) OR ucast u0 :: u32) + 1) = be16_size u1 u0"
    using size_bytes_Suc [of 0 u1 u0] by simp
  have c: "is_uncompressed_state c" using assms(3) by (auto simp: is_uncompressed_iff)
  show "fst r = pr" "f_control (snd r) = c" "f_state (snd r) = Data"
    "unat (f_unpack_size (snd r)) = be16_size u1 u0"
    using assms(1-3) u c by (auto simp: r_def frame_step_def update_state_def update_control_def Let_def LZMA2_CONTROL_COPY_RESET_DIC_def)
qed

subsection \<open>What every reachable frame satisfies\<close>

text \<open>Between chunks nothing is owed; inside a header the sizes read so far are partial; after it they
  are within the format's limits. No byte of a chunk is accepted before one that resets the
  dictionary, and no LZMA chunk before one that sets the properties.\<close>

definition frame_inv :: "lzma_props \<times> lzma2_frame \<Rightarrow> bool" where
  "frame_inv = (\<lambda>(prop, f).
     unat (f_pack_size f) \<le> 2 ^ 16 \<and>
     f_need_init_level f \<in> {0xE0, 0xC0, 0} \<and>
     (f_state f \<notin> {Control, Finished, Error} \<longrightarrow> f_need_init_level f \<noteq> 0xE0) \<and>
     (f_state f \<notin> {Control, Finished, Error} \<and> \<not> is_uncompressed_state (f_control f) \<longrightarrow> f_need_init_level f = 0) \<and>
     (f_state f \<in> {Pack0, Pack1, Prop} \<longrightarrow> \<not> is_uncompressed_state (f_control f)) \<and>
     (f_state f = Prop \<longrightarrow> f_control f AND 0x40 \<noteq> 0) \<and>
     unat (lc prop) + unat (lp prop) \<le> 4 \<and> unat (pb prop) \<le> 4 \<and>
     (case f_state f of
        Control \<Rightarrow> f_unpack_size f = 0
      | Unpack0 \<Rightarrow> \<exists>k < 32. unat (f_unpack_size f) = k * 65536
      | Unpack1 \<Rightarrow> \<exists>k < 32. \<exists>b < 256. unat (f_unpack_size f) = k * 65536 + b * 256
      | Pack0 \<Rightarrow> 0 < unat (f_unpack_size f) \<and> unat (f_unpack_size f) \<le> 2 ^ 21
      | Pack1 \<Rightarrow> 0 < unat (f_unpack_size f) \<and> unat (f_unpack_size f) \<le> 2 ^ 21 \<and> (\<exists>b < 256. unat (f_pack_size f) = b * 256)
      | DataCont \<Rightarrow> 0 < unat (f_unpack_size f) \<and> unat (f_unpack_size f) \<le> 2 ^ 21
      | Finished \<Rightarrow> True
      | Error \<Rightarrow> True
      | _ \<Rightarrow> 0 < unat (f_unpack_size f) \<and> unat (f_unpack_size f) \<le> 2 ^ 21 \<and>
          (\<not> is_uncompressed_state (f_control f) \<longrightarrow> 0 < unat (f_pack_size f))))"

lemma frame_inv_new: "unat (lc pr) + unat (lp pr) \<le> 4 \<Longrightarrow> unat (pb pr) \<le> 4 \<Longrightarrow> frame_inv (pr, frame_new)"
  by (simp add: frame_inv_def frame_new_def)

lemma frame_inv_init: "frame_inv (pr, f) \<Longrightarrow> frame_inv (pr, frame_init f)"
  by (simp add: frame_inv_def frame_init_def)

lemma frame_inv_control:
  assumes "frame_inv (pr, f)" "f_state f = Control" "update_control b f = (f', next)"
  shows "frame_inv (pr, f'\<lparr>f_state := next\<rparr>)"
proof -
  have k: "unat (push_bit 16 (ucast (b AND 0x1F)) :: u32) = unat b mod 32 * 65536" by (rule control_high)
  have "\<exists>k < 32. unat b mod 32 * 65536 = k * 65536" by (intro exI [of _ "unat b mod 32"]) simp
  then show ?thesis using assms k
    by (auto simp: frame_inv_def update_control_def Let_def split: if_splits)
qed

lemma prop_byte_ok:
  assumes "\<not> 4 < (b :: u8) mod 9 + b div 9 mod 5"
  shows "unat (b mod 9) + unat (b div 9 mod 5) \<le> 4"
proof -
  have 1: "unat (b mod 9) < 9" "unat (b div 9 mod 5) < 5" by (simp_all add: unat_mod_distrib unat_div_distrib)
  then have "unat (b mod 9 + b div 9 mod 5) = unat (b mod 9) + unat (b div 9 mod 5)" by (simp add: unat_word_ariths)
  then show ?thesis using assms by (simp add: word_less_nat_alt)
qed

lemma prop_byte_pb: "\<not> 225 \<le> (b :: u8) \<Longrightarrow> unat (b div 9 div 5) \<le> 4"
  by (simp add: word_le_nat_alt unat_div not_le)

lemma frame_inv_step:
  assumes "frame_inv s"
  shows "frame_inv (frame_step b s)"
proof (cases s)
  case (Pair pr f)
  show ?thesis
  proof (cases "f_state f")
    case Control
    then show ?thesis using assms
      by (auto simp: Pair frame_step_def update_state_def Let_def intro: frame_inv_control split: prod.split)
  next
    case Unpack0
    then obtain k where "k < 32" "unat (f_unpack_size f) = k * 65536" using assms by (auto simp: Pair frame_inv_def)
    then have "unat (f_unpack_size f OR push_bit 8 (ucast b)) = k * 65536 + unat b * 256"
      using or_byte_1 [of "f_unpack_size f" b] by simp
    then show ?thesis using assms Unpack0 \<open>k < 32\<close> unat_u8_lt [of b]
      by (auto simp: Pair frame_step_def update_state_def frame_inv_def)
  next
    case Unpack1
    then obtain k c where k: "k < 32" "c < 256" "unat (f_unpack_size f) = k * 65536 + c * 256"
      using assms by (auto simp: Pair frame_inv_def)
    then have "unat (f_unpack_size f OR ucast b) = k * 65536 + c * 256 + unat b"
      using or_byte_0 [of "f_unpack_size f" b] by simp
    moreover have le: "k * 65536 + c * 256 + unat b \<le> 2097151" using k unat_u8_lt [of b] by linarith
    ultimately have "unat ((f_unpack_size f OR ucast b) + 1) = k * 65536 + c * 256 + unat b + 1"
      by (simp add: unat_word_ariths)
    then show ?thesis using assms Unpack1 k le
      by (auto simp: Pair frame_step_def update_state_def frame_inv_def)
  next
    case Pack0
    have "unat (push_bit 8 (ucast b) :: u32) = unat b * 256"
      using unat_push_bit [of "ucast b :: u32" 8] unat_u8_lt [of b] by simp
    moreover have "unat b < 256" "unat b \<le> 256" using unat_u8_lt [of b] by linarith+
    ultimately show ?thesis using assms Pack0
      by (auto simp: Pair frame_step_def update_state_def frame_inv_def)
  next
    case Pack1
    then obtain c where k: "c < 256" "unat (f_pack_size f) = c * 256"
      using assms by (auto simp: Pair frame_inv_def)
    then have "unat (f_pack_size f OR ucast b) = c * 256 + unat b" using or_byte_0 [of "f_pack_size f" b] by simp
    moreover have le: "c * 256 + unat b \<le> 65535" using k unat_u8_lt [of b] by linarith
    ultimately have "unat ((f_pack_size f OR ucast b) + 1) = c * 256 + unat b + 1"
      by (simp add: unat_word_ariths)
    then show ?thesis using assms Pack1 k le
      by (auto simp: Pair frame_step_def update_state_def frame_inv_def)
  next
    case Prop
    then show ?thesis using assms prop_byte_ok [of b] prop_byte_pb [of b]
      by (auto simp: Pair frame_step_def update_state_def frame_inv_def set_lclppb_def LZMA2_LCLP_MAX_def Let_def)
  qed (use assms in \<open>auto simp: Pair frame_step_def update_state_def frame_inv_def\<close>)
qed

lemma frame_inv_steps: "frame_inv s \<Longrightarrow> frame_inv (fold frame_step bs s)"
  by (induction bs arbitrary: s) (simp_all add: frame_inv_step)

text \<open>What a walk over the payload keeps.\<close>

lemma frame_inv_payload:
  assumes "frame_inv (pr, f)" "f_state f \<in> {Data, DataCont}"
    "0 < unat u" "unat u \<le> unat (f_unpack_size f)" "unat p \<le> unat (f_pack_size f)"
  shows "frame_inv (pr, f\<lparr>f_pack_size := p, f_unpack_size := u, f_state := DataCont\<rparr>)"
  using assms by (cases "f_state f"; simp add: frame_inv_def; blast)

lemma frame_inv_cont:
  assumes "frame_inv (pr, f)" "f_state f \<in> {Data, DataCont}"
  shows "frame_inv (pr, f\<lparr>f_state := DataCont\<rparr>)"
  using assms by (cases "f_state f"; simp add: frame_inv_def; blast)

lemma frame_inv_payload_cont:
  assumes "frame_inv (pr, f)" "f_state f = DataCont"
    "0 < unat u" "unat u \<le> unat (f_unpack_size f)" "unat p \<le> unat (f_pack_size f)"
  shows "frame_inv (pr, f\<lparr>f_pack_size := p, f_unpack_size := u\<rparr>)"
  using assms by (cases "f_state f"; simp add: frame_inv_def; blast)

lemma frame_inv_chunk_end:
  assumes "frame_inv (pr, f)" "unat p \<le> unat (f_pack_size f)"
  shows "frame_inv (pr, f\<lparr>f_pack_size := p, f_unpack_size := 0, f_state := Control\<rparr>)"
  using assms by (cases "f_state f"; simp add: frame_inv_def; blast)

end
