(* ===== verification/Lzma2Parse.thy ===== *)
theory Lzma2Parse
  imports Lzma2Frame
begin

text \<open>
  \<open>src/src/lzma2/parse.rs\<close>: the walk over chunk headers that never decodes, and the block boundaries it
  reports. The unread input is the list \<open>src\<close>; \<open>src_len\<close> counts what was consumed. The loop terminates
  on every input, so \<open>parse_loop\<close> is a total function.
\<close>

datatype parse_status =
    PsNotSpecified | PsFinishedWithMark | PsNotFinished | PsNeedsMoreInput | PsNewBlock | PsNewChunk

record lzma2_parser =
  q_frame :: lzma2_frame
  q_prop :: lzma_props
  q_dic_pos :: nat

definition parser_new :: "lzma2_parser option" where
  "parser_new = (case props_new LZMA2_LCLP_MAX 0 0 (push_bit 12 1) of
     Inl _ \<Rightarrow> None
   | Inr pr \<Rightarrow> Some \<lparr>q_frame = frame_new, q_prop = pr, q_dic_pos = 0\<rparr>)"

definition parser_init :: "lzma2_parser \<Rightarrow> lzma2_parser" where
  "parser_init q = q\<lparr>q_frame := frame_init (q_frame q), q_dic_pos := 0\<rparr>"


definition parser_unpack_size :: "lzma2_parser \<Rightarrow> u32" where
  "parser_unpack_size q = f_unpack_size (q_frame q)"

definition parser_unpack_extra :: "lzma2_parser \<Rightarrow> u32" where
  "parser_unpack_extra q = (if f_is_extra_mode (q_frame q) then f_unpack_size (q_frame q) else 0)"

text \<open>One turn of the loop. \<open>PsReturn\<close> leaves \<open>parse\<close>, \<open>PsBreak\<close> leaves the loop, \<open>PsNext\<close> goes
  round with the room \<open>out_size\<close> and the unread input.\<close>

datatype parse_turn =
    PsReturn lzma2_parser parse_status nat
  | PsBreak lzma2_parser nat
  | PsNext lzma2_parser nat bytes nat

definition parse_header :: "lzma2_parser \<Rightarrow> nat \<Rightarrow> bytes \<Rightarrow> nat \<Rightarrow> parse_turn" where
  "parse_header q out_size src src_len = (case src of
     [] \<Rightarrow> PsReturn q PsNeedsMoreInput src_len
   | b # src \<Rightarrow>
      (let (f, pr, next) = update_state b (q_prop q) (q_frame q);
           f = f\<lparr>f_state := next\<rparr>; q = q\<lparr>q_frame := f, q_prop := pr\<rparr>; src_len = src_len + 1 in
       if next = Unpack0 \<and> (f_control f = LZMA2_CONTROL_COPY_RESET_DIC \<or> 0xE0 \<le> f_control f)
       then PsReturn q PsNewBlock src_len
       else if out_size = 0 \<and> next \<noteq> Finished then PsReturn q PsNotFinished src_len
       else if next = Data then PsReturn q PsNewChunk src_len
       else PsNext q out_size src src_len))"

definition parse_stored :: "lzma2_parser \<Rightarrow> nat \<Rightarrow> bytes \<Rightarrow> nat \<Rightarrow> parse_turn" where
  "parse_stored q out_size src src_len =
     (let f = q_frame q; in_cur = length src in
      if in_cur = 0 then PsReturn q PsNeedsMoreInput src_len
      else
        (let in_cur = (if unat (f_unpack_size f) < in_cur then unat (f_unpack_size f) else in_cur);
             in_cur = (if out_size < in_cur then out_size else in_cur);
             f = f\<lparr>f_unpack_size := f_unpack_size f - of_nat in_cur\<rparr>;
             f = f\<lparr>f_state := if f_unpack_size f = 0 then Control else DataCont\<rparr>
         in PsNext (q\<lparr>q_dic_pos := q_dic_pos q + in_cur, q_frame := f\<rparr>) (out_size - in_cur)
              (drop in_cur src) (src_len + in_cur)))"

text \<open>After the payload: a chunk whose packed bytes have all gone by yields its output.\<close>

definition parse_payload :: "lzma2_parser \<Rightarrow> nat \<Rightarrow> bytes \<Rightarrow> nat \<Rightarrow> parse_turn" where
  "parse_payload q out_size src src_len =
     (let f = q_frame q; in_cur = length src;
          in_cur = (if unat (f_pack_size f) < in_cur then unat (f_pack_size f) else in_cur);
          src = drop in_cur src; src_len = src_len + in_cur; pack = f_pack_size f - of_nat in_cur in
      if pack = 0
      then
        (let rem = (if unat (f_unpack_size f) < out_size then unat (f_unpack_size f) else out_size);
             unpack = f_unpack_size f - of_nat rem;
             f = f\<lparr>f_pack_size := pack, f_unpack_size := unpack\<rparr>;
             f = (if unpack = 0 then f\<lparr>f_state := Control\<rparr> else f)
         in PsNext (q\<lparr>q_dic_pos := q_dic_pos q + rem, q_frame := f\<rparr>) (out_size - rem) src src_len)
      else PsNext (q\<lparr>q_frame := f\<lparr>f_pack_size := pack\<rparr>\<rparr>) out_size src src_len)"

definition parse_lzma :: "lzma2_parser \<Rightarrow> nat \<Rightarrow> bytes \<Rightarrow> nat \<Rightarrow> parse_turn" where
  "parse_lzma q out_size src src_len =
     (let f = (q_frame q)\<lparr>f_is_extra_mode := True\<rparr>; q = q\<lparr>q_frame := f\<rparr> in
      case src of
        [] \<Rightarrow> if f_pack_size f \<noteq> 0 then PsReturn q PsNeedsMoreInput src_len
              else parse_payload q out_size src src_len
      | b # _ \<Rightarrow>
          if f_state f = Data
          then
            (let f = f\<lparr>f_state := DataCont\<rparr> in
             if b \<noteq> 0 then PsBreak (q\<lparr>q_frame := f\<lparr>f_pack_size := f_pack_size f - 1\<rparr>\<rparr>) (src_len + 1)
             else parse_payload (q\<lparr>q_frame := f\<rparr>) out_size src src_len)
          else parse_payload q out_size src src_len)"

definition parse_turn :: "bool \<Rightarrow> lzma2_parser \<Rightarrow> nat \<Rightarrow> bytes \<Rightarrow> nat \<Rightarrow> parse_turn" where
  "parse_turn check_finish_block q out_size src src_len =
     (let f = q_frame q in
      if f_state f = Error then PsBreak q src_len
      else if f_state f = Finished then PsReturn q PsFinishedWithMark src_len
      else if out_size = 0 \<and> \<not> check_finish_block then PsReturn q PsNotFinished src_len
      else if f_state f \<noteq> Data \<and> f_state f \<noteq> DataCont then parse_header q out_size src src_len
      else if out_size = 0 then PsReturn q PsNotFinished src_len
      else if is_uncompressed_state (f_control f) then parse_stored q out_size src src_len
      else parse_lzma q out_size src src_len)"







subsection \<open>Accounting\<close>

text \<open>A turn consumes a prefix of the input, moves what it yields from the room left to the position, and
  keeps the frame's invariant: no counter wraps.\<close>

definition parser_inv :: "lzma2_parser \<Rightarrow> bool" where
  "parser_inv q \<longleftrightarrow> frame_inv (q_prop q, q_frame q)"















lemma parser_new_inv: "\<exists>q. parser_new = Some q \<and> parser_inv q"
  by (simp add: parser_new_def props_new_def LZMA2_LCLP_MAX_def parser_inv_def frame_inv_def frame_new_def)

lemma parser_init_inv: "parser_inv q \<Longrightarrow> parser_inv (parser_init q)"
  by (simp add: parser_inv_def parser_init_def frame_inv_init)







end
