(* ===== verification/LzmaDecode.thy ===== *)
theory LzmaDecode
  imports LzmaState
begin

text \<open>
  \<open>lzma_dec_decode_real\<close> of \<open>src/src/lzma/decode.rs\<close>: the fast symbol loop. The locals of the
  function are the record \<open>lz\<close>, what it never changes is the record \<open>lzenv\<close>, one turn of the loop
  is \<open>decode_real_body\<close>: it either falls to the bottom test (\<open>Body\<close>, the C's \<open>continue\<close>) or leaves
  the loop (\<open>Outer\<close>, \<open>break 'outer\<close>). \<open>None\<close> is a read or write outside the input, the probability
  table or the dictionary: the undefined behaviour the \<open>unsafe\<close> block must exclude.

  The reference is \<open>symbol_prog\<close>, the decision tree of one LZMA symbol, with \<open>apply_symbol\<close>, what a
  decoded symbol does to the decoder.
\<close>

subsection \<open>Locals\<close>

record lzenv =
  e_inp :: bytes
  e_limit :: nat
  e_buf_limit :: nat
  e_dic_buf_size :: nat
  e_check_dic_size :: u32
  e_pb_mask :: u32
  e_lc :: nat
  e_lp_mask :: u32

record lz =
  l_probs :: "u16 list"
  l_state :: u32
  l_rep0 :: u32
  l_rep1 :: u32
  l_rep2 :: u32
  l_rep3 :: u32
  l_dic :: bytes
  l_dic_pos :: nat
  l_processed_pos :: u32
  l_len :: u32
  l_rc :: rc

datatype flow = Body lz | Outer lz

text \<open>\<open>dic_pos.wrapping_sub(rep0 as usize).wrapping_add(if dic_pos < rep0 as usize { dic_buf_size } else { 0 })\<close>\<close>

definition dic_back :: "nat \<Rightarrow> nat \<Rightarrow> u32 \<Rightarrow> nat" where
  "dic_back buf_size pos rep0 =
     (pos + 2 ^ 64 - unat rep0 + (if pos < unat rep0 then buf_size else 0)) mod 2 ^ 64"

subsection \<open>Literals\<close>

definition lit_prob :: "lzenv \<Rightarrow> lz \<Rightarrow> nat option" where
  "lit_prob env l =
     (if l_processed_pos l \<noteq> 0 \<or> e_check_dic_size env \<noteq> 0
      then do {
        prev \<leftarrow> get_at (l_dic l) ((if l_dic_pos l = 0 then e_dic_buf_size env else l_dic_pos l) - 1);
        Some (LITERAL + unat (3 * push_bit (e_lc env)
          ((push_bit 8 (l_processed_pos l) + ucast prev) AND e_lp_mask env))) }
      else Some LITERAL)"

definition put_literal :: "lz \<Rightarrow> u32 \<Rightarrow> flow option" where
  "put_literal l symbol = do {
     d \<leftarrow> set_at (l_dic l) (l_dic_pos l) (ucast symbol);
     Some (Body (l\<lparr>l_dic := d, l_dic_pos := l_dic_pos l + 1\<rparr>)) }"

definition decode_literal :: "lzenv \<Rightarrow> lz \<Rightarrow> flow option" where
  "decode_literal env l = do {
     prob \<leftarrow> lit_prob env l;
     let l = l\<lparr>l_processed_pos := l_processed_pos l + 1\<rparr>;
     if l_state l < K_NUM_LIT_STATES
     then do {
       let l = l\<lparr>l_state := l_state l - (if l_state l < 4 then l_state l else 3)\<rparr>;
       (probs, symbol, s) \<leftarrow> tree_decode 8 (e_inp env) (l_probs l) prob (l_rc l);
       put_literal (l\<lparr>l_probs := probs, l_rc := s\<rparr>) symbol }
     else do {
       match_byte \<leftarrow> get_at (l_dic l) (dic_back (e_dic_buf_size env) (l_dic_pos l) (l_rep0 l));
       let l = l\<lparr>l_state := l_state l - (if l_state l < 10 then 3 else 6)\<rparr>;
       (probs, symbol, _, _, s) \<leftarrow>
         matched_liter_times 8 (e_inp env) prob (l_probs l, 1, ucast match_byte, 0x100, l_rc l);
       put_literal (l\<lparr>l_probs := probs, l_rc := s\<rparr>) symbol } }"

subsection \<open>Lengths and distances\<close>

definition decode_len :: "bytes \<Rightarrow> nat \<Rightarrow> u32 \<Rightarrow> u16 list \<Rightarrow> rc \<Rightarrow> (u16 list \<times> u32 \<times> rc) option" where
  "decode_len inp prob pos_state probs s =
     if_bit_0 inp probs (prob + LEN_CHOICE) s
       (\<lambda>probs s. do {
          (probs, len, s) \<leftarrow> tree_decode 3 inp probs (prob + (LEN_LOW + unat pos_state)) s;
          Some (probs, len - 8, s) })
       (\<lambda>probs s. if_bit_0 inp probs (prob + LEN_CHOICE_2) s
          (\<lambda>probs s. tree_decode 3 inp probs (prob + (LEN_LOW + unat pos_state + 2 ^ K_LEN_NUM_LOW_BITS)) s)
          (\<lambda>probs s. do {
             (probs, len, s) \<leftarrow> tree_decode K_LEN_NUM_HIGH_BITS inp probs (prob + LEN_HIGH) s;
             Some (probs, len - push_bit K_LEN_NUM_HIGH_BITS 1 + K_LEN_NUM_LOW_SYMBOLS * 2, s) }))"

text \<open>The two do-while loops over \<open>num_direct_bits\<close>, which is at least 1 where the source enters
  them; at 0 the decrement underflows.\<close>

primrec rev_bit_loop ::
  "nat \<Rightarrow> bytes \<Rightarrow> nat \<Rightarrow> u16 list \<times> u32 \<times> u32 \<times> rc \<Rightarrow> (u16 list \<times> u32 \<times> u32 \<times> rc) option" where
  "rev_bit_loop 0 inp prob st = None"
| "rev_bit_loop (Suc n) inp prob st = do {
     st \<leftarrow> rev_bit_var inp prob st;
     if n = 0 then Some st else rev_bit_loop n inp prob st }"

primrec direct_loop :: "nat \<Rightarrow> bytes \<Rightarrow> u32 \<times> rc \<Rightarrow> (u32 \<times> rc) option" where
  "direct_loop 0 inp st = None"
| "direct_loop (Suc n) inp st = do {
     st \<leftarrow> direct_bit inp st;
     if n = 0 then Some st else direct_loop n inp st }"

definition decode_align :: "bytes \<Rightarrow> u16 list \<Rightarrow> rc \<Rightarrow> (u16 list \<times> u32 \<times> rc) option" where
  "decode_align inp probs s = do {
     st \<leftarrow> rev_bit_const inp ALIGN 1 (probs, 1, s);
     st \<leftarrow> rev_bit_const inp ALIGN 2 st;
     st \<leftarrow> rev_bit_const inp ALIGN 4 st;
     rev_bit_last inp ALIGN 8 st }"

text \<open>From the slot on. The third component is the end marker: \<open>distance == 0xFFFF_FFFF\<close> after the
  align bits.\<close>

definition decode_slot_tail :: "bytes \<Rightarrow> u32 \<Rightarrow> u16 list \<Rightarrow> rc \<Rightarrow> (u16 list \<times> u32 \<times> bool \<times> rc) option" where
  "decode_slot_tail inp distance probs s =
     (if K_START_POS_MODEL_INDEX \<le> distance
      then (
       let pos_slot = distance;
           num_direct_bits = drop_bit 1 distance - 1;
           distance = 2 OR (distance AND 1) in
       if pos_slot < K_END_POS_MODEL_INDEX
       then do {
         let distance = push_bit (unat num_direct_bits) distance;
         (probs, distance, m, s) \<leftarrow>
           rev_bit_loop (unat num_direct_bits) inp SPEC_POS (probs, distance + 1, 1, s);
         Some (probs, distance - m, False, s) }
       else do {
         let num_direct_bits = num_direct_bits - of_nat K_NUM_ALIGN_BITS;
         (distance, s) \<leftarrow> direct_loop (unat num_direct_bits) inp (distance, s);
         let distance = push_bit K_NUM_ALIGN_BITS distance;
         (probs, i, s) \<leftarrow> decode_align inp probs s;
         let distance = distance OR i;
         Some (probs, distance, distance = 0xFFFFFFFF, s) })
      else Some (probs, distance, False, s))"

definition decode_distance :: "bytes \<Rightarrow> u32 \<Rightarrow> u16 list \<Rightarrow> rc \<Rightarrow> (u16 list \<times> u32 \<times> bool \<times> rc) option" where
  "decode_distance inp len probs s = do {
     let temp = push_bit K_NUM_POS_SLOT_BITS
       (if len < of_nat K_NUM_LEN_TO_POS_STATES then len else of_nat K_NUM_LEN_TO_POS_STATES - 1);
     (probs, distance, s) \<leftarrow> tree_decode 6 inp probs (POS_SLOT + unat temp) s;
     decode_slot_tail inp (distance - 0x40) probs s }"

subsection \<open>Matches\<close>

text \<open>\<open>*dest = *dest.offset(src); dest = dest.add(1)\<close> until \<open>dest == lim\<close>, \<open>n\<close> bytes on.\<close>

primrec copy_fwd :: "nat \<Rightarrow> bytes \<Rightarrow> nat \<Rightarrow> int \<Rightarrow> bytes option" where
  "copy_fwd 0 d dest src = None"
| "copy_fwd (Suc n) d dest src = do {
     b \<leftarrow> (if int dest + src < 0 then None else get_at d (nat (int dest + src)));
     d \<leftarrow> set_at d dest b;
     if n = 0 then Some d else copy_fwd n d (dest + 1) src }"

primrec copy_wrap :: "nat \<Rightarrow> bytes \<Rightarrow> nat \<Rightarrow> nat \<Rightarrow> nat \<Rightarrow> (bytes \<times> nat) option" where
  "copy_wrap 0 d buf_size dpos pos = None"
| "copy_wrap (Suc n) d buf_size dpos pos = do {
     b \<leftarrow> get_at d pos;
     d \<leftarrow> set_at d dpos b;
     let pos = (if pos + 1 = buf_size then 0 else pos + 1);
     if n = 0 then Some (d, dpos + 1) else copy_wrap n d buf_size (dpos + 1) pos }"

definition cur_len :: "nat \<Rightarrow> u32 \<Rightarrow> nat" where
  "cur_len rem len = (if rem < unat len then rem else unat len)"

definition copy_match :: "lzenv \<Rightarrow> lz \<Rightarrow> flow option" where
  "copy_match env l = do {
     let l = l\<lparr>l_len := l_len l + K_MATCH_MIN_LEN\<rparr>;
     rem \<leftarrow> (if e_limit env < l_dic_pos l then None else Some (e_limit env - l_dic_pos l));
     if rem = 0 then Some (Outer l)
     else do {
       let cur_len = cur_len rem (l_len l);
       let pos = dic_back (e_dic_buf_size env) (l_dic_pos l) (l_rep0 l);
       let l = l\<lparr>l_processed_pos := l_processed_pos l + of_nat cur_len, l_len := l_len l - of_nat cur_len\<rparr>;
       room \<leftarrow> (if e_dic_buf_size env < pos then None else Some (e_dic_buf_size env - pos));
       if cur_len \<le> room
       then do {
         d \<leftarrow> copy_fwd cur_len (l_dic l) (l_dic_pos l) (int pos - int (l_dic_pos l));
         Some (Body (l\<lparr>l_dic := d, l_dic_pos := l_dic_pos l + cur_len\<rparr>)) }
       else do {
         (d, dpos) \<leftarrow> copy_wrap cur_len (l_dic l) (e_dic_buf_size env) (l_dic_pos l) pos;
         Some (Body (l\<lparr>l_dic := d, l_dic_pos := dpos\<rparr>)) } } }"

text \<open>What follows the distance bits of a match with a new distance.\<close>

definition new_distance :: "lzenv \<Rightarrow> u32 \<Rightarrow> bool \<Rightarrow> lz \<Rightarrow> flow option" where
  "new_distance env distance is_end l =
     (if is_end
      then Some (Outer (l\<lparr>l_len := K_MATCH_SPEC_LEN_START, l_state := l_state l - K_NUM_STATES\<rparr>))
      else (
        let l = l\<lparr>l_rep3 := l_rep2 l, l_rep2 := l_rep1 l, l_rep1 := l_rep0 l, l_rep0 := distance + 1,
              l_state := (if l_state l < K_NUM_STATES + K_NUM_LIT_STATES then K_NUM_LIT_STATES
                          else K_NUM_LIT_STATES + 3)\<rparr> in
        if (if e_check_dic_size env = 0 then l_processed_pos l else e_check_dic_size env) \<le> distance
        then Some (Outer (l\<lparr>l_len := l_len l + (K_MATCH_SPEC_LEN_ERROR_DATA + K_MATCH_MIN_LEN)\<rparr>))
        else copy_match env l))"

text \<open>From the length to the end of the symbol; \<open>state \<ge> K_NUM_STATES\<close> marks a match with a new
  distance.\<close>

definition decode_match_tail :: "lzenv \<Rightarrow> u32 \<Rightarrow> nat \<Rightarrow> lz \<Rightarrow> flow option" where
  "decode_match_tail env pos_state prob l = do {
     (probs, len, s) \<leftarrow> decode_len (e_inp env) prob pos_state (l_probs l) (l_rc l);
     let l = l\<lparr>l_probs := probs, l_rc := s, l_len := len\<rparr>;
     if K_NUM_STATES \<le> l_state l
     then do {
       (probs, distance, is_end, s) \<leftarrow> decode_distance (e_inp env) len (l_probs l) (l_rc l);
       new_distance env distance is_end (l\<lparr>l_probs := probs, l_rc := s\<rparr>) }
     else copy_match env l }"

definition short_rep :: "lzenv \<Rightarrow> lz \<Rightarrow> flow option" where
  "short_rep env l = do {
     b \<leftarrow> get_at (l_dic l) (dic_back (e_dic_buf_size env) (l_dic_pos l) (l_rep0 l));
     d \<leftarrow> set_at (l_dic l) (l_dic_pos l) b;
     Some (Body (l\<lparr>l_dic := d, l_dic_pos := l_dic_pos l + 1, l_processed_pos := l_processed_pos l + 1,
       l_state := (if l_state l < K_NUM_LIT_STATES then 9 else 11)\<rparr>)) }"

text \<open>After a rep's distance is settled: \<open>state = ..; prob = REP_LEN_CODER\<close>.\<close>

definition rep_tail :: "lzenv \<Rightarrow> u32 \<Rightarrow> lz \<Rightarrow> flow option" where
  "rep_tail env pos_state l = decode_match_tail env pos_state REP_LEN_CODER
     (l\<lparr>l_state := (if l_state l < K_NUM_LIT_STATES then 8 else 11)\<rparr>)"

definition decode_real_body :: "lzenv \<Rightarrow> lz \<Rightarrow> flow option" where
  "decode_real_body env l = (
     let inp = e_inp env;
         pos_state = push_bit 4 (l_processed_pos l AND e_pb_mask env);
         st = l_state l in
     if_bit_0 inp (l_probs l) (IS_MATCH + unat (pos_state + st)) (l_rc l)
       (\<lambda>probs s. decode_literal env (l\<lparr>l_probs := probs, l_rc := s\<rparr>))
       (\<lambda>probs s. if_bit_0 inp probs (IS_REP + unat st) s
         (\<lambda>probs s. decode_match_tail env pos_state LEN_CODER
            (l\<lparr>l_probs := probs, l_rc := s, l_state := st + K_NUM_STATES\<rparr>))
         (\<lambda>probs s. if_bit_0 inp probs (IS_REP_G0 + unat st) s
           (\<lambda>probs s. if_bit_0 inp probs (IS_REP0_LONG + unat (pos_state + st)) s
             (\<lambda>probs s. short_rep env (l\<lparr>l_probs := probs, l_rc := s\<rparr>))
             (\<lambda>probs s. rep_tail env pos_state (l\<lparr>l_probs := probs, l_rc := s\<rparr>)))
           (\<lambda>probs s. if_bit_0 inp probs (IS_REP_G1 + unat st) s
             (\<lambda>probs s. rep_tail env pos_state
                (l\<lparr>l_probs := probs, l_rc := s, l_rep1 := l_rep0 l, l_rep0 := l_rep1 l\<rparr>))
             (\<lambda>probs s. if_bit_0 inp probs (IS_REP_G2 + unat st) s
               (\<lambda>probs s. rep_tail env pos_state
                  (l\<lparr>l_probs := probs, l_rc := s, l_rep2 := l_rep1 l, l_rep1 := l_rep0 l, l_rep0 := l_rep2 l\<rparr>))
               (\<lambda>probs s. rep_tail env pos_state
                  (l\<lparr>l_probs := probs, l_rc := s, l_rep3 := l_rep2 l, l_rep2 := l_rep1 l,
                     l_rep1 := l_rep0 l, l_rep0 := l_rep3 l\<rparr>)))))))"

subsection \<open>The loop and the function\<close>

partial_function (option) decode_real_loop :: "lzenv \<Rightarrow> lz \<Rightarrow> lz option" where
  [code]: "decode_real_loop env l =
     (case decode_real_body env l of
        None \<Rightarrow> None
      | Some (Outer l) \<Rightarrow> Some l
      | Some (Body l) \<Rightarrow>
          if l_dic_pos l < e_limit env \<and> rc_buf (l_rc l) < e_buf_limit env
          then decode_real_loop env l else Some l)"

definition real_env :: "lzma_dec \<Rightarrow> nat \<Rightarrow> bytes \<Rightarrow> nat \<Rightarrow> lzenv" where
  "real_env p limit inp buf_limit =
     \<lparr>e_inp = inp, e_limit = limit, e_buf_limit = buf_limit, e_dic_buf_size = p_dic_buf_size p,
      e_check_dic_size = p_check_dic_size p,
      e_pb_mask = push_bit (unat (pb (p_prop p))) 1 - 1,
      e_lc = unat (lc (p_prop p)),
      e_lp_mask = push_bit (unat (lp (p_prop p))) 0x100 - drop_bit (unat (lc (p_prop p))) 0x100\<rparr>"

definition real_locals :: "lzma_dec \<Rightarrow> nat \<Rightarrow> lz" where
  "real_locals p buf_start = (case p_reps p of (r0, r1, r2, r3) \<Rightarrow>
     \<lparr>l_probs = p_probs p, l_state = p_state p, l_rep0 = r0, l_rep1 = r1, l_rep2 = r2, l_rep3 = r3,
      l_dic = p_dic p, l_dic_pos = p_dic_pos p, l_processed_pos = p_processed_pos p, l_len = 0,
      l_rc = \<lparr>rc_range = p_range p, rc_code = p_code p, rc_buf = buf_start\<rparr>\<rparr>)"

definition real_store :: "lzma_dec \<Rightarrow> lz \<Rightarrow> lzma_dec" where
  "real_store p l = p\<lparr>p_probs := l_probs l, p_dic := l_dic l,
     p_range := rc_range (l_rc l), p_code := rc_code (l_rc l), p_remain_len := l_len l,
     p_dic_pos := l_dic_pos l, p_processed_pos := l_processed_pos l,
     p_reps := (l_rep0 l, l_rep1 l, l_rep2 l, l_rep3 l), p_state := l_state l\<rparr>"

text \<open>\<open>RealResult\<close> is the advanced input position and \<open>ok\<close>.\<close>

definition lzma_dec_decode_real ::
  "lzma_dec \<Rightarrow> nat \<Rightarrow> bytes \<Rightarrow> nat \<Rightarrow> nat \<Rightarrow> (lzma_dec \<times> nat \<times> bool) option" where
  "lzma_dec_decode_real p limit inp buf_start buf_limit = do {
     l \<leftarrow> decode_real_loop (real_env p limit inp buf_limit) (real_locals p buf_start);
     s \<leftarrow> normalize inp (l_rc l);
     let l = l\<lparr>l_rc := s\<rparr>;
     Some (real_store p l, rc_buf s, l_len l < K_MATCH_SPEC_LEN_ERROR_DATA) }"

end
