(* ===== verification/LzmaSymbol.thy ===== *)
theory LzmaSymbol
  imports LzmaDecode
begin

text \<open>
  The decision tree of one LZMA symbol, what a symbol does to the decoder, and the proof that one
  turn of the loop of \<open>decode.rs\<close> is exactly the one followed by the other. The tree stays inside
  the probability table, never meets an index twice and costs at most 22 modelled and 26 direct
  bits.
\<close>

subsection \<open>The tree\<close>

datatype symb =
    SLit u32
  | SShortRep
  | SRep nat u32
  | SMatch u32 u32

record sctx =
  c_state :: u32
  c_pos_state :: u32
  c_lit :: nat
  c_match :: u8

definition lit_prog :: "sctx \<Rightarrow> u32 bitprog" where
  "lit_prog c =
     (if c_state c < K_NUM_LIT_STATES then tree_prog 8 (c_lit c) 1
      else matched_prog 8 (c_lit c) 1 (ucast (c_match c)) 0x100)"

definition len_prog :: "nat \<Rightarrow> u32 \<Rightarrow> u32 bitprog" where
  "len_prog prob ps =
     Bit (prob + LEN_CHOICE) (\<lambda>b. if \<not> b then
       bp_bind (tree_prog 3 (prob + (LEN_LOW + unat ps)) 1) (\<lambda>x. Ret (x - 8))
     else Bit (prob + LEN_CHOICE_2) (\<lambda>b. if \<not> b then
       tree_prog 3 (prob + (LEN_LOW + unat ps + 2 ^ K_LEN_NUM_LOW_BITS)) 1
     else bp_bind (tree_prog K_LEN_NUM_HIGH_BITS (prob + LEN_HIGH) 1) (\<lambda>x. Ret (x - 256 + 16))))"

definition slot_base :: "u32 \<Rightarrow> nat" where
  "slot_base len = POS_SLOT + 64 * min (unat len) 3"

definition dist_tail :: "u32 \<Rightarrow> u32 bitprog" where
  "dist_tail slot =
     (if slot < 4 then Ret slot
      else let n = unat slot div 2 - 1; d = (2 OR (slot AND 1)) in
        if slot < 14
        then bp_bind (rev_prog n (SPEC_POS + unat d * 2 ^ n) 1 1) (\<lambda>(i, m). Ret (push_bit n d + (i - m)))
        else bp_bind (direct_prog (n - 4) d) (\<lambda>d.
          bp_bind (rev_prog 4 ALIGN 1 1) (\<lambda>(i, m). Ret (push_bit 4 d OR (i - m)))))"

definition dist_prog :: "u32 \<Rightarrow> u32 bitprog" where
  "dist_prog len = bp_bind (tree_prog 6 (slot_base len) 1) (\<lambda>x. dist_tail (x - 0x40))"

definition rep_len_prog :: "u32 \<Rightarrow> nat \<Rightarrow> symb bitprog" where
  "rep_len_prog ps k = bp_bind (len_prog REP_LEN_CODER ps) (\<lambda>len. Ret (SRep k len))"

definition symbol_prog :: "sctx \<Rightarrow> symb bitprog" where
  "symbol_prog c = (let ps = c_pos_state c; st = c_state c in
     Bit (IS_MATCH + unat (ps + st)) (\<lambda>b. if \<not> b then bp_bind (lit_prog c) (\<lambda>x. Ret (SLit x))
     else Bit (IS_REP + unat st) (\<lambda>b. if \<not> b then
       bp_bind (len_prog LEN_CODER ps) (\<lambda>len. bp_bind (dist_prog len) (\<lambda>d. Ret (SMatch len d)))
     else Bit (IS_REP_G0 + unat st) (\<lambda>b. if \<not> b then
       Bit (IS_REP0_LONG + unat (ps + st)) (\<lambda>b. if \<not> b then Ret SShortRep else rep_len_prog ps 0)
     else Bit (IS_REP_G1 + unat st) (\<lambda>b. if \<not> b then rep_len_prog ps 1
     else Bit (IS_REP_G2 + unat st) (\<lambda>b. rep_len_prog ps (if b then 3 else 2)))))))"

subsection \<open>What a symbol does\<close>

definition rotate_reps :: "nat \<Rightarrow> lz \<Rightarrow> lz" where
  "rotate_reps k l =
     (if k = 0 then l
      else if k = 1 then l\<lparr>l_rep1 := l_rep0 l, l_rep0 := l_rep1 l\<rparr>
      else if k = 2 then l\<lparr>l_rep2 := l_rep1 l, l_rep1 := l_rep0 l, l_rep0 := l_rep2 l\<rparr>
      else l\<lparr>l_rep3 := l_rep2 l, l_rep2 := l_rep1 l, l_rep1 := l_rep0 l, l_rep0 := l_rep3 l\<rparr>)"

definition lit_state :: "u32 \<Rightarrow> u32" where
  "lit_state st = (if st < 4 then 0 else if st < 10 then st - 3 else st - 6)"

definition push_rep :: "u32 \<Rightarrow> lz \<Rightarrow> lz" where
  "push_rep d l = l\<lparr>l_rep3 := l_rep2 l, l_rep2 := l_rep1 l, l_rep1 := l_rep0 l, l_rep0 := d + 1,
     l_state := (if l_state l < 7 then 7 else 10)\<rparr>"

fun apply_symbol :: "lzenv \<Rightarrow> symb \<Rightarrow> lz \<Rightarrow> flow option" where
  "apply_symbol env (SLit x) l =
     put_literal (l\<lparr>l_processed_pos := l_processed_pos l + 1, l_state := lit_state (l_state l)\<rparr>) x"
| "apply_symbol env SShortRep l = short_rep env l"
| "apply_symbol env (SRep k len) l =
     copy_match env (rotate_reps k l\<lparr>l_state := (if l_state l < 7 then 8 else 11), l_len := len\<rparr>)"
| "apply_symbol env (SMatch len d) l =
     (if d = -1 then Some (Outer (l\<lparr>l_len := K_MATCH_SPEC_LEN_START\<rparr>))
      else if (if e_check_dic_size env = 0 then l_processed_pos l else e_check_dic_size env) \<le> d
      then Some (Outer (push_rep d l\<lparr>l_len := len + (K_MATCH_SPEC_LEN_ERROR_DATA + K_MATCH_MIN_LEN)\<rparr>))
      else copy_match env (push_rep d l\<lparr>l_len := len\<rparr>))"

subsection \<open>Bounds, freshness and cost of the subtrees\<close>

lemma bp_fresh_union: "bp_fresh p V \<Longrightarrow> bp_in R p \<Longrightarrow> R \<inter> V' = {} \<Longrightarrow> bp_fresh p (V \<union> V')"
proof (induction p arbitrary: V)
  case (Bit i k)
  then show ?case using Bit.IH [OF rangeI, of _ "insert i V"] by auto
next
  case (Direct k)
  then show ?case by simp
qed simp

lemma bp_fresh_disjoint: "bp_fresh p {} \<Longrightarrow> bp_in R p \<Longrightarrow> R \<inter> V = {} \<Longrightarrow> bp_fresh p V"
  using bp_fresh_union [of p "{}" R V] by simp

lemma bp_post_True: "bp_post (\<lambda>_. True) p"
  by (induction p) auto

lemma bp_in_UNIV: "bp_in UNIV p"
  by (induction p) auto

lemma tree_prog_range:
  assumes "0 < unat sy" "(unat sy + 1) * 2 ^ n \<le> 2 ^ 31"
  shows "bp_post (\<lambda>x. unat sy * 2 ^ n \<le> unat x \<and> unat x < (unat sy + 1) * 2 ^ n) (tree_prog n base sy) \<and>
    bp_in {base + unat sy..<base + (unat sy + 1) * 2 ^ n div 2} (tree_prog n base sy) \<and>
    bp_fresh (tree_prog n base sy) {..<base + unat sy} \<and> bp_cost (tree_prog n base sy) n 0"
  using assms
proof (induction n arbitrary: sy)
  case 0
  then show ?case by simp
next
  case (Suc n)
  define u where "u = unat sy"
  define q where "q = (2::nat) ^ n"
  have q: "1 \<le> q" by (simp add: q_def)
  have b2: "(2 * u + 2) * q \<le> 2 ^ 31" using Suc.prems(2) by (simp add: u_def q_def algebra_simps)
  have le: "2 * u + 2 \<le> (2 * u + 2) * q" using mult_le_mono2 [OF q, of "2 * u + 2"] by (simp only: mult_1_right)
  have u31: "unat sy < 2 ^ 31" using b2 le by (simp add: u_def)
  have u0: "0 < u" using Suc.prems(1) by (simp add: u_def)
  have IH: "bp_post (\<lambda>x. u * (2 * q) \<le> unat x \<and> unat x < (u + 1) * (2 * q)) (tree_prog n base (sy + sy + of_bool b)) \<and>
    bp_in {base + u..<base + (u + 1) * q} (tree_prog n base (sy + sy + of_bool b)) \<and>
    bp_fresh (tree_prog n base (sy + sy + of_bool b)) {..base + u} \<and>
    bp_cost (tree_prog n base (sy + sy + of_bool b)) n 0" for b
  proof -
    have sy: "unat (sy + sy + of_bool b) = 2 * u + of_bool b" using unat_double(1) [OF u31] by (simp add: u_def)
    have lo: "u * (2 * q) \<le> (2 * u + of_bool b) * q" by simp
    have hi: "(2 * u + of_bool b + 1) * q \<le> (u + 1) * (2 * q)" by (simp add: algebra_simps)
    have "(2 * u + of_bool b + 1) * q \<le> 2 ^ 31" using hi b2 by (simp add: algebra_simps)
    then have IH: "bp_post (\<lambda>x. (2 * u + of_bool b) * q \<le> unat x \<and> unat x < (2 * u + of_bool b + 1) * q) (tree_prog n base (sy + sy + of_bool b)) \<and>
      bp_in {base + (2 * u + of_bool b)..<base + (2 * u + of_bool b + 1) * q div 2} (tree_prog n base (sy + sy + of_bool b)) \<and>
      bp_fresh (tree_prog n base (sy + sy + of_bool b)) {..<base + (2 * u + of_bool b)} \<and>
      bp_cost (tree_prog n base (sy + sy + of_bool b)) n 0"
      using Suc.IH [of "sy + sy + of_bool b"] u0 unfolding sy q_def by simp
    have "(2 * u + of_bool b + 1) * q div 2 \<le> (u + 1) * q" using hi by simp
    then have sub: "{base + (2 * u + of_bool b)..<base + (2 * u + of_bool b + 1) * q div 2} \<subseteq> {base + u..<base + (u + 1) * q}"
      by auto
    show ?thesis
      using IH lo hi u0 bp_in_mono [OF conjunct1 [OF conjunct2 [OF IH]] sub]
      by (auto elim!: bp_post_mono elim!: bp_fresh_mono)
  qed
  have ins: "insert (base + u) {..<base + u} = {..base + u}" by auto
  have top: "u < (u + 1) * q" using le by simp
  show ?case
    using IH [of False] IH [of True] top
    by (simp add: u_def [symmetric] q_def [symmetric] ins)
qed

lemmas tree_prog_post = tree_prog_range [THEN conjunct1]
lemmas tree_prog_in = tree_prog_range [THEN conjunct2, THEN conjunct1]
lemmas tree_prog_cost = tree_prog_range [THEN conjunct2, THEN conjunct2, THEN conjunct2]

lemma tree_prog_fresh: "n \<le> 30 \<Longrightarrow> bp_fresh (tree_prog n base 1) {}"
proof -
  assume "n \<le> 30"
  then have "(2::nat) ^ n \<le> 2 ^ 30" by (intro power_increasing) auto
  then show ?thesis
    using tree_prog_range [of 1 n base] by (auto elim!: bp_fresh_mono)
qed


lemma and_exp_cases: "w AND 2 ^ n = (if bit w n then 2 ^ n else (0::'a::len word))"
  by (rule bit_word_eqI) (auto simp: bit_and_iff bit_exp_iff)

lemma and_0x100: "0x100 AND w = (if bit w 8 then 0x100 else (0::u32))"
  using and_exp_cases [of w 8] by (simp only: and.commute [of _ w]) simp

lemma matched_prog_range:
  assumes "offs = 0 \<or> offs = 0x100" "0 < unat sy" "(unat sy + 1) * 2 ^ n \<le> 512"
  shows "bp_post (\<lambda>x. unat sy * 2 ^ n \<le> unat x \<and> unat x < (unat sy + 1) * 2 ^ n) (matched_prog n base sy mb offs) \<and>
    bp_in {base..<base + 0x300} (matched_prog n base sy mb offs) \<and>
    bp_fresh (matched_prog n base sy mb offs) {v. v < base \<or> (v - base) mod 256 < unat sy} \<and>
    bp_cost (matched_prog n base sy mb offs) n 0"
  using assms
proof (induction n arbitrary: sy mb offs)
  case 0
  then show ?case by simp
next
  case (Suc n)
  define u where "u = unat sy"
  define q where "q = (2::nat) ^ n"
  have q: "1 \<le> q" by (simp add: q_def)
  have b2: "(2 * u + 2) * q \<le> 512" using Suc.prems(3) by (simp add: u_def q_def algebra_simps)
  have le: "2 * u + 2 \<le> (2 * u + 2) * q" using mult_le_mono2 [OF q, of "2 * u + 2"] by (simp only: mult_1_right)
  have u: "u < 256" "0 < u" using b2 le Suc.prems(2) by (simp_all add: u_def)
  define o1 where "o1 = offs AND (mb + mb)"
  have o1: "o1 = 0 \<or> o1 = 0x100" "offs = 0 \<longrightarrow> o1 = 0"
    using Suc.prems(1) by (auto simp: o1_def and_0x100)
  define j where "j = unat (o1 + offs + sy)"
  have j: "j < 0x300" "j mod 256 = u"
  proof -
    have "j = unat o1 + unat offs + u"
      using o1 Suc.prems(1) u by (auto simp: j_def u_def unat_word_ariths)
    then show "j < 0x300" "j mod 256 = u"
      using o1 Suc.prems(1) u mod_mult_self3 [of 2 256 u] by auto
  qed
  have IH: "bp_post (\<lambda>x. u * (2 * q) \<le> unat x \<and> unat x < (u + 1) * (2 * q)) (matched_prog n base (sy + sy + of_bool b) mb' offs') \<and>
    bp_in {base..<base + 0x300} (matched_prog n base (sy + sy + of_bool b) mb' offs') \<and>
    bp_fresh (matched_prog n base (sy + sy + of_bool b) mb' offs') (insert (base + j) {v. v < base \<or> (v - base) mod 256 < u}) \<and>
    bp_cost (matched_prog n base (sy + sy + of_bool b) mb' offs') n 0"
    if "offs' = 0 \<or> offs' = 0x100" for b mb' offs'
  proof -
    have sy: "unat (sy + sy + of_bool b) = 2 * u + of_bool b" using unat_double(1) [of sy b] u by (simp add: u_def)
    have lo: "u * (2 * q) \<le> (2 * u + of_bool b) * q" by simp
    have hi: "(2 * u + of_bool b + 1) * q \<le> (u + 1) * (2 * q)" by (simp add: algebra_simps)
    have "(2 * u + of_bool b + 1) * q \<le> 512" using hi b2 by (simp add: algebra_simps)
    then have IH: "bp_post (\<lambda>x. (2 * u + of_bool b) * q \<le> unat x \<and> unat x < (2 * u + of_bool b + 1) * q) (matched_prog n base (sy + sy + of_bool b) mb' offs') \<and>
      bp_in {base..<base + 0x300} (matched_prog n base (sy + sy + of_bool b) mb' offs') \<and>
      bp_fresh (matched_prog n base (sy + sy + of_bool b) mb' offs') {v. v < base \<or> (v - base) mod 256 < 2 * u + of_bool b} \<and>
      bp_cost (matched_prog n base (sy + sy + of_bool b) mb' offs') n 0"
      using Suc.IH [OF that, of "sy + sy + of_bool b"] u unfolding sy q_def by simp
    have "insert (base + j) {v. v < base \<or> (v - base) mod 256 < u} \<subseteq> {v. v < base \<or> (v - base) mod 256 < 2 * u + of_bool b}"
      using j u by auto
    then show ?thesis
      using IH lo hi by (auto elim!: bp_post_mono elim!: bp_fresh_mono)
  qed
  have o2: "(o1 XOR offs) = 0 \<or> (o1 XOR offs) = 0x100" using Suc.prems(1) o1 by auto
  have nin: "base + j \<notin> {v. v < base \<or> (v - base) mod 256 < u}" using j by simp
  show ?case
    using IH [OF o1(1), of True] IH [OF o2, of False] j nin
    unfolding matched_prog.simps u_def [symmetric] o1_def [symmetric] j_def [symmetric]
    by (simp add: q_def [symmetric])
qed

lemma rev_prog_range:
  assumes "unat m = 2 ^ k" "2 ^ k \<le> unat i" "unat i < 2 * 2 ^ k" "k + n \<le> 30"
  shows "bp_post (\<lambda>(i', m'). unat m' = 2 ^ (k + n) \<and> 2 ^ (k + n) \<le> unat i' \<and> unat i' < 2 * 2 ^ (k + n)) (rev_prog n base i m) \<and>
    bp_in {base + unat i..<base + 2 ^ (k + n)} (rev_prog n base i m) \<and>
    bp_fresh (rev_prog n base i m) {..<base + unat i} \<and> bp_cost (rev_prog n base i m) n 0"
  using assms
proof (induction n arbitrary: i m k)
  case 0
  then show ?case by simp
next
  case (Suc n)
  define q where "q = (2::nat) ^ k"
  have q: "q \<le> 2 ^ 29" "1 \<le> q" unfolding q_def using Suc.prems(4) by (intro power_increasing; simp)+ simp
  have m: "unat (m + m) = 2 ^ Suc k" using Suc.prems(1) q by (simp add: unat_word_ariths q_def)
  have top: "(2::nat) * q \<le> 2 ^ (k + Suc n)" by (simp add: q_def power_add)
  have IH: "bp_post (\<lambda>(i', m'). unat m' = 2 ^ (k + Suc n) \<and> 2 ^ (k + Suc n) \<le> unat i' \<and> unat i' < 2 * 2 ^ (k + Suc n)) (rev_prog n base i' (m + m)) \<and>
    bp_in {base + unat i..<base + 2 ^ (k + Suc n)} (rev_prog n base i' (m + m)) \<and>
    bp_fresh (rev_prog n base i' (m + m)) {..base + unat i} \<and> bp_cost (rev_prog n base i' (m + m)) n 0"
    if i': "unat i' = unat i + q \<or> unat i' = unat i + 2 * q" for i'
  proof -
    have "2 ^ Suc k \<le> unat i'" "unat i' < 2 * 2 ^ Suc k" using i' Suc.prems(2,3) by (auto simp: q_def)
    note IH = Suc.IH [OF m this]
    have "{base + unat i'..<base + 2 ^ (Suc k + n)} \<subseteq> {base + unat i..<base + 2 ^ (k + Suc n)}" using i' by auto
    then have "bp_in {base + unat i..<base + 2 ^ (k + Suc n)} (rev_prog n base i' (m + m))"
      using IH Suc.prems(4) by (elim bp_in_mono [rotated]) simp
    then show ?thesis using IH i' q Suc.prems(4) by (auto elim!: bp_fresh_mono)
  qed
  have i1: "unat (i + (m + (if b then m else 0))) = unat i + (if b then 2 * q else q)" for b
    using Suc.prems(1,3) q by (auto simp: unat_word_ariths q_def)
  have ins: "insert (base + unat i) {..<base + unat i} = {..base + unat i}" by auto
  have "unat i < 2 ^ (k + Suc n)" using top Suc.prems(3) unfolding q_def by (rule less_le_trans [rotated])
  then show ?case
    using IH [of "i + (m + (if False then m else 0))"] IH [of "i + (m + (if True then m else 0))"] i1 [of False] i1 [of True]
    by (simp add: ins)
qed

lemma direct_prog_range:
  "bp_post (\<lambda>_. True) (direct_prog n x)" "bp_in R (direct_prog n x)" "bp_fresh (direct_prog n x) V"
  "bp_cost (direct_prog n x) 0 n"
  by (induction n arbitrary: x) simp_all


definition ctx_ok :: "nat \<Rightarrow> sctx \<Rightarrow> bool" where
  "ctx_ok n c \<longleftrightarrow> unat (c_state c) < 12 \<and> (\<exists>k < 16. unat (c_pos_state c) = 16 * k) \<and>
     LITERAL \<le> c_lit c \<and> c_lit c + 0x300 \<le> n"

lemma lit_prog_range:
  "bp_post (\<lambda>x. 0x100 \<le> unat x \<and> unat x < 0x200) (lit_prog c)"
  "bp_in {c_lit c..<c_lit c + 0x300} (lit_prog c)" "bp_fresh (lit_prog c) {}" "bp_cost (lit_prog c) 8 0"
proof -
  have in1: "bp_in {c_lit c + 1..<c_lit c + 256} (tree_prog 8 (c_lit c) 1)"
    using tree_prog_in [of 1 8 "c_lit c"] by simp
  show "bp_post (\<lambda>x. 0x100 \<le> unat x \<and> unat x < 0x200) (lit_prog c)" 
    using tree_prog_post [of 1 8 "c_lit c"] matched_prog_range [of "0x100" 1 8 "c_lit c" "ucast (c_match c)"]
    by (simp add: lit_prog_def)
  show "bp_in {c_lit c..<c_lit c + 0x300} (lit_prog c)" 
    using in1 matched_prog_range [of "0x100" 1 8 "c_lit c" "ucast (c_match c)"]
    by (auto simp: lit_prog_def elim!: bp_in_mono)
  show "bp_fresh (lit_prog c) {}" "bp_cost (lit_prog c) 8 0"
    using tree_prog_cost [of 1 8 "c_lit c"] tree_prog_fresh [of 8 "c_lit c"]
      matched_prog_range [of "0x100" 1 8 "c_lit c" "ucast (c_match c)"]
    by (auto simp: lit_prog_def elim!: bp_fresh_mono)
qed

lemma len_prog_range:
  assumes "\<exists>k < 16. unat ps = 16 * k"
  shows "bp_post (\<lambda>x. unat x < 272) (len_prog prob ps)" "bp_in {prob..<prob + 512} (len_prog prob ps)"
    and "bp_fresh (len_prog prob ps) {}" "bp_cost (len_prog prob ps) 10 0"
proof -
  obtain k where k: "k < 16" "unat ps = 16 * k" using assms by blast
  let ?low = "tree_prog 3 (prob + (LEN_LOW + unat ps)) 1"
  let ?mid = "tree_prog 3 (prob + (LEN_LOW + unat ps + 8)) 1"
  let ?hi = "tree_prog 8 (prob + LEN_HIGH) 1"
  have post: "bp_post (\<lambda>x. 8 \<le> unat x \<and> unat x < 16) ?low" "bp_post (\<lambda>x. 8 \<le> unat x \<and> unat x < 16) ?mid"
    "bp_post (\<lambda>x. 256 \<le> unat x \<and> unat x < 512) ?hi"
    using tree_prog_post [of 1 3] tree_prog_post [of 1 8] by simp_all
  have ins: "bp_in {prob + (LEN_LOW + unat ps) + 1..<prob + (LEN_LOW + unat ps) + 8} ?low"
    "bp_in {prob + (LEN_LOW + unat ps + 8) + 1..<prob + (LEN_LOW + unat ps + 8) + 8} ?mid"
    "bp_in {prob + LEN_HIGH + 1..<prob + LEN_HIGH + 256} ?hi"
    using tree_prog_in [of 1 3 "prob + (LEN_LOW + unat ps)"] tree_prog_in [of 1 3 "prob + (LEN_LOW + unat ps + 8)"]
      tree_prog_in [of 1 8 "prob + LEN_HIGH"] by simp_all
  show "bp_post (\<lambda>x. unat x < 272) (len_prog prob ps)"
  proof -
    have "bp_post (\<lambda>x. unat x < 272) (bp_bind ?low (\<lambda>x. Ret (x - 8)))"
      by (rule bp_post_bind [OF post(1)]) (auto simp add: unat_sub word_le_nat_alt)
    moreover have "bp_post (\<lambda>x. unat x < 272) (bp_bind ?hi (\<lambda>x. Ret (x - 256 + 16)))"
      by (rule bp_post_bind [OF post(3)]) (auto simp add: unat_sub word_le_nat_alt)
    moreover have "bp_post (\<lambda>x. unat x < 272) ?mid" using post(2) by (rule bp_post_mono) simp
    ultimately show ?thesis by (simp add: len_prog_def lz_consts)
  qed
  show "bp_in {prob..<prob + 512} (len_prog prob ps)"
    using ins k by (auto simp: len_prog_def lz_consts intro!: bp_in_bind [OF bp_post_True] elim!: bp_in_mono)
  have fr: "bp_fresh ?low {prob}" "bp_fresh ?mid {prob, prob + 8}" "bp_fresh ?hi {prob, prob + 8}"
    by (rule bp_fresh_disjoint [OF tree_prog_fresh ins(1)] bp_fresh_disjoint [OF tree_prog_fresh ins(2)]
        bp_fresh_disjoint [OF tree_prog_fresh ins(3)]; use k in \<open>auto simp: lz_consts\<close>)+
  show "bp_fresh (len_prog prob ps) {}"
    using fr by (auto simp: len_prog_def lz_consts insert_commute intro!: bp_fresh_bind [OF bp_post_True bp_in_UNIV])
  show "bp_cost (len_prog prob ps) 10 0"
  proof -
    have c: "bp_cost (tree_prog 3 base 1) 9 0" "bp_cost (tree_prog 3 base 1) 8 0" "bp_cost (tree_prog 8 base 1) 8 0" for base
      using tree_prog_cost [of 1 3 base] tree_prog_cost [of 1 8 base] by (auto elim: bp_cost_mono)
    then show ?thesis
      by (auto simp: len_prog_def lz_consts intro!: bp_cost_bind [OF bp_post_True, where a' = 0 and d' = 0, simplified])
  qed
qed

lemma bp_cost_trade: "bp_cost p (Suc a) d \<Longrightarrow> bp_cost p a (d + 7)"
proof (induction p arbitrary: a d)
  case (Bit i k)
  note IH = Bit.IH [OF rangeI]
  from Bit.prems consider
      "\<And>b. bp_cost (k b) a d" | "7 \<le> d" "\<And>b. bp_cost (k b) (Suc a) (d - 7)"
    by (metis (full_types) bp_cost.simps(2) diff_Suc_1)
  then show ?case
  proof cases
    case 1
    then show ?thesis by simp
  next
    case 2
    then show ?thesis using IH [of _ a "d - 7"] by simp
  qed
next
  case (Direct k)
  then show ?case using Direct.IH [OF rangeI, of _ a "d - 1"] by simp
qed simp

lemma near_tail_range:
  fixes slot :: u32
  assumes "4 \<le> unat slot" "unat slot < 14"
  defines "n \<equiv> unat slot div 2 - 1" and "d \<equiv> 2 OR (slot AND 1)"
  shows "unat d * 2 ^ n + 2 ^ n \<le> 128" "0 < n" "n \<le> 5" "unat d = 2 + unat slot mod 2"
    "unat (push_bit n d) = unat d * 2 ^ n"
proof -
  have "slot AND 1 = of_bool (odd slot)" by (simp add: and_one_eq mod_2_eq_odd)
  moreover have "odd (unat slot) \<longleftrightarrow> odd slot" using bit_unat [of slot 0] by (simp only: bit_0)
  ultimately show d: "unat d = 2 + unat slot mod 2"
    by (cases "odd slot") (auto simp: d_def odd_iff_mod_2_eq_one)
  have n: "n = 1 \<or> n = 2 \<or> n = 3 \<or> n = 4 \<or> n = 5" using assms(1,2) unfolding n_def by linarith
  then show "0 < n" "n \<le> 5" by auto
  show le: "unat d * 2 ^ n + 2 ^ n \<le> 128" using n d by auto
  then show "unat (push_bit n d) = unat d * 2 ^ n" by (intro unat_push_bit) simp
qed

lemma dist_tail_near:
  assumes "4 \<le> unat slot" "unat slot < 14"
  shows "bp_in {0..<128} (dist_tail slot)" "bp_fresh (dist_tail slot) {}"
    and "bp_cost (dist_tail slot) 4 26" "bp_post (\<lambda>d. unat d < 128) (dist_tail slot)"
proof -
  define n where "n = unat slot div 2 - 1"
  define d where "d = (2::u32) OR (slot AND 1)"
  note nd = near_tail_range [OF assms, folded n_def d_def]
  let ?p = "rev_prog n (SPEC_POS + unat d * 2 ^ n) 1 1"
  have eq: "dist_tail slot = bp_bind ?p (\<lambda>(i, m). Ret (push_bit n d + (i - m)))"
    using assms by (simp add: dist_tail_def Let_def n_def d_def word_less_nat_alt)
  have r: "bp_post (\<lambda>(i', m'). unat m' = 2 ^ n \<and> 2 ^ n \<le> unat i' \<and> unat i' < 2 * 2 ^ n) ?p"
    "bp_in {SPEC_POS + unat d * 2 ^ n + 1..<SPEC_POS + unat d * 2 ^ n + 2 ^ n} ?p"
    "bp_fresh ?p {}" "bp_cost ?p n 0"
    using rev_prog_range [of 1 0 1 n "SPEC_POS + unat d * 2 ^ n"] nd(3) by (auto elim!: bp_fresh_mono)
  show "bp_in {0..<128} (dist_tail slot)" unfolding eq
    by (rule bp_in_bind [OF bp_post_True bp_in_mono [OF r(2)]]) (use nd(1) in \<open>auto simp: lz_consts\<close>)
  show "bp_fresh (dist_tail slot) {}" unfolding eq
    by (rule bp_fresh_bind [OF bp_post_True bp_in_UNIV r(3)]) auto
  have "bp_cost ?p 5 0" using r(4) nd(3) by (rule bp_cost_mono) simp
  then have "bp_cost ?p 4 7" using bp_cost_trade [of ?p 4 0] by simp
  then have "bp_cost (dist_tail slot) (4 + 0) (7 + 0)" unfolding eq
    by (rule bp_cost_bind [OF bp_post_True]) auto
  then show "bp_cost (dist_tail slot) 4 26" by (rule bp_cost_mono) simp_all
  show "bp_post (\<lambda>d. unat d < 128) (dist_tail slot)" unfolding eq
  proof (rule bp_post_bind [OF r(1)])
    fix x :: "u32 \<times> u32" assume "case x of (i', m') \<Rightarrow> unat m' = 2 ^ n \<and> 2 ^ n \<le> unat i' \<and> unat i' < 2 * 2 ^ n"
    then obtain i m where x: "x = (i, m)" "unat m = 2 ^ n" "2 ^ n \<le> unat i" "unat i < 2 * 2 ^ n" by (cases x) auto
    then have "unat (i - m) = unat i - 2 ^ n" by (simp add: unat_sub word_le_nat_alt)
    then have "unat (push_bit n d + (i - m)) < 128" using x nd(1,5) by (simp add: unat_word_ariths)
    then show "bp_post (\<lambda>d. unat d < 128) (case x of (i, m) \<Rightarrow> Ret (push_bit n d + (i - m)))" using x by simp
  qed
qed

lemma dist_tail_far:
  assumes "14 \<le> unat slot" "unat slot < 64"
  shows "bp_in {ALIGN..<ALIGN + 16} (dist_tail slot)" "bp_fresh (dist_tail slot) {}"
    and "bp_cost (dist_tail slot) 4 26"
proof -
  define n where "n = unat slot div 2 - 1"
  define d where "d = (2::u32) OR (slot AND 1)"
  let ?a = "rev_prog 4 ALIGN 1 1"
  let ?f = "\<lambda>d. bp_bind ?a (\<lambda>(i, m). Ret (push_bit 4 d OR (i - m)))"
  have eq: "dist_tail slot = bp_bind (direct_prog (n - 4) d) ?f"
    using assms by (simp add: dist_tail_def Let_def n_def d_def word_less_nat_alt)
  have n: "n - 4 \<le> 26" using assms by (simp add: n_def)
  have a: "bp_in {ALIGN + 1..<ALIGN + 16} ?a" "bp_fresh ?a {}" "bp_cost ?a 4 0"
    using rev_prog_range [of 1 0 1 4 ALIGN] by (auto elim!: bp_fresh_mono)
  have f: "bp_in {ALIGN..<ALIGN + 16} (?f d')" "bp_fresh (?f d') {}" "bp_cost (?f d') (4 + 0) (0 + 0)" for d'
    by (rule bp_in_bind [OF bp_post_True bp_in_mono [OF a(1)]] bp_fresh_bind [OF bp_post_True bp_in_UNIV a(2)]
        bp_cost_bind [OF bp_post_True a(3)]; auto)+
  show "bp_in {ALIGN..<ALIGN + 16} (dist_tail slot)" unfolding eq
    by (rule bp_in_bind [OF direct_prog_range(1,2)]) (rule f)
  show "bp_fresh (dist_tail slot) {}" unfolding eq
    by (rule bp_fresh_bind [OF direct_prog_range(1) direct_prog_range(2) [of "{}"] direct_prog_range(3)])
      (use f(2) in simp)
  have "bp_cost (dist_tail slot) (0 + 4) ((n - 4) + 0)" unfolding eq
    by (rule bp_cost_bind [OF direct_prog_range(1,4)]) (use f(3) in simp)
  then show "bp_cost (dist_tail slot) 4 26" by (rule bp_cost_mono) (use n in simp_all)
qed

lemma dist_tail_range:
  assumes "unat slot < 64"
  shows "bp_in ({0..<128} \<union> {ALIGN..<ALIGN + 16}) (dist_tail slot)" "bp_fresh (dist_tail slot) {}"
    and "bp_cost (dist_tail slot) 4 26"
proof -
  consider "unat slot < 4" | "4 \<le> unat slot" "unat slot < 14" | "14 \<le> unat slot" by linarith
  then have "bp_in ({0..<128} \<union> {ALIGN..<ALIGN + 16}) (dist_tail slot) \<and> bp_fresh (dist_tail slot) {} \<and>
    bp_cost (dist_tail slot) 4 26"
  proof cases
    case 1
    then show ?thesis by (simp add: dist_tail_def word_less_nat_alt)
  next
    case 2
    then show ?thesis using dist_tail_near [OF 2] by (auto elim!: bp_in_mono)
  next
    case 3
    then show ?thesis using dist_tail_far [OF 3 assms] by (auto elim!: bp_in_mono)
  qed
  then show "bp_in ({0..<128} \<union> {ALIGN..<ALIGN + 16}) (dist_tail slot)" "bp_fresh (dist_tail slot) {}"
    "bp_cost (dist_tail slot) 4 26" by auto
qed

lemma dist_prog_range:
  "bp_in ({0..<128} \<union> {ALIGN..<ALIGN + 16} \<union> {POS_SLOT..<POS_SLOT + 256}) (dist_prog len)"
  "bp_fresh (dist_prog len) {}" "bp_cost (dist_prog len) 10 26"
proof -
  have base: "POS_SLOT \<le> slot_base len" "slot_base len + 64 \<le> POS_SLOT + 256" by (auto simp: slot_base_def)
  have ins: "bp_in {slot_base len + 1..<slot_base len + 64} (tree_prog 6 (slot_base len) 1)"
    using tree_prog_in [of 1 6 "slot_base len"] by simp
  have post: "bp_post (\<lambda>x. 64 \<le> unat x \<and> unat x < 128) (tree_prog 6 (slot_base len) 1)"
    using tree_prog_post [of 1 6] by simp
  have slot: "unat (x - 0x40) < 64" if "64 \<le> unat x \<and> unat x < 128" for x :: u32
    using that by (auto simp add: unat_sub word_le_nat_alt)
  show "bp_in ({0..<128} \<union> {ALIGN..<ALIGN + 16} \<union> {POS_SLOT..<POS_SLOT + 256}) (dist_prog len)"
    unfolding dist_prog_def
    by (rule bp_in_bind [OF post bp_in_mono [OF ins]])
      (use base in auto, rule bp_in_mono [OF dist_tail_range(1) [OF slot]], auto)
  have "bp_fresh (dist_tail (x - 0x40)) ({} \<union> {slot_base len + 1..<slot_base len + 64})"
    if "64 \<le> unat x \<and> unat x < 128" for x
    by (rule bp_fresh_disjoint [OF dist_tail_range(2,1) [OF slot [OF that]]]) (use base in \<open>auto simp: lz_consts\<close>)
  then show "bp_fresh (dist_prog len) {}"
    unfolding dist_prog_def using tree_prog_fresh [of 6] by (intro bp_fresh_bind [OF post ins]) auto
  have "bp_cost (dist_prog len) (6 + 4) (0 + 26)"
    unfolding dist_prog_def
    by (rule bp_cost_bind [OF post]) (use tree_prog_cost [of 1 6] dist_tail_range(3) [OF slot] in auto)
  then show "bp_cost (dist_prog len) 10 26" by simp
qed

lemma match_prog_range:
  assumes "\<exists>k < 16. unat ps = 16 * k"
  defines "p \<equiv> bp_bind (len_prog LEN_CODER ps) (\<lambda>len. bp_bind (dist_prog len) (\<lambda>d. Ret (SMatch len d)))"
  shows "bp_in ({0..<128} \<union> {ALIGN..<ALIGN + 16} \<union> {POS_SLOT..<POS_SLOT + 256} \<union> {LEN_CODER..<LEN_CODER + 512}) p"
    and "bp_fresh p {}" "bp_cost p 20 26"
proof -
  let ?R = "{0..<128} \<union> {ALIGN..<ALIGN + 16} \<union> {POS_SLOT..<POS_SLOT + 256}"
  let ?d = "\<lambda>len. bp_bind (dist_prog len) (\<lambda>d. Ret (SMatch len d))"
  note l = len_prog_range [OF assms(1), of LEN_CODER]
  have d: "bp_in ?R (?d len)" "bp_fresh (?d len) {}" "bp_cost (?d len) (10 + 0) (26 + 0)" for len
    by (rule bp_in_bind [OF bp_post_True dist_prog_range(1)] bp_fresh_bind [OF bp_post_True bp_in_UNIV dist_prog_range(2)]
        bp_cost_bind [OF bp_post_True dist_prog_range(3)]; simp)+
  show "bp_in (?R \<union> {LEN_CODER..<LEN_CODER + 512}) p" unfolding p_def
    by (rule bp_in_bind [OF bp_post_True bp_in_mono [OF l(2)]], simp, rule bp_in_mono [OF d(1)], auto)
  show "bp_fresh p {}" unfolding p_def
    by (rule bp_fresh_bind [OF bp_post_True l(2,3)], rule bp_fresh_disjoint [OF d(2,1)]) (auto simp: lz_consts)
  have "bp_cost p (10 + 10) (0 + 26)" unfolding p_def
    by (rule bp_cost_bind [OF bp_post_True l(4)]) (use d(3) in simp)
  then show "bp_cost p 20 26" by simp
qed

lemma rep_len_prog_range:
  assumes "\<exists>k < 16. unat ps = 16 * k"
  shows "bp_in {REP_LEN_CODER..<REP_LEN_CODER + 512} (rep_len_prog ps k)" "bp_fresh (rep_len_prog ps k) {}"
    and "bp_cost (rep_len_prog ps k) 10 0"
proof -
  note l = len_prog_range [OF assms(1), of REP_LEN_CODER]
  show "bp_in {REP_LEN_CODER..<REP_LEN_CODER + 512} (rep_len_prog ps k)" "bp_fresh (rep_len_prog ps k) {}"
    unfolding rep_len_prog_def
    by (rule bp_in_bind [OF bp_post_True l(2)] bp_fresh_bind [OF bp_post_True bp_in_UNIV l(3)]; simp)+
  have "bp_cost (rep_len_prog ps k) (10 + 0) (0 + 0)" unfolding rep_len_prog_def
    by (rule bp_cost_bind [OF bp_post_True l(4)]) simp
  then show "bp_cost (rep_len_prog ps k) 10 0" by simp
qed

lemma symbol_prog_range:
  assumes "ctx_ok n c"
  shows "bp_in {..<n} (symbol_prog c)" "bp_fresh (symbol_prog c) {}" "bp_cost (symbol_prog c) 22 26"
proof -
  obtain k where k: "k < 16" "unat (c_pos_state c) = 16 * k" and ps: "\<exists>k < 16. unat (c_pos_state c) = 16 * k"
    and st: "unat (c_state c) < 12" and lit: "LITERAL \<le> c_lit c" "c_lit c + 0x300 \<le> n"
    using assms by (auto simp: ctx_ok_def)
  have pst: "unat (c_pos_state c + c_state c) = 16 * k + unat (c_state c)"
    using k st by (simp add: unat_word_ariths)
  let ?l = "bp_bind (lit_prog c) (\<lambda>x. Ret (SLit x))"
  have l: "bp_in {c_lit c..<c_lit c + 0x300} ?l" "bp_fresh ?l {}" "bp_cost ?l (8 + 0) (0 + 0)"
    by (rule bp_in_bind [OF bp_post_True lit_prog_range(2)] bp_fresh_bind [OF bp_post_True bp_in_UNIV lit_prog_range(3)]
        bp_cost_bind [OF bp_post_True lit_prog_range(4)]; simp)+
  note m = match_prog_range [OF ps] and r = rep_len_prog_range [OF ps]
  have sub: "bp_in {..<n} ?l" 
    "bp_in {..<n} (bp_bind (len_prog LEN_CODER (c_pos_state c)) (\<lambda>len. bp_bind (dist_prog len) (\<lambda>d. Ret (SMatch len d))))"
    "bp_in {..<n} (rep_len_prog (c_pos_state c) j)" for j
    by (rule bp_in_mono [OF l(1)] bp_in_mono [OF m(1)] bp_in_mono [OF r(1)]; use lit in \<open>auto simp: lz_consts\<close>)+
  show "bp_in {..<n} (symbol_prog c)"
    using sub lit k st pst by (simp add: symbol_prog_def Let_def lz_consts)
  have fr: "bp_fresh ?l V" if "\<forall>v \<in> V. v < LITERAL" for V
    by (rule bp_fresh_disjoint [OF l(2,1)]) (use that lit in auto)
  have fm: "bp_fresh (bp_bind (len_prog LEN_CODER (c_pos_state c)) (\<lambda>len. bp_bind (dist_prog len) (\<lambda>d. Ret (SMatch len d)))) V"
    if "\<forall>v \<in> V. IS_MATCH \<le> v \<and> v < ALIGN \<or> IS_REP \<le> v \<and> v < POS_SLOT" for V
    by (rule bp_fresh_disjoint [OF m(2,1)]) (use that in \<open>auto simp: lz_consts\<close>)
  have frr: "bp_fresh (rep_len_prog (c_pos_state c) j) V" if "\<forall>v \<in> V. v < REP_LEN_CODER \<or> LEN_CODER \<le> v" for V j
    by (rule bp_fresh_disjoint [OF r(2,1)]) (use that in \<open>auto simp: lz_consts\<close>)
  show "bp_fresh (symbol_prog c) {}"
    using k st pst unfolding symbol_prog_def Let_def
    by (auto intro!: fr fm frr) (auto simp: lz_consts)
  show "bp_cost (symbol_prog c) 22 26"
    using m(3) bp_cost_mono [OF r(3)] bp_cost_mono [OF l(3)] by (simp add: symbol_prog_def Let_def)
qed

subsection \<open>The source's code runs the tree\<close>

lemma bp_run_probs:
  "bp_run inp p probs s = Some (x, probs', s') \<Longrightarrow> probs_ok probs \<Longrightarrow>
    probs_ok probs' \<and> length probs' = length probs"
proof (induction p arbitrary: probs s)
  case (Bit i k)
  then obtain b probs1 s1 where 1: "dec_bit inp probs i s = Some (b, probs1, s1)"
    and 2: "bp_run inp (k b) probs1 s1 = Some (x, probs', s')"
    by (auto split: option.splits)
  then show ?case using Bit.IH [OF rangeI 2] dec_bit_probs [OF 1 Bit.prems(2)] by simp
next
  case (Direct k)
  then show ?case using Direct.IH [OF rangeI] by (auto split: option.splits)
qed simp

lemma bp_run_post: "bp_run inp p probs s = Some (x, probs', s') \<Longrightarrow> bp_post P p \<Longrightarrow> P x"
proof (induction p arbitrary: probs s)
  case (Bit i k)
  then obtain b probs1 s1 where "bp_run inp (k b) probs1 s1 = Some (x, probs', s')"
    by (auto split: option.splits)
  then show ?case using Bit.IH [OF rangeI, of b] Bit.prems(2) by (cases b) auto
next
  case (Direct k)
  then obtain b s1 where "bp_run inp (k b) probs s1 = Some (x, probs', s')"
    by (auto split: option.splits)
  then show ?case using Direct.IH [OF rangeI, of b] Direct.prems(2) by (cases b) auto
qed simp

abbreviation run_then :: "bytes \<Rightarrow> 'a bitprog \<Rightarrow> u16 list \<Rightarrow> rc \<Rightarrow> ('a \<Rightarrow> u16 list \<Rightarrow> rc \<Rightarrow> 'b option) \<Rightarrow> 'b option" where
  "run_then inp p probs s F \<equiv> Option.bind (bp_run inp p probs s) (\<lambda>(x, probs, s). F x probs s)"

abbreviation same_table :: "u16 list \<Rightarrow> u16 list \<Rightarrow> bool" where
  "same_table probs probs' \<equiv> probs_ok probs' \<and> length probs' = length probs"

lemma run_then_bind:
  "run_then inp (bp_bind p f) probs s F = run_then inp p probs s (\<lambda>x probs s. run_then inp (f x) probs s F)"
  by (auto simp: bp_run_bind split: bind_splits option.splits)

lemma run_then_cong:
  assumes "probs_ok probs" "bp_post P p"
    and "\<And>x probs' s'. same_table probs probs' \<Longrightarrow> P x \<Longrightarrow> F x probs' s' = G x probs' s'"
  shows "run_then inp p probs s F = run_then inp p probs s G"
proof (cases "bp_run inp p probs s")
  case (Some r)
  obtain x probs' s' where r: "r = (x, probs', s')" by (cases r)
  show ?thesis
    using Some bp_run_probs [OF Some [unfolded r] assms(1)] bp_run_post [OF Some [unfolded r] assms(2)] assms(3)
    by (simp add: r)
qed simp

lemma if_bit_0_run:
  assumes "probs_ok probs"
    and "\<And>probs' s'. same_table probs probs' \<Longrightarrow> a probs' s' = run_then inp (k False) probs' s' F"
    and "\<And>probs' s'. same_table probs probs' \<Longrightarrow> b probs' s' = run_then inp (k True) probs' s' F"
  shows "if_bit_0 inp probs i s a b = run_then inp (Bit i k) probs s F"
proof (cases "dec_bit inp probs i s")
  case (Some r)
  obtain bt probs' s' where r: "r = (bt, probs', s')" by (cases r)
  show ?thesis
    using Some dec_bit_probs [OF Some [unfolded r] assms(1)] assms(2,3) by (cases bt) (simp_all add: if_bit_0_eq r)
qed (simp add: if_bit_0_eq)

lemma tree_decode_run:
  assumes "probs_ok probs" "base + 2 ^ n \<le> length probs" "0 < n" "n \<le> 31"
  shows "Option.bind (tree_decode n inp probs base s) (\<lambda>(probs, x, s). F x probs s) =
    run_then inp (tree_prog n base 1) probs s F"
  by (simp add: tree_decode_eq [OF assms] bind_map_option comp_def case_prod_unfold)

lemma if_bit_0_bind:
  "Option.bind (if_bit_0 inp probs i s a b) G =
    if_bit_0 inp probs i s (\<lambda>p s. Option.bind (a p s) G) (\<lambda>p s. Option.bind (b p s) G)"
  by (auto simp: if_bit_0_eq split: option.splits)

lemma bind_ret3:
  "Option.bind (Option.bind T (\<lambda>(p, x, s). Some (p, g x, s))) (\<lambda>(p, x, s). F x p s) =
    Option.bind T (\<lambda>(p, x, s). F (g x) p s)"
  by (cases T) auto

lemma decode_len_run:
  assumes "probs_ok probs" "prob + 512 \<le> length probs" "\<exists>k < 16. unat ps = 16 * k"
  shows "Option.bind (decode_len inp prob ps probs s) (\<lambda>(probs, len, s). F len probs s) =
    run_then inp (len_prog prob ps) probs s F"
proof -
  obtain k where k: "k < 16" "unat ps = 16 * k" using assms(3) by blast
  show ?thesis
    unfolding decode_len_def len_prog_def if_bit_0_bind bind_ret3
  proof (rule if_bit_0_run [OF assms(1)], goal_cases)
    case (1 probs' s')
    then show ?case using assms(2) k by (simp add: tree_decode_run run_then_bind lz_consts)
  next
    case (2 probs' s')
    then show ?case
      unfolding not_True_eq_False if_False
      by (intro if_bit_0_run) (use assms(2) k in \<open>simp_all add: tree_decode_run run_then_bind lz_consts\<close>)
  qed
qed

lemma rev_bit_loop_run:
  assumes "probs_ok probs" "0 < n"
  shows "rev_bit_loop n inp base (probs, i, m, s) =
    map_option (\<lambda>((i, m), probs, s). (probs, i, m, s)) (bp_run inp (rev_prog n base i m) probs s)"
  using assms
proof (induction n arbitrary: probs i m s)
  case (Suc n)
  show ?case
  proof (cases "dec_bit inp probs (base + unat i) s")
    case None
    then show ?thesis by (simp add: rev_bit_var_def rev_bit_mask_eq Suc.prems)
  next
    case (Some r)
    obtain b probs' s' where r: "r = (b, probs', s')" by (cases r)
    have "m AND (if b then -1 else 0) = (if b then m else 0)" by simp
    with Some Suc.IH [OF dec_bit_probs(1) [OF Some [unfolded r] Suc.prems(1)]] show ?thesis
      by (cases "n = 0") (simp_all add: rev_bit_var_def rev_bit_mask_eq Suc.prems r)
  qed
qed simp

lemma rev_prog_shift:
  assumes "unat D + unat i + unat m * 2 * 2 ^ n < 2 ^ 32 + 2 * unat m"
  shows "rev_prog n base (D + i) m =
    bp_bind (rev_prog n (base + unat D) i m) (\<lambda>(i', m'). Ret (D + i', m'))"
  using assms
proof (induction n arbitrary: i m)
  case (Suc n)
  define q where "q = unat m * 2 ^ n"
  have q: "unat m \<le> q" using mult_le_mono2 [of 1 "2 ^ n" "unat m"] unfolding q_def by simp
  have lt: "unat D + unat i + 4 * q < 2 ^ 32 + 2 * unat m" using Suc.prems by (simp add: q_def)
  have u: "unat (D + i) = unat D + unat i" using lt q by (simp add: unat_word_ariths)
  have IH: "rev_prog n base (D + (i + (m + (if b then m else 0)))) (m + m) =
    bp_bind (rev_prog n (base + unat D) (i + (m + (if b then m else 0))) (m + m)) (\<lambda>(i', m'). Ret (D + i', m'))" for b
  proof (rule Suc.IH)
    have m: "unat (m + m) = 2 * unat m" and i: "unat (i + (m + (if b then m else 0))) \<le> unat i + 2 * unat m"
      using lt q by (auto simp: unat_word_ariths)
    then show "unat D + unat (i + (m + (if b then m else 0))) + unat (m + m) * 2 * 2 ^ n < 2 ^ 32 + 2 * unat (m + m)"
      using lt unfolding m q_def by simp
  qed
  then show ?case using IH [of True] IH [of False] by (auto simp: u add.assoc fun_eq_iff)
qed simp

lemma direct_loop_run:
  assumes "0 < n"
  shows "run_then inp (direct_prog n d) probs s F =
    Option.bind (direct_loop n inp (d, s)) (\<lambda>(d, s). F d probs s)"
  using assms
proof (induction n arbitrary: d s)
  case (Suc n)
  show ?case
    using Suc.IH by (cases "n = 0") (auto simp: direct_bit_eq split: option.splits)
qed simp

lemma decode_align_run:
  assumes "probs_ok probs"
  shows "Option.bind (decode_align inp probs s) (\<lambda>(probs, i, s). F i probs s) =
    run_then inp (rev_prog 4 ALIGN 1 1) probs s (\<lambda>(i, m). F (i - m))"
proof -
  have n4: "(4::nat) = Suc (Suc (Suc (Suc 0)))" by simp
  have a: "w AND (if b then -1 else 0) = (if b then w else 0)" "w AND NOT (if b then -1 else 0) = (if b then 0 else w)"
    for b :: bool and w :: u32 by simp_all
  show ?thesis
    using assms
    by (auto simp: n4 decode_align_def rev_bit_const_def rev_bit_last_def rev_bit_mask_eq dec_bit_probs a
        split: bind_splits option.splits)
qed

lemma decode_slot_tail_run:
  assumes "probs_ok probs" "LITERAL \<le> length probs" "unat slot < 64"
  shows "Option.bind (decode_slot_tail inp slot probs s) (\<lambda>(probs, d, e, s). F d e probs s) =
    run_then inp (dist_tail slot) probs s (\<lambda>d. F d (d = -1))"
proof -
  define n where "n = unat slot div 2 - 1"
  define d where "d = (2::u32) OR (slot AND 1)"
  have u: "unat (drop_bit 1 slot - 1) = n" if "4 \<le> unat slot"
    using that unat_drop_bit [of 1 slot] by (simp add: n_def unat_sub word_le_nat_alt)
  consider "unat slot < 4" | "4 \<le> unat slot" "unat slot < 14" | "14 \<le> unat slot" by linarith
  then show ?thesis
  proof cases
    case 1
    then have "slot \<noteq> -1" by auto
    then show ?thesis using 1 by (simp add: decode_slot_tail_def dist_tail_def word_less_nat_alt word_le_nat_alt lz_consts)
  next
    case 2
    note nd = near_tail_range [OF 2, folded n_def d_def]
    have eq: "dist_tail slot = bp_bind (rev_prog n (SPEC_POS + unat d * 2 ^ n) 1 1)
        (\<lambda>(i, m). Ret (push_bit n d + (i - m)))"
      using 2 by (simp add: dist_tail_def Let_def n_def d_def word_less_nat_alt)
    have sh: "rev_prog n SPEC_POS (push_bit n d + 1) 1 =
      bp_bind (rev_prog n (SPEC_POS + unat d * 2 ^ n) 1 1) (\<lambda>(i', m'). Ret (push_bit n d + i', m'))"
      using rev_prog_shift [of "push_bit n d" 1 1 n SPEC_POS] nd by simp
    have "Option.bind (decode_slot_tail inp slot probs s) (\<lambda>(probs, d, e, s). F d e probs s) =
      run_then inp (rev_prog n SPEC_POS (push_bit n d + 1) 1) probs s (\<lambda>(i, m). F (i - m) False)"
      using 2 u [OF 2(1)]
      by (simp add: decode_slot_tail_def Let_def word_less_nat_alt word_le_nat_alt
          d_def [symmetric] K_START_POS_MODEL_INDEX_def K_END_POS_MODEL_INDEX_def
          rev_bit_loop_run [OF assms(1) nd(2)] bind_map_option comp_def case_prod_unfold del: drop_bit_eq_div)
    also have "\<dots> = run_then inp (dist_tail slot) probs s (\<lambda>d. F d False)"
      unfolding sh eq run_then_bind by (simp add: case_prod_unfold add_diff_eq)
    also have "\<dots> = run_then inp (dist_tail slot) probs s (\<lambda>d. F d (d = -1))"
    proof (rule run_then_cong [OF assms(1) dist_tail_near(4) [OF 2]])
      fix x probs' s' assume "unat (x :: u32) < 128"
      then have "x \<noteq> -1" by auto
      then show "F x False probs' s' = F x (x = -1) probs' s'" by simp
    qed
    finally show ?thesis .
  next
    case 3
    have n: "unat (drop_bit 1 slot - 1 - 4) = n - 4" "0 < n - 4"
      using 3 unat_drop_bit [of 1 slot] by (simp_all add: unat_sub word_le_nat_alt n_def)
    have eq: "dist_tail slot = bp_bind (direct_prog (n - 4) d) (\<lambda>d.
        bp_bind (rev_prog 4 ALIGN 1 1) (\<lambda>(i, m). Ret (push_bit 4 d OR (i - m))))"
      using 3 by (simp add: dist_tail_def Let_def n_def d_def word_less_nat_alt)
    have m1: "(-1 :: u32) = 0xFFFFFFFF" by (rule word_eq_unatI) simp
    have al: "run_then inp (rev_prog 4 ALIGN 1 1) probs s
        (\<lambda>(i, m). F (push_bit 4 d OR (i - m)) (push_bit 4 d OR (i - m) = -1)) =
      Option.bind (decode_align inp probs s) (\<lambda>(probs, i, s). F (push_bit 4 d OR i) (push_bit 4 d OR i = -1) probs s)" for d s
      using decode_align_run [OF assms(1), of inp s "\<lambda>i. F (push_bit 4 d OR i) (push_bit 4 d OR i = -1)"] by simp
    have "run_then inp (dist_tail slot) probs s (\<lambda>d. F d (d = -1)) =
      Option.bind (direct_loop (n - 4) inp (d, s)) (\<lambda>(d, s). run_then inp (rev_prog 4 ALIGN 1 1) probs s
        (\<lambda>(i, m). F (push_bit 4 d OR (i - m)) (push_bit 4 d OR (i - m) = -1)))"
      unfolding eq run_then_bind direct_loop_run [OF n(2)] by (simp add: case_prod_unfold)
    also have "\<dots> = Option.bind (direct_loop (n - 4) inp (d, s)) (\<lambda>(d, s). Option.bind (decode_align inp probs s)
        (\<lambda>(probs, i, s). F (push_bit 4 d OR i) (push_bit 4 d OR i = -1) probs s))"
      by (simp only: al)
    also have "\<dots> = Option.bind (decode_slot_tail inp slot probs s) (\<lambda>(probs, d, e, s). F d e probs s)"
      using 3 n
      by (simp add: decode_slot_tail_def Let_def word_less_nat_alt word_le_nat_alt d_def [symmetric]
          K_START_POS_MODEL_INDEX_def K_END_POS_MODEL_INDEX_def K_NUM_ALIGN_BITS_def case_prod_unfold m1
          del: drop_bit_eq_div)
    finally show ?thesis by simp
  qed
qed

lemma decode_distance_run:
  assumes "probs_ok probs" "LITERAL \<le> length probs"
  shows "Option.bind (decode_distance inp len probs s) (\<lambda>(probs, d, e, s). F d e probs s) =
    run_then inp (dist_prog len) probs s (\<lambda>d. F d (d = -1))"
proof -
  define w where "w = (if len < of_nat K_NUM_LEN_TO_POS_STATES then len else of_nat K_NUM_LEN_TO_POS_STATES - 1)"
  define temp where "temp = push_bit K_NUM_POS_SLOT_BITS w"
  have "unat w = min (unat len) 3" by (auto simp: w_def lz_consts word_less_nat_alt min_def)
  then have temp: "unat temp = 64 * min (unat len) 3"
    using unat_push_bit [of w 6] by (simp add: temp_def lz_consts min_less_iff_disj)
  have base: "POS_SLOT + unat temp = slot_base len" by (simp add: slot_base_def temp)
  have le: "slot_base len + 2 ^ 6 \<le> length probs" using assms(2) by (auto simp: slot_base_def lz_consts)
  have post: "bp_post (\<lambda>x. 64 \<le> unat x \<and> unat x < 128) (tree_prog 6 (slot_base len) 1)"
    using tree_prog_post [of 1 6] by simp
  have "Option.bind (decode_distance inp len probs s) (\<lambda>(probs, d, e, s). F d e probs s) =
    Option.bind (tree_decode 6 inp probs (slot_base len) s) (\<lambda>(probs, x, s).
      Option.bind (decode_slot_tail inp (x - 0x40) probs s) (\<lambda>(probs, d, e, s). F d e probs s))"
    by (simp add: decode_distance_def Let_def w_def [symmetric] temp_def [symmetric] base case_prod_unfold)
  also have "\<dots> = run_then inp (tree_prog 6 (slot_base len) 1) probs s (\<lambda>x probs s.
      Option.bind (decode_slot_tail inp (x - 0x40) probs s) (\<lambda>(probs, d, e, s). F d e probs s))"
    using le by (intro tree_decode_run [OF assms(1)]) auto
  also have "\<dots> = run_then inp (tree_prog 6 (slot_base len) 1) probs s (\<lambda>x probs s.
      run_then inp (dist_tail (x - 0x40)) probs s (\<lambda>d. F d (d = -1)))"
    by (intro run_then_cong [OF assms(1) post] decode_slot_tail_run)
      (use assms(2) in \<open>auto simp: unat_sub word_le_nat_alt\<close>)
  finally show ?thesis by (simp add: dist_prog_def run_then_bind)
qed

text \<open>The context of a symbol, and the invariant under which the dictionary reads that form it are in
  bounds.\<close>

definition sym_ctx :: "lzenv \<Rightarrow> lz \<Rightarrow> sctx" where
  "sym_ctx env l =
     \<lparr>c_state = l_state l, c_pos_state = push_bit 4 (l_processed_pos l AND e_pb_mask env),
      c_lit = LITERAL + (if l_processed_pos l \<noteq> 0 \<or> e_check_dic_size env \<noteq> 0
        then unat (3 * push_bit (e_lc env) ((push_bit 8 (l_processed_pos l) +
          ucast (l_dic l ! ((if l_dic_pos l = 0 then e_dic_buf_size env else l_dic_pos l) - 1))) AND e_lp_mask env))
        else 0),
      c_match = l_dic l ! dic_back (e_dic_buf_size env) (l_dic_pos l) (l_rep0 l)\<rparr>"

text \<open>The environment of a call: masks of properties in range, and a table of the right size.\<close>

definition env_ok :: "lzenv \<Rightarrow> nat \<Rightarrow> bool" where
  "env_ok env n \<longleftrightarrow> (\<exists>lp pb. e_lc env \<le> 8 \<and> lp \<le> 4 \<and> pb \<le> 4 \<and>
     e_pb_mask env = push_bit pb 1 - 1 \<and>
     e_lp_mask env = push_bit lp 0x100 - drop_bit (e_lc env) 0x100 \<and>
     LITERAL + 0x300 * 2 ^ (e_lc env + lp) \<le> n) \<and>
     e_limit env \<le> e_dic_buf_size env \<and> 0 < e_dic_buf_size env \<and> e_dic_buf_size env < 2 ^ 63"

definition rep_ok :: "lzenv \<Rightarrow> u32 \<Rightarrow> bool" where
  "rep_ok env r \<longleftrightarrow> 0 < unat r \<and> unat r \<le> e_dic_buf_size env"

definition lz_ok :: "lzenv \<Rightarrow> lz \<Rightarrow> bool" where
  "lz_ok env l \<longleftrightarrow> env_ok env (length (l_probs l)) \<and> probs_ok (l_probs l) \<and> unat (l_state l) < 12 \<and>
     length (l_dic l) = e_dic_buf_size env \<and> l_dic_pos l \<le> e_limit env \<and>
     rep_ok env (l_rep0 l) \<and> rep_ok env (l_rep1 l) \<and> rep_ok env (l_rep2 l) \<and> rep_ok env (l_rep3 l)"

lemma dic_back_eq:
  assumes "rep_ok env r" "pos \<le> e_dic_buf_size env" "e_dic_buf_size env < 2 ^ 63"
  shows "dic_back (e_dic_buf_size env) pos r =
      (if pos < unat r then pos + e_dic_buf_size env - unat r else pos - unat r)"
    and "dic_back (e_dic_buf_size env) pos r < e_dic_buf_size env"
proof -
  show eq: "dic_back (e_dic_buf_size env) pos r =
      (if pos < unat r then pos + e_dic_buf_size env - unat r else pos - unat r)"
  proof (cases "pos < unat r")
    case True
    then have "dic_back (e_dic_buf_size env) pos r = (2 ^ 64 + (pos + e_dic_buf_size env - unat r)) mod 2 ^ 64"
      using assms unfolding dic_back_def rep_ok_def by (intro arg_cong2 [where f = "(mod)"]) auto
    then show ?thesis using True assms by (simp only: mod_add_self1 if_True) simp
  next
    case False
    then have "dic_back (e_dic_buf_size env) pos r = (2 ^ 64 + (pos - unat r)) mod 2 ^ 64"
      unfolding dic_back_def by (intro arg_cong2 [where f = "(mod)"]) auto
    then show ?thesis using False assms by (simp only: mod_add_self1 if_False) simp
  qed
  then show "dic_back (e_dic_buf_size env) pos r < e_dic_buf_size env"
    using assms by (auto simp: rep_ok_def)
qed


subsection \<open>The literal index\<close>

text \<open>Both spellings of the literal sub-table offset in the source are
  \<open>0x300 * ((processed_pos mod 2 ^ lp) * 2 ^ lc + prev div 2 ^ (8 - lc))\<close>.\<close>

lemma lp_mask_form:
  assumes "k \<le> 8"
  shows "push_bit j 0x100 - drop_bit k 0x100 = push_bit (8 - k) (mask (k + j) :: u32)"
proof -
  have "drop_bit k (2 ^ 8 :: u32) = 2 ^ (8 - k)" using assms by (simp only: drop_bit_exp_eq) simp
  moreover have "(2::u32) ^ (k + j) * 2 ^ (8 - k) = 2 ^ 8 * 2 ^ j"
    using assms by (simp only: power_add [symmetric]) (simp add: algebra_simps)
  ultimately show ?thesis
    by (simp add: push_bit_eq_mult mask_eq_exp_minus_1 left_diff_distrib)
qed

lemma and_push_bit_mask: "x AND push_bit m (mask q) = push_bit m (drop_bit m x AND mask q)" for x :: "'a::len word"
  by (rule bit_word_eqI) (auto simp: bit_simps)

lemma lit_context_nat:
  fixes pp prev k j :: nat
  assumes "prev < 256" "k \<le> 8"
  shows "(256 * pp + prev) div 2 ^ (8 - k) mod 2 ^ (k + j) = (pp mod 2 ^ j) * 2 ^ k + prev div 2 ^ (8 - k)"
proof -
  have p: "(256::nat) = 2 ^ k * 2 ^ (8 - k)" using assms(2) by (simp flip: power_add)
  have q: "prev div 2 ^ (8 - k) < 2 ^ k"
    using assms(1) p by (intro less_mult_imp_div_less) simp
  have "(256 * pp + prev) div 2 ^ (8 - k) = 2 ^ k * pp + prev div 2 ^ (8 - k)"
    unfolding p by (simp add: mult.commute [of "2 ^ k"] mult.assoc)
  moreover have "(2 ^ k * pp + prev div 2 ^ (8 - k)) mod (2 ^ k * 2 ^ j) = 2 ^ k * (pp mod 2 ^ j) + prev div 2 ^ (8 - k)"
    using q by (simp add: mod_mult2_eq)
  ultimately show ?thesis by (simp add: power_add mult.commute)
qed

lemma lit_offset_eq:
  fixes pp :: u32 and prev :: u8
  assumes "k \<le> 8" "j \<le> 4"
  shows "unat (3 * push_bit k ((push_bit 8 pp + ucast prev) AND (push_bit j 0x100 - drop_bit k 0x100))) =
    0x300 * ((unat pp mod 2 ^ j) * 2 ^ k + unat prev div 2 ^ (8 - k))"
proof -
  define x where "x = push_bit 8 pp + (ucast prev :: u32)"
  define c where "c = (unat pp mod 2 ^ j) * 2 ^ k + unat prev div 2 ^ (8 - k)"
  have "unat (push_bit 8 pp) = take_bit 32 (push_bit 8 (unat pp))"
    using unsigned_push_bit_eq [of 8 pp, where ?'a = nat] by simp
  also have "\<dots> = (256 * unat pp) mod (256 * 2 ^ 24)"
    by (simp add: take_bit_eq_mod push_bit_eq_mult mult.commute)
  also have "\<dots> = 256 * (unat pp mod 2 ^ 24)" by (simp only: mult_mod_right)
  finally have "unat x = 256 * (unat pp mod 2 ^ 24) + unat prev"
    using unat_u8_lt [of prev] mod_less_divisor [of "2 ^ 24" "unat pp"]
    by (simp add: x_def unat_word_ariths del: unat_u8_lt)
  then have "unat x div 2 ^ (8 - k) mod 2 ^ (k + j) = (unat pp mod 2 ^ 24 mod 2 ^ j) * 2 ^ k + unat prev div 2 ^ (8 - k)"
    using lit_context_nat [of "unat prev" k "unat pp mod 2 ^ 24" j] assms(1) by simp
  also have "unat pp mod 2 ^ 24 mod 2 ^ j = unat pp mod 2 ^ j"
    using assms(2) by (intro mod_mod_cancel le_imp_power_dvd) simp
  finally have c: "unat (drop_bit (8 - k) x AND mask (k + j)) = c"
    by (simp only: unat_and_mask unat_drop_bit c_def)
  have "c < 2 ^ (k + j)" unfolding c [symmetric] unat_and_mask by simp
  also have "(2::nat) ^ (k + j) \<le> 2 ^ 12" using assms by (intro power_increasing) auto
  finally have cb: "c < 2 ^ 12" .
  have pk: "(2::nat) ^ (8 - k) * 2 ^ k = 256" using assms(1) by (simp flip: power_add)
  have 1: "unat (push_bit (8 - k) (drop_bit (8 - k) x AND mask (k + j))) = c * 2 ^ (8 - k)"
  proof -
    have "(2::nat) ^ (8 - k) \<le> 2 ^ 8" by (intro power_increasing) auto
    then have "c * 2 ^ (8 - k) \<le> 2 ^ 12 * 2 ^ 8" using cb by (intro mult_le_mono) auto
    then show ?thesis using unat_push_bit [of "drop_bit (8 - k) x AND mask (k + j)" "8 - k"] c by simp
  qed
  have 2: "unat (push_bit k (push_bit (8 - k) (drop_bit (8 - k) x AND mask (k + j)))) = c * 256"
    using unat_push_bit [of "push_bit (8 - k) (drop_bit (8 - k) x AND mask (k + j))" k] cb
    unfolding 1 mult.assoc pk by simp
  show ?thesis
    unfolding x_def [symmetric] lp_mask_form [OF assms(1)] and_push_bit_mask c_def [symmetric]
    using 2 cb by (simp add: unat_word_ariths)
qed

subsection \<open>One turn of the loop\<close>

lemma pos_state_ok:
  assumes "pbits \<le> 4"
  shows "\<exists>k < 16. unat (push_bit 4 (pp AND (push_bit pbits 1 - 1 :: u32))) = 16 * k"
proof -
  have m: "push_bit pbits 1 - 1 = (mask pbits :: u32)" by (simp add: mask_eq_exp_minus_1 push_bit_eq_mult)
  have "unat (pp AND mask pbits) < 2 ^ pbits" by (simp only: unat_and_mask) simp
  also have "(2::nat) ^ pbits \<le> 2 ^ 4" using assms by (intro power_increasing) auto
  finally have k: "unat (pp AND mask pbits) < 16" by simp
  then have "unat (push_bit 4 (pp AND mask pbits)) = unat (pp AND mask pbits) * 2 ^ 4"
    by (intro unat_push_bit) simp
  then show ?thesis unfolding m using k by (intro exI [of _ "unat (pp AND mask pbits)"]) simp
qed

lemma sym_ctx_ok:
  assumes "lz_ok env l"
  shows "ctx_ok (length (l_probs l)) (sym_ctx env l)"
proof -
  obtain j pbits where e: "e_lc env \<le> 8" "j \<le> 4" "pbits \<le> 4" "e_pb_mask env = push_bit pbits 1 - 1"
     "e_lp_mask env = push_bit j 0x100 - drop_bit (e_lc env) 0x100"
     "LITERAL + 0x300 * 2 ^ (e_lc env + j) \<le> length (l_probs l)"
    using assms by (auto simp: lz_ok_def env_ok_def)
  let ?k = "e_lc env"
  have c: "(unat pp mod 2 ^ j) * 2 ^ ?k + unat prev div 2 ^ (8 - ?k) < 2 ^ (?k + j)" for pp :: u32 and prev :: u8
    using lit_context_nat [of "unat prev" ?k "unat pp" j, symmetric] e(1) by simp
  have "c_lit (sym_ctx env l) + 0x300 \<le> LITERAL + 0x300 * 2 ^ (?k + j)"
  proof (cases "l_processed_pos l \<noteq> 0 \<or> e_check_dic_size env \<noteq> 0")
    case True
    define prev where "prev = l_dic l ! ((if l_dic_pos l = 0 then e_dic_buf_size env else l_dic_pos l) - 1)"
    have "c_lit (sym_ctx env l) = LITERAL + 0x300 * ((unat (l_processed_pos l) mod 2 ^ j) * 2 ^ ?k + unat prev div 2 ^ (8 - ?k))"
      using True by (simp only: sym_ctx_def sctx.select_convs e(5) lit_offset_eq [OF e(1,2)] prev_def if_True)
    with c [of "l_processed_pos l" prev] show ?thesis by simp
  next
    case False
    then show ?thesis by (simp add: sym_ctx_def)
  qed
  then show ?thesis
    using assms e(6) pos_state_ok [OF e(3), of "l_processed_pos l"]
    by (auto simp: ctx_ok_def lz_ok_def sym_ctx_def e(4))
qed

lemma lit_prob_Some:
  assumes "lz_ok env l"
  shows "lit_prob env l = Some (c_lit (sym_ctx env l))"
  using assms by (auto simp: lit_prob_def sym_ctx_def lz_ok_def env_ok_def)

lemma match_byte_Some:
  assumes "lz_ok env l"
  shows "get_at (l_dic l) (dic_back (e_dic_buf_size env) (l_dic_pos l) (l_rep0 l)) = Some (c_match (sym_ctx env l))"
proof -
  have "dic_back (e_dic_buf_size env) (l_dic_pos l) (l_rep0 l) < e_dic_buf_size env"
    using assms by (intro dic_back_eq(2)) (auto simp: lz_ok_def env_ok_def)
  then show ?thesis using assms by (simp add: lz_ok_def sym_ctx_def)
qed

lemma matched_liter_run:
  assumes "probs_ok probs"
  shows "Option.bind (matched_liter_times n inp base (probs, sy, mb, offs, s)) (\<lambda>(probs, x, _, _, s). F x probs s) =
    run_then inp (matched_prog n base sy mb offs) probs s F"
proof -
  have "Option.bind (matched_liter_times n inp base (probs, sy, mb, offs, s)) (\<lambda>(probs, x, _, _, s). F x probs s) =
    Option.bind (map_option (\<lambda>(probs', x, _, _, s'). (probs', x, s')) (matched_liter_times n inp base (probs, sy, mb, offs, s)))
      (\<lambda>(probs, x, s). F x probs s)"
    by (simp add: bind_map_option comp_def case_prod_unfold)
  then show ?thesis
    unfolding matched_liter_times_eq [OF assms] by (simp add: bind_map_option comp_def case_prod_unfold)
qed

lemma decode_literal_run:
  assumes "lz_ok env l" "same_table (l_probs l) probs"
  shows "decode_literal env (l\<lparr>l_probs := probs, l_rc := s\<rparr>) =
    run_then (e_inp env) (bp_bind (lit_prog (sym_ctx env l)) (\<lambda>x. Ret (SLit x))) probs s
      (\<lambda>sy probs s. apply_symbol env sy (l\<lparr>l_probs := probs, l_rc := s\<rparr>))"
proof -
  let ?l = "l\<lparr>l_probs := probs, l_rc := s\<rparr>" and ?c = "sym_ctx env l"
  have ctx: "sym_ctx env ?l = ?c" by (simp add: sym_ctx_def)
  have ok: "lz_ok env ?l" using assms by (simp add: lz_ok_def env_ok_def)
  have lit: "c_lit ?c + 2 ^ 8 \<le> length probs" using sym_ctx_ok [OF assms(1)] assms(2) by (simp add: ctx_ok_def)
  have st: "c_state ?c = l_state l" by (simp add: sym_ctx_def)
  have s1: "lit_state (l_state l) = (if l_state l < 4 then 0 else l_state l - 3)" if "l_state l < 7"
    using that by (auto simp: lit_state_def word_less_nat_alt)
  have s2: "lit_state (l_state l) = (if l_state l < 10 then l_state l - 3 else l_state l - 6)" if "\<not> l_state l < 7"
    using that by (auto simp: lit_state_def word_less_nat_alt)
  have upd: "l\<lparr>l_processed_pos := a, l_state := b, l_probs := c, l_rc := d\<rparr> =
      l\<lparr>l_probs := c, l_rc := d, l_processed_pos := a, l_state := b\<rparr>" for a b c d
    by (cases l) simp
  have p: "probs_ok probs" using assms(2) by simp
  show ?thesis
  proof (cases "l_state l < 7")
    case True
    then have "decode_literal env ?l = Option.bind (tree_decode 8 (e_inp env) probs (c_lit ?c) s)
      (\<lambda>(probs, x, s). apply_symbol env (SLit x) (l\<lparr>l_probs := probs, l_rc := s\<rparr>))"
      using lit_prob_Some [OF ok]
      by (simp add: decode_literal_def s1 upd ctx Let_def K_NUM_LIT_STATES_def case_prod_unfold)
    then show ?thesis
      using True tree_decode_run [OF p lit, of "e_inp env" s] by (simp add: run_then_bind lit_prog_def st K_NUM_LIT_STATES_def)
  next
    case False
    then have "decode_literal env ?l =
      Option.bind (matched_liter_times 8 (e_inp env) (c_lit ?c) (probs, 1, ucast (c_match ?c), 0x100, s))
      (\<lambda>(probs, x, _, _, s). apply_symbol env (SLit x) (l\<lparr>l_probs := probs, l_rc := s\<rparr>))"
      using lit_prob_Some [OF ok] match_byte_Some [OF ok]
      by (simp add: decode_literal_def s2 upd ctx Let_def K_NUM_LIT_STATES_def case_prod_unfold del: get_at_Some_iff)
    then show ?thesis
      using False by (simp add: matched_liter_run [OF p] run_then_bind lit_prog_def st K_NUM_LIT_STATES_def)
  qed
qed

lemma lz_upd:
  "l\<lparr>l_state := a, l_probs := b, l_rc := c\<rparr> = l\<lparr>l_probs := b, l_rc := c, l_state := a\<rparr>"
  "l\<lparr>l_len := x, l_probs := b, l_rc := c\<rparr> = l\<lparr>l_probs := b, l_rc := c, l_len := x\<rparr>"
  "l\<lparr>l_len := x, l_state := a\<rparr> = l\<lparr>l_state := a, l_len := x\<rparr>"
  by (cases l; simp)+

lemma rep_tail_run:
  assumes "lz_ok env l" "same_table (l_probs l) probs" "\<exists>k < 16. unat ps = 16 * k" "LITERAL \<le> length (l_probs l)"
  shows "rep_tail env ps (rotate_reps k l\<lparr>l_probs := probs, l_rc := s\<rparr>) =
    run_then (e_inp env) (rep_len_prog ps k) probs s
      (\<lambda>sy probs s. apply_symbol env sy (l\<lparr>l_probs := probs, l_rc := s\<rparr>))"
proof -
  let ?st = "if l_state l < 7 then 8 else 11 :: u32"
  have p: "probs_ok probs" and len: "REP_LEN_CODER + 512 \<le> length probs"
    using assms(2,4) by (auto simp: lz_consts)
  have rot: "l_state (rotate_reps k l) = l_state l"
    "rotate_reps k (l\<lparr>l_probs := a, l_rc := b\<rparr>) = rotate_reps k l\<lparr>l_probs := a, l_rc := b\<rparr>" for a b
    by (auto simp: rotate_reps_def)
  have st: "\<not> 12 \<le> ?st" by simp
  have "rep_tail env ps (rotate_reps k l\<lparr>l_probs := probs, l_rc := s\<rparr>) =
    Option.bind (decode_len (e_inp env) REP_LEN_CODER ps probs s)
      (\<lambda>(probs, len, s). apply_symbol env (SRep k len) (l\<lparr>l_probs := probs, l_rc := s\<rparr>))"
    using st by (simp add: rep_tail_def decode_match_tail_def Let_def K_NUM_STATES_def K_NUM_LIT_STATES_def rot lz_upd(1) case_prod_unfold)
  also have "\<dots> = run_then (e_inp env) (rep_len_prog ps k) probs s
      (\<lambda>sy probs s. apply_symbol env sy (l\<lparr>l_probs := probs, l_rc := s\<rparr>))"
    by (simp add: decode_len_run [OF p len assms(3)] rep_len_prog_def run_then_bind)
  finally show ?thesis .
qed

lemma match_tail_run:
  assumes "lz_ok env l" "same_table (l_probs l) probs" "\<exists>k < 16. unat ps = 16 * k" "LITERAL \<le> length (l_probs l)"
  shows "decode_match_tail env ps LEN_CODER (l\<lparr>l_probs := probs, l_rc := s, l_state := l_state l + K_NUM_STATES\<rparr>) =
    run_then (e_inp env) (bp_bind (len_prog LEN_CODER ps) (\<lambda>len. bp_bind (dist_prog len) (\<lambda>d. Ret (SMatch len d)))) probs s
      (\<lambda>sy probs s. apply_symbol env sy (l\<lparr>l_probs := probs, l_rc := s\<rparr>))"
proof -
  have p: "probs_ok probs" and len: "LEN_CODER + 512 \<le> length probs"
    using assms(2,4) by (auto simp: lz_consts)
  have st: "unat (l_state l) < 12" using assms(1) by (simp add: lz_ok_def)
  then have st12: "K_NUM_STATES \<le> l_state l + K_NUM_STATES"
    and lt: "l_state l + K_NUM_STATES < K_NUM_STATES + K_NUM_LIT_STATES \<longleftrightarrow> l_state l < 7"
    by (auto simp: word_le_nat_alt word_less_nat_alt unat_word_ariths lz_consts)
  have nd: "new_distance env d e (l\<lparr>l_state := l_state l + K_NUM_STATES, l_len := len, l_probs := probs, l_rc := s\<rparr>) =
      apply_symbol env (SMatch len d) (l\<lparr>l_probs := probs, l_rc := s\<rparr>)" if "e = (d = -1)" for d e len probs s
    using that lt
    by (auto simp: new_distance_def Let_def push_rep_def K_NUM_LIT_STATES_def intro!: arg_cong [of _ _ "copy_match env"])
  have "decode_match_tail env ps LEN_CODER (l\<lparr>l_probs := probs, l_rc := s, l_state := l_state l + K_NUM_STATES\<rparr>) =
    Option.bind (decode_len (e_inp env) LEN_CODER ps probs s) (\<lambda>(probs, len, s).
      Option.bind (decode_distance (e_inp env) len probs s) (\<lambda>(probs, d, e, s).
        new_distance env d e (l\<lparr>l_state := l_state l + K_NUM_STATES, l_len := len, l_probs := probs, l_rc := s\<rparr>)))"
    using st12 by (simp add: decode_match_tail_def Let_def case_prod_unfold)
  also have "\<dots> = run_then (e_inp env) (len_prog LEN_CODER ps) probs s (\<lambda>len probs s.
      Option.bind (decode_distance (e_inp env) len probs s) (\<lambda>(probs, d, e, s).
        new_distance env d e (l\<lparr>l_state := l_state l + K_NUM_STATES, l_len := len, l_probs := probs, l_rc := s\<rparr>)))"
    by (rule decode_len_run [OF p len assms(3)])
  also have "\<dots> = run_then (e_inp env) (len_prog LEN_CODER ps) probs s (\<lambda>len probs s.
      run_then (e_inp env) (dist_prog len) probs s (\<lambda>d probs s.
        apply_symbol env (SMatch len d) (l\<lparr>l_probs := probs, l_rc := s\<rparr>)))"
  proof (rule run_then_cong [OF p bp_post_True])
    fix len s' and probs' :: "u16 list" assume "same_table probs probs'"
    then have p': "probs_ok probs'" and len': "LITERAL \<le> length probs'" using assms(2,4) by auto
    show "Option.bind (decode_distance (e_inp env) len probs' s') (\<lambda>(probs, d, e, s).
        new_distance env d e (l\<lparr>l_state := l_state l + K_NUM_STATES, l_len := len, l_probs := probs, l_rc := s\<rparr>)) =
      run_then (e_inp env) (dist_prog len) probs' s' (\<lambda>d probs s.
        apply_symbol env (SMatch len d) (l\<lparr>l_probs := probs, l_rc := s\<rparr>))"
      by (subst decode_distance_run [OF p' len']) (simp only: nd)
  qed
  also have "\<dots> = run_then (e_inp env) (bp_bind (len_prog LEN_CODER ps) (\<lambda>len. bp_bind (dist_prog len) (\<lambda>d. Ret (SMatch len d)))) probs s
      (\<lambda>sy probs s. apply_symbol env sy (l\<lparr>l_probs := probs, l_rc := s\<rparr>))"
    by (simp only: run_then_bind bp_run.simps bind.bind_lunit prod.case)
  finally show ?thesis .
qed

lemma decode_real_body_eq:
  assumes "lz_ok env l"
  shows "decode_real_body env l =
    run_then (e_inp env) (symbol_prog (sym_ctx env l)) (l_probs l) (l_rc l)
      (\<lambda>sy probs s. apply_symbol env sy (l\<lparr>l_probs := probs, l_rc := s\<rparr>))"
proof -
  note ctx = sym_ctx_ok [OF assms]
  have ps: "\<exists>k < 16. unat (c_pos_state (sym_ctx env l)) = 16 * k" and len: "LITERAL \<le> length (l_probs l)"
    using ctx by (auto simp: ctx_ok_def)
  have p: "probs_ok (l_probs l)" using assms by (simp add: lz_ok_def)
  have c: "c_state (sym_ctx env l) = l_state l"
    "c_pos_state (sym_ctx env l) = push_bit 4 (l_processed_pos l AND e_pb_mask env)" by (simp_all add: sym_ctx_def)
  define pst where "pst = push_bit 4 (l_processed_pos l AND e_pb_mask env)"
  let ?F = "\<lambda>sy probs s. apply_symbol env sy (l\<lparr>l_probs := probs, l_rc := s\<rparr>)"
  have rot: "l\<lparr>l_probs := probs, l_rc := s\<rparr> = rotate_reps 0 l\<lparr>l_probs := probs, l_rc := s\<rparr>"
    "l\<lparr>l_probs := probs, l_rc := s, l_rep1 := l_rep0 l, l_rep0 := l_rep1 l\<rparr> = rotate_reps 1 l\<lparr>l_probs := probs, l_rc := s\<rparr>"
    "l\<lparr>l_probs := probs, l_rc := s, l_rep2 := l_rep1 l, l_rep1 := l_rep0 l, l_rep0 := l_rep2 l\<rparr> =
      rotate_reps 2 l\<lparr>l_probs := probs, l_rc := s\<rparr>"
    "l\<lparr>l_probs := probs, l_rc := s, l_rep3 := l_rep2 l, l_rep2 := l_rep1 l, l_rep1 := l_rep0 l, l_rep0 := l_rep3 l\<rparr> =
      rotate_reps 3 l\<lparr>l_probs := probs, l_rc := s\<rparr>" for probs s
    by (simp_all add: rotate_reps_def)
  have rep: "rep_tail env pst (rotate_reps k l\<lparr>l_probs := probs, l_rc := s\<rparr>) =
      run_then (e_inp env) (rep_len_prog pst k) probs s ?F" if "same_table (l_probs l) probs" for probs s k
    using rep_tail_run [OF assms that ps len] by (simp add: c pst_def)
  have g2: "if_bit_0 (e_inp env) probs (IS_REP_G2 + unat (l_state l)) s
       (\<lambda>probs s. rep_tail env pst (rotate_reps 2 l\<lparr>l_probs := probs, l_rc := s\<rparr>))
       (\<lambda>probs s. rep_tail env pst (rotate_reps 3 l\<lparr>l_probs := probs, l_rc := s\<rparr>)) =
     run_then (e_inp env) (Bit (IS_REP_G2 + unat (l_state l)) (\<lambda>b. rep_len_prog pst (if b then 3 else 2))) probs s ?F"
    if "same_table (l_probs l) probs" for probs s
    by (rule if_bit_0_run) (use that in \<open>simp_all add: rep\<close>)
  have g1: "if_bit_0 (e_inp env) probs (IS_REP_G1 + unat (l_state l)) s
       (\<lambda>probs s. rep_tail env pst (rotate_reps 1 l\<lparr>l_probs := probs, l_rc := s\<rparr>))
       (\<lambda>probs s. if_bit_0 (e_inp env) probs (IS_REP_G2 + unat (l_state l)) s
         (\<lambda>probs s. rep_tail env pst (rotate_reps 2 l\<lparr>l_probs := probs, l_rc := s\<rparr>))
         (\<lambda>probs s. rep_tail env pst (rotate_reps 3 l\<lparr>l_probs := probs, l_rc := s\<rparr>))) =
     run_then (e_inp env) (Bit (IS_REP_G1 + unat (l_state l)) (\<lambda>b. if \<not> b then rep_len_prog pst 1
       else Bit (IS_REP_G2 + unat (l_state l)) (\<lambda>b. rep_len_prog pst (if b then 3 else 2)))) probs s ?F"
    if "same_table (l_probs l) probs" for probs s
    by (rule if_bit_0_run, use that in simp) (use that in \<open>simp_all only: rep g2 not_True_eq_False not_False_eq_True if_True if_False\<close>)
  have rep0: "rep_tail env pst (l\<lparr>l_probs := probs, l_rc := s\<rparr>) = run_then (e_inp env) (rep_len_prog pst 0) probs s ?F"
    if "same_table (l_probs l) probs" for probs s
    using rep [OF that, of s 0] by (simp only: rot(1) [symmetric])
  have g0: "if_bit_0 (e_inp env) probs (IS_REP0_LONG + unat (pst + l_state l)) s
       (\<lambda>probs s. short_rep env (l\<lparr>l_probs := probs, l_rc := s\<rparr>))
       (\<lambda>probs s. rep_tail env pst (l\<lparr>l_probs := probs, l_rc := s\<rparr>)) =
     run_then (e_inp env) (Bit (IS_REP0_LONG + unat (pst + l_state l)) (\<lambda>b. if \<not> b then Ret SShortRep else rep_len_prog pst 0))
       probs s ?F"
    if "same_table (l_probs l) probs" for probs s
    by (rule if_bit_0_run) (use that in \<open>simp_all add: rep0\<close>)
  note flags = not_True_eq_False not_False_eq_True if_True if_False
  show ?thesis
    unfolding decode_real_body_def symbol_prog_def Let_def c pst_def [symmetric] rot(2-4)
  proof (rule if_bit_0_run [OF p], goal_cases)
    case (1 probs1 s1)
    then show ?case unfolding flags by (rule decode_literal_run [OF assms])
  next
    case t1: (2 probs1 s1)
    show ?case unfolding flags
    proof (rule if_bit_0_run, goal_cases)
      case 1
      show ?case using t1 by simp
    next
      case (2 probs2 s2)
      then show ?case unfolding flags
        using match_tail_run [OF assms _ ps len] t1 by (simp only: c pst_def [symmetric])
    next
      case t2: (3 probs2 s2)
      show ?case unfolding flags
        by (rule if_bit_0_run, use t2 in simp) (use t1 t2 in \<open>simp_all only: g0 g1 flags\<close>)
    qed
  qed
qed
end
