(* ===== verification/LzmaWindow.thy ===== *)
theory LzmaWindow
  imports LzmaSymbol
begin

text \<open>
  The dictionary as what it stands for: the last \<open>dic_buf_size\<close> bytes produced. The interface
  \<open>history\<close> is what the copying code relies on (writing a byte shifts the history by one, a byte
  \<open>r\<close> back is the \<open>r\<close>-th from its end); the circular buffer of \<open>LzmaDec::dic\<close> provides it, and the
  copy loops of \<open>lzma_dec_decode_real\<close> and \<open>lzma_dec_write_rem\<close> are shown to be the one textbook
  copy, byte by byte from \<open>r\<close> back, overlap included.
\<close>

subsection \<open>The history and its interface\<close>

definition hist_push :: "bytes \<Rightarrow> u8 \<Rightarrow> bytes" where
  "hist_push w b = tl w @ [b]"

definition hist_back :: "bytes \<Rightarrow> nat \<Rightarrow> u8" where
  "hist_back w r = w ! (length w - r)"

primrec wcopy :: "nat \<Rightarrow> nat \<Rightarrow> bytes \<Rightarrow> bytes" where
  "wcopy 0 r w = w"
| "wcopy (Suc n) r w = wcopy n r (hist_push w (hist_back w r))"

lemma length_hist_push [simp]: "w \<noteq> [] \<Longrightarrow> length (hist_push w b) = length w"
  by (simp add: hist_push_def)

lemma length_wcopy [simp]: "w \<noteq> [] \<Longrightarrow> length (wcopy n r w) = length w"
proof (induction n arbitrary: w)
  case (Suc n)
  then show ?case by (simp add: hist_push_def)
qed simp

text \<open>The textbook copy over any buffer that reads back and writes.\<close>

primrec copy_by :: "('d \<Rightarrow> nat \<Rightarrow> nat \<Rightarrow> u8 option) \<Rightarrow> ('d \<Rightarrow> nat \<Rightarrow> u8 \<Rightarrow> 'd option) \<Rightarrow> nat \<Rightarrow> nat \<Rightarrow> 'd \<Rightarrow> nat \<Rightarrow> 'd option" where
  "copy_by rd wr 0 r d pos = Some d"
| "copy_by rd wr (Suc n) r d pos = do {
     b \<leftarrow> rd d pos r;
     d \<leftarrow> wr d pos b;
     copy_by rd wr n r d (Suc pos) }"

locale history =
  fixes hist :: "'d \<Rightarrow> nat \<Rightarrow> bytes"
    and cap :: "'d \<Rightarrow> nat"
    and rd :: "'d \<Rightarrow> nat \<Rightarrow> nat \<Rightarrow> u8 option"
    and wr :: "'d \<Rightarrow> nat \<Rightarrow> u8 \<Rightarrow> 'd option"
  assumes hist_length: "pos \<le> cap d \<Longrightarrow> length (hist d pos) = cap d"
    and wr_hist: "pos < cap d \<Longrightarrow> \<exists>d'. wr d pos b = Some d' \<and> cap d' = cap d \<and> hist d' (Suc pos) = hist_push (hist d pos) b"
    and rd_hist: "pos \<le> cap d \<Longrightarrow> 0 < r \<Longrightarrow> r \<le> cap d \<Longrightarrow> rd d pos r = Some (hist_back (hist d pos) r)"
begin

lemma copy_by_hist:
  assumes "pos + n \<le> cap d" "0 < r" "r \<le> cap d"
  shows "\<exists>d'. copy_by rd wr n r d pos = Some d' \<and> cap d' = cap d \<and> hist d' (pos + n) = wcopy n r (hist d pos)"
  using assms
proof (induction n arbitrary: d pos)
  case 0
  then show ?case by simp
next
  case (Suc n)
  have rd: "rd d pos r = Some (hist_back (hist d pos) r)" using Suc.prems by (intro rd_hist) auto
  obtain d1 where wr: "wr d pos (hist_back (hist d pos) r) = Some d1" "cap d1 = cap d"
      "hist d1 (Suc pos) = hist_push (hist d pos) (hist_back (hist d pos) r)"
    using wr_hist [of pos d "hist_back (hist d pos) r"] Suc.prems by auto
  obtain d2 where "copy_by rd wr n r d1 (Suc pos) = Some d2" "cap d2 = cap d1"
      "hist d2 (Suc pos + n) = wcopy n r (hist d1 (Suc pos))"
    using Suc.IH [of "Suc pos" d1] Suc.prems wr(2) by auto
  then show ?case using rd wr by simp
qed

end

subsection \<open>The circular buffer provides it\<close>

definition window :: "bytes \<Rightarrow> nat \<Rightarrow> bytes" where
  "window d pos = drop pos d @ take pos d"

definition dic_read :: "bytes \<Rightarrow> nat \<Rightarrow> nat \<Rightarrow> u8 option" where
  "dic_read d pos r = get_at d (if pos < r then pos + length d - r else pos - r)"

lemma length_window [simp]: "length (window d pos) = length d"
  by (simp add: window_def)

lemma window_set:
  assumes "pos < length d"
  shows "window (d[pos := b]) (Suc pos) = hist_push (window d pos) b"
proof -
  have "window d pos = d ! pos # drop (Suc pos) d @ take pos d"
    using assms by (simp add: window_def Cons_nth_drop_Suc)
  then show ?thesis using assms by (simp add: window_def hist_push_def take_Suc_conv_app_nth)
qed

lemma window_back:
  assumes "pos \<le> length d" "0 < r" "r \<le> length d"
  shows "hist_back (window d pos) r = d ! (if pos < r then pos + length d - r else pos - r)"
  using assms by (auto simp: hist_back_def window_def nth_append)

lemma window_wrap: "window d (length d) = window d 0"
  by (simp add: window_def)

interpretation ring: history window length dic_read set_at
proof (unfold_locales, goal_cases)
  case (3 pos d r)
  then show ?case by (auto simp: dic_read_def window_back)
qed (auto simp: window_set)


subsection \<open>The copy loops of the source\<close>

abbreviation ring_copy :: "nat \<Rightarrow> nat \<Rightarrow> bytes \<Rightarrow> nat \<Rightarrow> bytes option" where
  "ring_copy \<equiv> copy_by dic_read set_at"

definition ring_index :: "nat \<Rightarrow> nat \<Rightarrow> nat \<Rightarrow> nat" where
  "ring_index buf_size pos r = (if pos < r then pos + buf_size - r else pos - r)"

lemma dic_back_ring:
  "rep_ok env r \<Longrightarrow> pos \<le> e_dic_buf_size env \<Longrightarrow> e_dic_buf_size env < 2 ^ 63 \<Longrightarrow>
   dic_back (e_dic_buf_size env) pos r = ring_index (e_dic_buf_size env) pos (unat r)"
  by (simp add: dic_back_eq(1) ring_index_def)

lemma copy_fwd_eq:
  assumes "0 < n" "0 < r" "r \<le> length d" "ring_index (length d) dpos r + n \<le> length d"
  shows "copy_fwd n d dpos (int (ring_index (length d) dpos r) - int dpos) = ring_copy n r d dpos"
  using assms
proof (induction n arbitrary: d dpos)
  case (Suc n)
  let ?pos = "ring_index (length d) dpos r"
  have rd: "dic_read d dpos r = Some (d ! ?pos)" using Suc.prems by (simp add: dic_read_def ring_index_def)
  show ?case
  proof (cases "n = 0 \<or> length d \<le> dpos")
    case True
    then show ?thesis using Suc.prems rd by auto
  next
    case False
    have next_pos: "ring_index (length d) (Suc dpos) r = Suc ?pos"
      using Suc.prems False by (auto simp: ring_index_def)
    have "copy_fwd n (d[dpos := d ! ?pos]) (Suc dpos) (int (Suc ?pos) - int (Suc dpos)) =
        ring_copy n r (d[dpos := d ! ?pos]) (Suc dpos)"
      using Suc.IH [of "d[dpos := d ! ?pos]" "Suc dpos"] Suc.prems False by (simp add: next_pos)
    then show ?thesis using Suc.prems False rd by simp
  qed
qed simp

lemma copy_wrap_eq:
  assumes "0 < n" "0 < r" "r \<le> length d" "dpos + n \<le> length d"
  shows "copy_wrap n d (length d) dpos (ring_index (length d) dpos r) =
    map_option (\<lambda>d'. (d', dpos + n)) (ring_copy n r d dpos)"
  using assms
proof (induction n arbitrary: d dpos)
  case (Suc n)
  let ?pos = "ring_index (length d) dpos r"
  have lt: "?pos < length d" using Suc.prems by (auto simp: ring_index_def)
  then have rd: "dic_read d dpos r = Some (d ! ?pos)" by (simp add: dic_read_def ring_index_def)
  show ?case
  proof (cases "n = 0")
    case True
    then show ?thesis using Suc.prems rd lt by auto
  next
    case False
    have next_pos: "ring_index (length d) (Suc dpos) r = (if ?pos + 1 = length d then 0 else ?pos + 1)"
      using Suc.prems False by (auto simp: ring_index_def)
    show ?thesis
      using Suc.IH [of "d[dpos := d ! ?pos]" "Suc dpos"] Suc.prems False rd lt
      by (simp add: next_pos [simplified])
  qed
qed simp

subsection \<open>The abstract decoder\<close>

text \<open>What a symbol means: the history, the four recent distances, the state and the position.\<close>

record spec =
  s_win :: bytes
  s_reps :: "u32 \<times> u32 \<times> u32 \<times> u32"
  s_state :: u32
  s_pos :: u32

fun spec_rotate :: "nat \<Rightarrow> u32 \<times> u32 \<times> u32 \<times> u32 \<Rightarrow> u32 \<times> u32 \<times> u32 \<times> u32" where
  "spec_rotate k (r0, r1, r2, r3) =
     (if k = 0 then (r0, r1, r2, r3) else if k = 1 then (r1, r0, r2, r3)
      else if k = 2 then (r2, r0, r1, r3) else (r3, r0, r1, r2))"

definition spec_copy :: "nat \<Rightarrow> spec \<Rightarrow> spec" where
  "spec_copy n \<sigma> = \<sigma>\<lparr>s_win := wcopy n (unat (fst (s_reps \<sigma>))) (s_win \<sigma>), s_pos := s_pos \<sigma> + of_nat n\<rparr>"

text \<open>\<open>room\<close> is how much output the caller takes now: a match longer than it is cut there.\<close>

fun sym_count :: "nat \<Rightarrow> symb \<Rightarrow> nat" where
  "sym_count room (SLit _) = 1"
| "sym_count room SShortRep = 1"
| "sym_count room (SRep _ len) = min room (unat len + 2)"
| "sym_count room (SMatch len _) = min room (unat len + 2)"

fun sym_size :: "symb \<Rightarrow> nat" where
  "sym_size (SLit _) = 1"
| "sym_size SShortRep = 1"
| "sym_size (SRep _ len) = unat len + 2"
| "sym_size (SMatch len _) = unat len + 2"

fun lz_spec :: "nat \<Rightarrow> symb \<Rightarrow> spec \<Rightarrow> spec" where
  "lz_spec room (SLit x) \<sigma> = \<sigma>\<lparr>s_win := hist_push (s_win \<sigma>) (ucast x), s_state := lit_state (s_state \<sigma>), s_pos := s_pos \<sigma> + 1\<rparr>"
| "lz_spec room SShortRep \<sigma> = spec_copy 1 (\<sigma>\<lparr>s_state := (if s_state \<sigma> < 7 then 9 else 11)\<rparr>)"
| "lz_spec room (SRep k len) \<sigma> =
     spec_copy (min room (unat len + 2)) (\<sigma>\<lparr>s_reps := spec_rotate k (s_reps \<sigma>), s_state := (if s_state \<sigma> < 7 then 8 else 11)\<rparr>)"
| "lz_spec room (SMatch len d) \<sigma> =
     spec_copy (min room (unat len + 2)) (case s_reps \<sigma> of (r0, r1, r2, r3) \<Rightarrow>
       \<sigma>\<lparr>s_reps := (d + 1, r0, r1, r2), s_state := (if s_state \<sigma> < 7 then 7 else 10)\<rparr>)"

definition lz_abs :: "lz \<Rightarrow> spec" where
  "lz_abs l = \<lparr>s_win = window (l_dic l) (l_dic_pos l), s_reps = (l_rep0 l, l_rep1 l, l_rep2 l, l_rep3 l),
     s_state = l_state l, s_pos = l_processed_pos l\<rparr>"

subsection \<open>Every symbol keeps the invariant and does what it means\<close>

definition dist_ok :: "lzenv \<Rightarrow> nat \<Rightarrow> lz \<Rightarrow> bool" where
  "dist_ok env D l \<longleftrightarrow> D < 2 ^ 32 \<and> D \<le> e_dic_buf_size env \<and>
     (if e_check_dic_size env = 0 then unat (l_processed_pos l) + (e_limit env - l_dic_pos l) \<le> D
      else unat (e_check_dic_size env) \<le> D)"

definition lz_inv :: "lzenv \<Rightarrow> nat \<Rightarrow> lz \<Rightarrow> bool" where
  "lz_inv env D l \<longleftrightarrow> lz_ok env l \<and> dist_ok env D l"

lemma copy_match_full:
  assumes "l_dic_pos l = e_limit env"
  shows "copy_match env l = Some (Outer (l\<lparr>l_len := l_len l + 2\<rparr>))"
  using assms by (simp add: copy_match_def Let_def K_MATCH_MIN_LEN_def)

lemma copy_match_step:
  assumes "lz_ok env l" "l_dic_pos l < e_limit env" "unat (l_len l) < 272"
  defines "n \<equiv> min (e_limit env - l_dic_pos l) (unat (l_len l) + 2)"
  shows "\<exists>d. copy_match env l = Some (Body (l\<lparr>l_processed_pos := l_processed_pos l + of_nat n,
        l_len := l_len l + 2 - of_nat n, l_dic := d, l_dic_pos := l_dic_pos l + n\<rparr>)) \<and>
      length d = length (l_dic l) \<and>
      window d (l_dic_pos l + n) = wcopy n (unat (l_rep0 l)) (window (l_dic l) (l_dic_pos l))"
proof -
  have ok: "length (l_dic l) = e_dic_buf_size env" "rep_ok env (l_rep0 l)" "e_limit env \<le> e_dic_buf_size env"
    "e_dic_buf_size env < 2 ^ 63"
    using assms(1) by (auto simp: lz_ok_def env_ok_def)
  have r: "0 < unat (l_rep0 l)" "unat (l_rep0 l) \<le> length (l_dic l)" using ok by (auto simp: rep_ok_def)
  have len: "unat (l_len l + 2) = unat (l_len l) + 2" using assms(3) by (simp add: unat_word_ariths)
  have n: "0 < n" "l_dic_pos l + n \<le> length (l_dic l)" using assms(2) ok by (auto simp: n_def)
  have cur: "cur_len (e_limit env - l_dic_pos l) (l_len l + 2) = n"
    by (auto simp: cur_len_def n_def len)
  let ?pos = "ring_index (length (l_dic l)) (l_dic_pos l) (unat (l_rep0 l))"
  have pos: "dic_back (e_dic_buf_size env) (l_dic_pos l) (l_rep0 l) = ?pos"
    using ok assms(2) dic_back_ring [of env "l_rep0 l" "l_dic_pos l"] by simp
  have "?pos < length (l_dic l)" using r assms(2) ok by (auto simp: ring_index_def)
  then have pos_lt: "?pos < e_dic_buf_size env" using ok(1) by simp
  obtain d where d: "ring_copy n (unat (l_rep0 l)) (l_dic l) (l_dic_pos l) = Some d" "length d = length (l_dic l)"
      "window d (l_dic_pos l + n) = wcopy n (unat (l_rep0 l)) (window (l_dic l) (l_dic_pos l))"
    using ring.copy_by_hist [OF n(2) r] by auto
  have fwd: "copy_fwd n (l_dic l) (l_dic_pos l) (int ?pos - int (l_dic_pos l)) = Some d"
    if "n \<le> e_dic_buf_size env - ?pos"
    using copy_fwd_eq [OF n(1) r, of "l_dic_pos l"] that pos_lt ok(1) d(1) by simp
  have wrap: "copy_wrap n (l_dic l) (e_dic_buf_size env) (l_dic_pos l) ?pos = Some (d, l_dic_pos l + n)"
    using copy_wrap_eq [OF n(1) r n(2)] ok(1) d(1) by simp
  have "copy_match env l = Some (Body (l\<lparr>l_processed_pos := l_processed_pos l + of_nat n,
        l_len := l_len l + 2 - of_nat n, l_dic := d, l_dic_pos := l_dic_pos l + n\<rparr>))"
    using assms(2) pos_lt fwd wrap unfolding copy_match_def Let_def K_MATCH_MIN_LEN_def
    by (simp add: cur pos)
  with d show ?thesis by blast
qed

text \<open>What the tree returns: lengths below 272.\<close>

fun sym_ok :: "symb \<Rightarrow> bool" where
  "sym_ok (SRep k len) = (unat len < 272)"
| "sym_ok (SMatch len d) = (unat len < 272)"
| "sym_ok _ = True"

lemma symbol_prog_post:
  assumes "ctx_ok n c"
  shows "bp_post sym_ok (symbol_prog c)"
proof -
  have ps: "\<exists>k < 16. unat (c_pos_state c) = 16 * k" using assms by (auto simp: ctx_ok_def)
  have r: "bp_post sym_ok (rep_len_prog (c_pos_state c) k)" for k
    unfolding rep_len_prog_def by (rule bp_post_bind [OF len_prog_range(1) [OF ps]]) simp
  have m: "bp_post sym_ok (bp_bind (len_prog LEN_CODER (c_pos_state c)) (\<lambda>len. bp_bind (dist_prog len) (\<lambda>d. Ret (SMatch len d))))"
    by (rule bp_post_bind [OF len_prog_range(1) [OF ps]], rule bp_post_bind [OF bp_post_True]) simp
  have l: "bp_post sym_ok (bp_bind (lit_prog c) (\<lambda>x. Ret (SLit x)))"
    by (rule bp_post_bind [OF bp_post_True]) simp
  show ?thesis using r m l by (simp add: symbol_prog_def Let_def)
qed

definition same_coder :: "lz \<Rightarrow> lz \<Rightarrow> bool" where
  "same_coder l l' \<longleftrightarrow> l_probs l' = l_probs l \<and> l_rc l' = l_rc l"

text \<open>The three ways a match leaves the loop.\<close>

definition outer_ok :: "lzenv \<Rightarrow> nat \<Rightarrow> symb \<Rightarrow> lz \<Rightarrow> lz \<Rightarrow> bool" where
  "outer_ok env D sy l l' \<longleftrightarrow> (\<exists>len d. sy = SMatch len d \<and>
     (d = -1 \<and> l' = l\<lparr>l_len := K_MATCH_SPEC_LEN_START\<rparr>
      \<or> d \<noteq> -1 \<and> (if e_check_dic_size env = 0 then l_processed_pos l else e_check_dic_size env) \<le> d \<and>
        l' = push_rep d l\<lparr>l_len := len + (K_MATCH_SPEC_LEN_ERROR_DATA + K_MATCH_MIN_LEN)\<rparr>
      \<or> d < (if e_check_dic_size env = 0 then l_processed_pos l else e_check_dic_size env) \<and>
        l_dic_pos l = e_limit env \<and> l' = push_rep d l\<lparr>l_len := len + 2\<rparr> \<and> lz_inv env D l'))"

definition body_ok :: "lzenv \<Rightarrow> nat \<Rightarrow> symb \<Rightarrow> lz \<Rightarrow> lz \<Rightarrow> bool" where
  "body_ok env D sy l l' \<longleftrightarrow> (let room = e_limit env - l_dic_pos l in
     lz_inv env D l' \<and> same_coder l l' \<and> lz_abs l' = lz_spec room sy (lz_abs l) \<and>
     l_dic_pos l' = l_dic_pos l + sym_count room sy \<and> 0 < sym_count room sy \<and>
     unat (l_len l') = (case sy of SLit _ \<Rightarrow> unat (l_len l) | SShortRep \<Rightarrow> unat (l_len l)
       | _ \<Rightarrow> sym_size sy - sym_count room sy))"

lemma lz_inv_advance:
  assumes "lz_inv env D l" "n \<le> e_limit env - l_dic_pos l" "length d = length (l_dic l)"
    and "l_probs l' = l_probs l" "unat (l_state l') < 12" "rep_ok env (l_rep0 l')" "rep_ok env (l_rep1 l')"
    and "rep_ok env (l_rep2 l')" "rep_ok env (l_rep3 l')" "l_dic l' = d" "l_dic_pos l' = l_dic_pos l + n"
    and "l_processed_pos l' = l_processed_pos l + of_nat n"
  shows "lz_inv env D l'"
proof -
  have "unat (l_processed_pos l + of_nat n) + (e_limit env - (l_dic_pos l + n)) \<le> D"
    if "e_check_dic_size env = 0" "dist_ok env D l"
  proof -
    have "unat (l_processed_pos l) + n \<le> D" "D < 2 ^ 32" using that assms(2) by (auto simp: dist_ok_def)
    then have "unat (l_processed_pos l + of_nat n) = unat (l_processed_pos l) + n"
      by (simp add: unat_word_ariths unat_of_nat)
    then show ?thesis using that assms(2) by (auto simp: dist_ok_def)
  qed
  then show ?thesis using assms by (auto simp: lz_inv_def lz_ok_def dist_ok_def)
qed

lemma lit_state_lt: "unat st < 12 \<Longrightarrow> unat (lit_state st) < 12"
  by (auto simp: lit_state_def word_less_nat_alt unat_sub word_le_nat_alt)

lemma apply_literal:
  assumes "lz_inv env D l" "l_dic_pos l < e_limit env"
  shows "\<exists>l'. apply_symbol env (SLit x) l = Some (Body l') \<and> body_ok env D (SLit x) l l'"
proof -
  have pos: "l_dic_pos l < length (l_dic l)" using assms by (auto simp: lz_inv_def lz_ok_def env_ok_def)
  let ?l' = "l\<lparr>l_processed_pos := l_processed_pos l + 1, l_state := lit_state (l_state l),
    l_dic := (l_dic l)[l_dic_pos l := ucast x], l_dic_pos := l_dic_pos l + 1\<rparr>"
  have "apply_symbol env (SLit x) l = Some (Body ?l')"
    using pos by (simp add: put_literal_def)
  moreover have "lz_inv env D ?l'"
    by (rule lz_inv_advance [OF assms(1), where n = 1 and d = "(l_dic l)[l_dic_pos l := ucast x]"])
      (use assms lit_state_lt in \<open>auto simp: lz_inv_def lz_ok_def\<close>)
  ultimately show ?thesis
    using pos assms(2) by (auto simp: body_ok_def Let_def same_coder_def lz_abs_def window_set)
qed

lemma apply_short_rep:
  assumes "lz_inv env D l" "l_dic_pos l < e_limit env"
  shows "\<exists>l'. apply_symbol env SShortRep l = Some (Body l') \<and> body_ok env D SShortRep l l'"
proof -
  have ok: "lz_ok env l" using assms(1) by (simp add: lz_inv_def)
  have pos: "l_dic_pos l < length (l_dic l)" using assms by (auto simp: lz_inv_def lz_ok_def env_ok_def)
  let ?b = "l_dic l ! dic_back (e_dic_buf_size env) (l_dic_pos l) (l_rep0 l)"
  let ?l' = "l\<lparr>l_dic := (l_dic l)[l_dic_pos l := ?b], l_dic_pos := l_dic_pos l + 1,
    l_processed_pos := l_processed_pos l + 1, l_state := (if l_state l < 7 then 9 else 11)\<rparr>"
  have b: "get_at (l_dic l) (dic_back (e_dic_buf_size env) (l_dic_pos l) (l_rep0 l)) = Some ?b"
    using match_byte_Some [OF ok] by (simp add: sym_ctx_def)
  have r: "0 < unat (l_rep0 l)" "unat (l_rep0 l) \<le> length (l_dic l)" using ok by (auto simp: lz_ok_def rep_ok_def)
  have b2: "?b = hist_back (window (l_dic l) (l_dic_pos l)) (unat (l_rep0 l))"
    using window_back [of "l_dic_pos l" "l_dic l" "unat (l_rep0 l)"] r pos ok dic_back_eq(1) [of env "l_rep0 l" "l_dic_pos l"]
    by (simp add: lz_ok_def env_ok_def)
  have "apply_symbol env SShortRep l = Some (Body ?l')"
    using pos b by (simp add: short_rep_def K_NUM_LIT_STATES_def del: get_at_Some_iff)
  moreover have "lz_inv env D ?l'"
    by (rule lz_inv_advance [OF assms(1), where n = 1 and d = "(l_dic l)[l_dic_pos l := ?b]"])
      (use assms in \<open>auto simp: lz_inv_def lz_ok_def\<close>)
  ultimately show ?thesis
    using pos assms(2) b2 by (auto simp: body_ok_def Let_def same_coder_def lz_abs_def window_set spec_copy_def)
qed

lemma copy_match_body:
  assumes "lz_inv env D l0" "l_dic_pos l0 < e_limit env" "unat len < 272"
    and "l = l1\<lparr>l_len := len\<rparr>" "l_dic l1 = l_dic l0" "l_dic_pos l1 = l_dic_pos l0" "l_processed_pos l1 = l_processed_pos l0"
    and "same_coder l0 l1" "unat (l_state l1) < 12"
    and "rep_ok env (l_rep0 l1)" "rep_ok env (l_rep1 l1)" "rep_ok env (l_rep2 l1)" "rep_ok env (l_rep3 l1)"
  defines "n \<equiv> min (e_limit env - l_dic_pos l0) (unat len + 2)"
  shows "\<exists>l'. copy_match env l = Some (Body l') \<and> lz_inv env D l' \<and> same_coder l0 l' \<and>
    lz_abs l' = spec_copy n (lz_abs l1) \<and> l_dic_pos l' = l_dic_pos l0 + n \<and> 0 < n \<and> unat (l_len l') = unat len + 2 - n"
proof -
  have ok: "lz_ok env l"
    using assms(1,4-13) by (auto simp: lz_inv_def lz_ok_def same_coder_def)
  obtain d where d: "copy_match env l = Some (Body (l\<lparr>l_processed_pos := l_processed_pos l + of_nat n,
        l_len := l_len l + 2 - of_nat n, l_dic := d, l_dic_pos := l_dic_pos l + n\<rparr>))"
      "length d = length (l_dic l)"
      "window d (l_dic_pos l + n) = wcopy n (unat (l_rep0 l)) (window (l_dic l) (l_dic_pos l))"
    using copy_match_step [OF ok] assms(2-4,6) unfolding n_def by auto
  let ?l' = "l\<lparr>l_processed_pos := l_processed_pos l + of_nat n,
        l_len := l_len l + 2 - of_nat n, l_dic := d, l_dic_pos := l_dic_pos l + n\<rparr>"
  have n: "n \<le> e_limit env - l_dic_pos l0" "0 < n" "n \<le> unat len + 2" using assms(2) by (auto simp: n_def)
  have inv: "lz_inv env D ?l'"
    by (rule lz_inv_advance [OF assms(1) n(1), where d = d]) (use assms d in \<open>auto simp: same_coder_def\<close>)
  have len: "unat (len + 2) = unat len + 2" "unat (of_nat n :: u32) = n"
    using assms(3) n(3) by (auto simp: unat_word_ariths unat_of_nat)
  then have "unat (len + 2 - of_nat n) = unat len + 2 - n" using n(3) by (simp add: unat_sub word_le_nat_alt)
  then show ?thesis
    using d inv n assms(4-8) by (auto simp: same_coder_def lz_abs_def spec_copy_def)
qed

lemma apply_rep:
  assumes "lz_inv env D l" "l_dic_pos l < e_limit env" "unat len < 272"
  shows "\<exists>l'. apply_symbol env (SRep k len) l = Some (Body l') \<and> body_ok env D (SRep k len) l l'"
proof -
  let ?l1 = "rotate_reps k l\<lparr>l_state := (if l_state l < 7 then 8 else 11)\<rparr>"
  have f: "l_dic ?l1 = l_dic l" "l_dic_pos ?l1 = l_dic_pos l" "l_processed_pos ?l1 = l_processed_pos l" "same_coder l ?l1"
    "unat (l_state ?l1) < 12" "rep_ok env (l_rep0 ?l1)" "rep_ok env (l_rep1 ?l1)" "rep_ok env (l_rep2 ?l1)" "rep_ok env (l_rep3 ?l1)"
    using assms(1) by (auto simp: rotate_reps_def same_coder_def lz_inv_def lz_ok_def)
  have "lz_abs ?l1 = lz_abs l\<lparr>s_reps := spec_rotate k (s_reps (lz_abs l)), s_state := (if s_state (lz_abs l) < 7 then 8 else 11)\<rparr>"
    by (auto simp: lz_abs_def rotate_reps_def)
  then show ?thesis
    using copy_match_body [OF assms refl f] by (auto simp: body_ok_def Let_def)
qed

lemma rep_ok_new:
  assumes "dist_ok env D l" "l_dic_pos l \<le> e_limit env"
    and "d < (if e_check_dic_size env = 0 then l_processed_pos l else e_check_dic_size env)"
  shows "rep_ok env (d + 1)"
proof -
  have "unat d < D" "D < 2 ^ 32" "D \<le> e_dic_buf_size env"
    using assms by (auto simp: dist_ok_def word_less_nat_alt split: if_splits)
  then show ?thesis by (simp add: rep_ok_def unat_word_ariths)
qed

lemma apply_match:
  assumes "lz_inv env D l" "unat len < 272"
  shows "(\<exists>l'. apply_symbol env (SMatch len d) l = Some (Outer l') \<and> outer_ok env D (SMatch len d) l l') \<or>
    l_dic_pos l < e_limit env \<and> d \<noteq> -1 \<and>
    d < (if e_check_dic_size env = 0 then l_processed_pos l else e_check_dic_size env) \<and>
    (\<exists>l'. apply_symbol env (SMatch len d) l = Some (Body l') \<and> body_ok env D (SMatch len d) l l')"
proof -
  let ?bd = "if e_check_dic_size env = 0 then l_processed_pos l else e_check_dic_size env"
  consider "d = -1" | "d \<noteq> -1" "?bd \<le> d" | "d < ?bd" "l_dic_pos l = e_limit env" | "d < ?bd" "l_dic_pos l < e_limit env"
    using assms(1) by (fastforce simp: lz_inv_def lz_ok_def)
  then show ?thesis
  proof cases
    case 1
    then show ?thesis by (auto simp: outer_ok_def)
  next
    case 2
    then show ?thesis by (auto simp: outer_ok_def)
  next
    case 3
    then have ne: "d \<noteq> -1" using word_order.extremum [of ?bd] by auto
    have "rep_ok env (d + 1)" using assms(1) 3 by (intro rep_ok_new [of _ D l]) (auto simp: lz_inv_def lz_ok_def)
    then have "lz_inv env D (push_rep d l\<lparr>l_len := len + 2\<rparr>)"
      using assms(1) by (auto simp: lz_inv_def lz_ok_def dist_ok_def push_rep_def)
    moreover have "copy_match env (push_rep d l\<lparr>l_len := len\<rparr>) = Some (Outer (push_rep d l\<lparr>l_len := len + 2\<rparr>))"
      using 3 copy_match_full [of "push_rep d l\<lparr>l_len := len\<rparr>" env] by (simp add: push_rep_def)
    ultimately show ?thesis using 3 ne by (auto simp: outer_ok_def)
  next
    case 4
    then have ne: "d \<noteq> -1" using word_order.extremum [of ?bd] by auto
    have r: "rep_ok env (d + 1)" using assms(1) 4 by (intro rep_ok_new [of _ D l]) (auto simp: lz_inv_def lz_ok_def)
    let ?l1 = "push_rep d l"
    have f: "l_dic ?l1 = l_dic l" "l_dic_pos ?l1 = l_dic_pos l" "l_processed_pos ?l1 = l_processed_pos l" "same_coder l ?l1"
      "unat (l_state ?l1) < 12" "rep_ok env (l_rep0 ?l1)" "rep_ok env (l_rep1 ?l1)" "rep_ok env (l_rep2 ?l1)" "rep_ok env (l_rep3 ?l1)"
      using assms(1) r by (auto simp: push_rep_def same_coder_def lz_inv_def lz_ok_def)
    have a: "lz_abs ?l1 = (case s_reps (lz_abs l) of (r0, r1, r2, r3) \<Rightarrow>
       lz_abs l\<lparr>s_reps := (d + 1, r0, r1, r2), s_state := (if s_state (lz_abs l) < 7 then 7 else 10)\<rparr>)"
      by (auto simp: lz_abs_def push_rep_def)
    have "apply_symbol env (SMatch len d) l = copy_match env (push_rep d l\<lparr>l_len := len\<rparr>)"
      using 4 ne by auto
    then show ?thesis
      using copy_match_body [OF assms(1) 4(2) assms(2) refl f] 4 ne a by (auto simp: body_ok_def Let_def)
  qed
qed

text \<open>One symbol: in bounds, in the invariant, and with the meaning of the abstract decoder. A full
  output window is met only by a match.\<close>

lemma apply_symbol_step:
  assumes "lz_inv env D l" "sym_ok sy" "l_dic_pos l < e_limit env \<or> (\<exists>len d. sy = SMatch len d)"
  shows "\<exists>f. apply_symbol env sy l = Some f \<and>
    (case f of Body l' \<Rightarrow> body_ok env D sy l l' | Outer l' \<Rightarrow> outer_ok env D sy l l')"
proof (cases sy)
  case (SMatch len d)
  then show ?thesis using apply_match [OF assms(1), of len d] assms(2) by auto
next
  case (SLit x)
  then show ?thesis using apply_literal [OF assms(1), of x] assms(3) by auto
next
  case SShortRep
  then show ?thesis using apply_short_rep [OF assms(1)] assms(3) by auto
next
  case (SRep k len)
  then show ?thesis using apply_rep [OF assms(1), of len k] assms(2,3) by auto
qed

end
