(* ===== verification/LzmaLoop.thy ===== *)
theory LzmaLoop
  imports LzmaWindow
begin

text \<open>
  The symbol loop of \<open>lzma_dec_decode_real\<close> as a whole: it never faults and always ends while the
  caller keeps the margin the source documents (\<open>buf_limit + LZMA_REQUIRED_INPUT_MAX\<close> readable
  bytes), or while the one symbol it decodes is known to fit; it keeps the decoder's invariant; and
  what it leaves in the dictionary is a run of the abstract decoder.
\<close>

subsection \<open>The abstract decoder reads its context from the history\<close>

definition spec_ctx :: "lzenv \<Rightarrow> spec \<Rightarrow> sctx" where
  "spec_ctx env \<sigma> =
     \<lparr>c_state = s_state \<sigma>, c_pos_state = push_bit 4 (s_pos \<sigma> AND e_pb_mask env),
      c_lit = LITERAL + (if s_pos \<sigma> \<noteq> 0 \<or> e_check_dic_size env \<noteq> 0
        then unat (3 * push_bit (e_lc env) ((push_bit 8 (s_pos \<sigma>) + ucast (hist_back (s_win \<sigma>) 1)) AND e_lp_mask env))
        else 0),
      c_match = hist_back (s_win \<sigma>) (unat (fst (s_reps \<sigma>)))\<rparr>"

lemma sym_ctx_abs:
  assumes "lz_ok env l"
  shows "sym_ctx env l = spec_ctx env (lz_abs l)"
proof -
  have len: "length (l_dic l) = e_dic_buf_size env" "l_dic_pos l \<le> e_dic_buf_size env" "0 < e_dic_buf_size env"
    "e_dic_buf_size env < 2 ^ 63" "rep_ok env (l_rep0 l)"
    using assms by (auto simp: lz_ok_def env_ok_def)
  have "l_dic l ! ((if l_dic_pos l = 0 then e_dic_buf_size env else l_dic_pos l) - 1) = hist_back (window (l_dic l) (l_dic_pos l)) 1"
    using window_back [of "l_dic_pos l" "l_dic l" 1] len by auto
  moreover have "l_dic l ! dic_back (e_dic_buf_size env) (l_dic_pos l) (l_rep0 l) =
      hist_back (window (l_dic l) (l_dic_pos l)) (unat (l_rep0 l))"
    using window_back [of "l_dic_pos l" "l_dic l" "unat (l_rep0 l)"] len dic_back_eq(1) [OF len(5,2,4)]
    by (simp add: rep_ok_def)
  ultimately show ?thesis by (simp add: sym_ctx_def spec_ctx_def lz_abs_def)
qed

text \<open>A distance is admissible when it reaches into what has been produced.\<close>

fun sym_fits :: "lzenv \<Rightarrow> spec \<Rightarrow> symb \<Rightarrow> bool" where
  "sym_fits env \<sigma> (SMatch len d) = (d < (if e_check_dic_size env = 0 then s_pos \<sigma> else e_check_dic_size env))"
| "sym_fits env \<sigma> _ = True"

inductive decodes ::
  "lzenv \<Rightarrow> nat \<Rightarrow> spec \<Rightarrow> u16 list \<Rightarrow> rc \<Rightarrow> nat \<Rightarrow> spec \<Rightarrow> u16 list \<Rightarrow> rc \<Rightarrow> bool" for env where
  decodes_done: "decodes env room \<sigma> probs s room \<sigma> probs s"
| decodes_sym: "\<lbrakk>0 < room; bp_run (e_inp env) (symbol_prog (spec_ctx env \<sigma>)) probs s = Some (sy, probs1, s1);
     sym_fits env \<sigma> sy;
     decodes env (room - sym_count room sy) (lz_spec room sy \<sigma>) probs1 s1 room' \<sigma>' probs' s'\<rbrakk>
   \<Longrightarrow> decodes env room \<sigma> probs s room' \<sigma>' probs' s'"

subsection \<open>One turn\<close>

definition with_coder :: "u16 list \<Rightarrow> rc \<Rightarrow> lz \<Rightarrow> lz" where
  "with_coder probs s l = l\<lparr>l_probs := probs, l_rc := s\<rparr>"

lemma with_coder_simps [simp]:
  "l_probs (with_coder probs s l) = probs" "l_rc (with_coder probs s l) = s"
  "l_dic_pos (with_coder probs s l) = l_dic_pos l" "l_len (with_coder probs s l) = l_len l"
  "l_processed_pos (with_coder probs s l) = l_processed_pos l"
  "lz_abs (with_coder probs s l) = lz_abs l"
  by (simp_all add: with_coder_def lz_abs_def)

lemma lz_inv_with_coder:
  "lz_inv env D l \<Longrightarrow> same_table (l_probs l) probs \<Longrightarrow> lz_inv env D (with_coder probs s l)"
  by (auto simp: lz_inv_def lz_ok_def dist_ok_def with_coder_def)

lemma body_step:
  assumes "lz_inv env D l" "bp_run (e_inp env) (symbol_prog (sym_ctx env l)) (l_probs l) (l_rc l) = Some (sy, probs, s)"
    and "l_dic_pos l < e_limit env \<or> (\<exists>len d. sy = SMatch len d)"
  defines "l1 \<equiv> with_coder probs s l"
  shows "\<exists>f. decode_real_body env l = Some f \<and> same_table (l_probs l) probs \<and>
    (case f of Body l' \<Rightarrow> body_ok env D sy l1 l' | Outer l' \<Rightarrow> outer_ok env D sy l1 l')"
proof -
  have ok: "lz_ok env l" using assms(1) by (simp add: lz_inv_def)
  have sy: "sym_ok sy" using bp_run_post [OF assms(2) symbol_prog_post [OF sym_ctx_ok [OF ok]]] .
  have t: "same_table (l_probs l) probs" using bp_run_probs [OF assms(2)] ok by (simp add: lz_ok_def)
  then have "lz_inv env D l1" unfolding l1_def by (rule lz_inv_with_coder [OF assms(1)])
  from apply_symbol_step [OF this sy] assms(3) t show ?thesis
    using assms(2) by (simp add: decode_real_body_eq [OF ok] l1_def with_coder_def)
qed

text \<open>The margin: twenty bytes past a normalized coder, twenty-one past one whose last
  normalization is pending.\<close>

definition margin :: "bytes \<Rightarrow> rc \<Rightarrow> bool" where
  "margin inp s \<longleftrightarrow> rc_norm s \<and> rc_buf s + 20 \<le> length inp \<or> rc_live s \<and> rc_buf s + 21 \<le> length inp"

lemma bp_run_normalized:
  assumes "normalize inp s = Some s1" "rc_live s"
  shows "bp_run inp (Bit i k) probs s = bp_run inp (Bit i k) probs s1"
proof -
  have "rc_norm s1" using normalize_Some [OF assms] by simp
  then have "normalize inp s1 = Some s1"
    by (simp add: normalize_def rc_norm_def lz_consts word_less_nat_alt)
  then show ?thesis using assms by (simp add: dec_bit_eq)
qed

lemma symbol_run_total:
  assumes "ctx_ok (length probs) c" "probs_ok probs" "margin inp s"
  shows "\<exists>sy probs' s' b0. bp_run inp (symbol_prog c) probs s = Some (sy, probs', s') \<and> rc_live s' \<and>
    rc_buf s \<le> rc_buf s' \<and> b0 + 20 \<le> length inp \<and> rc_spent b0 22 26 s' \<and> b0 \<le> rc_buf s + 1 \<and>
    rc_buf s' \<le> length inp"
proof -
  note r = symbol_prog_range [OF assms(1)]
  obtain i k where p: "symbol_prog c = Bit i k" by (simp add: symbol_prog_def Let_def)
  have live: "rc_live s" using assms(3) rc_norm_live by (auto simp: margin_def)
  obtain s1 where s1: "normalize inp s = Some s1"
    using normalize_total [of s inp] assms(3) by (auto simp: margin_def)
  have n1: "rc_norm s1" "rc_buf s \<le> rc_buf s1" "rc_buf s1 + 20 \<le> length inp" "rc_buf s1 \<le> rc_buf s + 1"
    using normalize_Some [OF s1 live] assms(3) by (auto simp: margin_def rc_norm_def)
  have run: "bp_run inp (symbol_prog c) probs s = bp_run inp (symbol_prog c) probs s1"
    unfolding p by (rule bp_run_normalized [OF s1 live])
  note sp = rc_spent_init [OF n1(1)] and lv = rc_norm_live [OF n1(1)]
  obtain sy probs' s' where x: "bp_run inp (symbol_prog c) probs s1 = Some (sy, probs', s')"
    using bp_run_total [OF assms(2) lv sp r(3) _ _ r(1) n1(3)] by auto
  then have sp': "rc_spent (rc_buf s1) 22 26 s'" using bp_run_spent [OF x assms(2) lv sp r(3)] by simp
  have "rc_buf s' \<le> length inp" using rc_spent_le_20 [OF sp'] n1(3) by simp
  with x bp_run_spent [OF x assms(2) lv sp r(3)] run n1 show ?thesis
    by (intro exI [of _ sy] exI [of _ probs'] exI [of _ s'] exI [of _ "rc_buf s1"]) auto
qed

subsection \<open>The loop\<close>

text \<open>How a call ends: nothing left of the last match, or what the full output window left of it;
  the end marker; a distance that reaches too far (only \<open>rep0\<close> is then outside its range).\<close>

definition exit_ok :: "lzenv \<Rightarrow> nat \<Rightarrow> lz \<Rightarrow> bool" where
  "exit_ok env D l \<longleftrightarrow>
     lz_inv env D l \<and> (l_len l = 0 \<or> l_dic_pos l = e_limit env \<and> unat (l_len l) < 274) \<or>
     lz_inv env D l \<and> l_len l = K_MATCH_SPEC_LEN_START \<or>
     lz_inv env D (l\<lparr>l_rep0 := 1\<rparr>) \<and> 512 \<le> unat (l_len l)"

lemma sym_count_size:
  "0 < room \<Longrightarrow> sym_ok sy \<Longrightarrow> sym_count room sy < room \<Longrightarrow> sym_size sy = sym_count room sy"
  by (cases sy) auto

lemma body_ok_len:
  assumes "body_ok env D sy l l'" "l_len l = 0" "sym_ok sy" "l_dic_pos l < e_limit env"
  shows "l_len l' = 0 \<or> l_dic_pos l' = e_limit env \<and> unat (l_len l') < 274"
proof -
  let ?room = "e_limit env - l_dic_pos l"
  have c: "sym_count ?room sy \<le> ?room" using assms(4) by (cases sy) auto
  have len: "unat (l_len l') = (case sy of SLit _ \<Rightarrow> 0 | SShortRep \<Rightarrow> 0 | _ \<Rightarrow> sym_size sy - sym_count ?room sy)"
    and pos: "l_dic_pos l' = l_dic_pos l + sym_count ?room sy"
    using assms(1,2) by (auto simp: body_ok_def Let_def split: symb.splits)
  show ?thesis
  proof (cases "sym_count ?room sy < ?room")
    case True
    then have "unat (l_len l') = 0"
      using len sym_count_size [OF _ assms(3) True] assms(4) by (auto split: symb.splits)
    then show ?thesis by (simp add: unat_eq_0)
  next
    case False
    then have "l_dic_pos l' = e_limit env" using c pos assms(4) by simp
    moreover have "unat (l_len l') < 274" using len assms(3) by (cases sy) auto
    ultimately show ?thesis by simp
  qed
qed

lemma outer_exit:
  assumes "outer_ok env D sy l l'" "lz_inv env D l" "sym_ok sy"
  shows "exit_ok env D l' \<and> same_coder l l' \<and> l_dic l' = l_dic l \<and> l_dic_pos l' = l_dic_pos l \<and>
    (l_len l' = K_MATCH_SPEC_LEN_START \<or> 512 \<le> unat (l_len l') \<or> l_dic_pos l = e_limit env)"
proof -
  obtain len d where sy: "sy = SMatch len d" "unat len < 272" using assms(1,3) by (auto simp: outer_ok_def)
  have e: "unat (len + 514) = unat len + 514" "unat (len + 2) = unat len + 2" using sy by (auto simp: unat_word_ariths)
  have inv: "lz_inv env D (l\<lparr>l_len := x\<rparr>)" for x using assms(2) by (auto simp: lz_inv_def lz_ok_def dist_ok_def)
  have inv1: "lz_inv env D (push_rep d l\<lparr>l_len := x, l_rep0 := 1\<rparr>)" for x
    using assms(2) by (auto simp: lz_inv_def lz_ok_def dist_ok_def push_rep_def rep_ok_def env_ok_def)
  show ?thesis
    using assms(1) inv inv1 e sy(2) unfolding outer_ok_def sy(1)
    by (auto simp: exit_ok_def same_coder_def push_rep_def lz_consts)
qed

lemma decode_real_loop_unfold:
  "decode_real_loop env l =
     (case decode_real_body env l of
        None \<Rightarrow> None
      | Some (Outer l) \<Rightarrow> Some l
      | Some (Body l) \<Rightarrow>
          if l_dic_pos l < e_limit env \<and> rc_buf (l_rc l) < e_buf_limit env
          then decode_real_loop env l else Some l)"
  by (rule decode_real_loop.simps)

definition loop_post :: "lzenv \<Rightarrow> nat \<Rightarrow> lz \<Rightarrow> lz \<Rightarrow> bool" where
  "loop_post env D l l' \<longleftrightarrow> exit_ok env D l' \<and> length (l_probs l') = length (l_probs l) \<and>
     l_dic_pos l \<le> l_dic_pos l' \<and>
     (l_dic_pos l < l_dic_pos l' \<or> l_len l' = K_MATCH_SPEC_LEN_START \<or> 512 \<le> unat (l_len l')) \<and>
     rc_live (l_rc l') \<and> rc_buf (l_rc l) \<le> rc_buf (l_rc l') \<and> rc_buf (l_rc l') \<le> length (e_inp env) \<and>
     (\<exists>\<sigma> probs s. decodes env (e_limit env - l_dic_pos l) (lz_abs l) (l_probs l) (l_rc l)
        (e_limit env - l_dic_pos l') \<sigma> probs s \<and> s_win \<sigma> = window (l_dic l') (l_dic_pos l'))"

lemma body_fits:
  assumes "body_ok env D sy l l'" "lz_inv env D l" "decode_real_body env l0 = Some (Body l')"
    and "apply_symbol env sy l = Some (Body l')"
  shows "sym_fits env (lz_abs l) sy"
proof (cases sy)
  case (SMatch len d)
  then show ?thesis using assms(4) by (auto simp: lz_abs_def Let_def split: if_splits)
qed auto

lemma decode_real_loop_total:
  assumes "lz_inv env D l" "l_len l = 0" "l_dic_pos l < e_limit env" "margin (e_inp env) (l_rc l)"
    and "e_buf_limit env + 20 \<le> length (e_inp env)"
  shows "\<exists>l'. decode_real_loop env l = Some l' \<and> loop_post env D l l' \<and> (\<exists>s. normalize (e_inp env) (l_rc l') = Some s)"
  using assms(1-4)
proof (induction "e_limit env - l_dic_pos l" arbitrary: l rule: less_induct)
  case less
  have ok: "lz_ok env l" using less.prems(1) by (simp add: lz_inv_def)
  note ctx = sym_ctx_ok [OF ok]
  obtain sy probs s b0 where run: "bp_run (e_inp env) (symbol_prog (sym_ctx env l)) (l_probs l) (l_rc l) = Some (sy, probs, s)"
    and s: "rc_live s" "rc_buf (l_rc l) \<le> rc_buf s" "b0 + 20 \<le> length (e_inp env)" "rc_spent b0 22 26 s" "rc_buf s \<le> length (e_inp env)"
    using symbol_run_total [OF ctx _ less.prems(4)] ok by (auto simp: lz_ok_def)
  have sy: "sym_ok sy" using bp_run_post [OF run symbol_prog_post [OF ctx]] .
  have nrm: "\<exists>s'. normalize (e_inp env) s = Some s'"
    using rc_margin [OF s(4) _ _ s(3)] by auto
  define l1 where "l1 = with_coder probs s l"
  obtain f where f: "decode_real_body env l = Some f" and t: "same_table (l_probs l) probs"
    and post: "case f of Body l' \<Rightarrow> body_ok env D sy l1 l' | Outer l' \<Rightarrow> outer_ok env D sy l1 l'"
    using body_step [OF less.prems(1) run] less.prems(3) unfolding l1_def by blast
  have inv1: "lz_inv env D l1" unfolding l1_def by (rule lz_inv_with_coder [OF less.prems(1) t])
  show ?case
  proof (cases f)
    case (Outer l')
    with post have o: "outer_ok env D sy l1 l'" by simp
    note oe = outer_exit [OF o inv1 sy]
    have "decodes env (e_limit env - l_dic_pos l) (lz_abs l) (l_probs l) (l_rc l) (e_limit env - l_dic_pos l') (lz_abs l) (l_probs l) (l_rc l)"
      using oe by (simp add: l1_def decodes_done)
    moreover have "s_win (lz_abs l) = window (l_dic l') (l_dic_pos l')"
      using oe by (simp add: lz_abs_def l1_def with_coder_def)
    ultimately have "loop_post env D l l'"
      using oe t s less.prems(3) unfolding loop_post_def by (auto simp: same_coder_def l1_def)
    then show ?thesis
      using f Outer nrm oe by (subst decode_real_loop_unfold) (auto simp: same_coder_def l1_def)
  next
    case (Body l2)
    with post have b: "body_ok env D sy l1 l2" by simp
    have l2: "lz_inv env D l2" "l_probs l2 = probs" "l_rc l2 = s"
      "lz_abs l2 = lz_spec (e_limit env - l_dic_pos l) sy (lz_abs l)"
      "l_dic_pos l2 = l_dic_pos l + sym_count (e_limit env - l_dic_pos l) sy" "0 < sym_count (e_limit env - l_dic_pos l) sy"
      using b by (auto simp: body_ok_def Let_def same_coder_def l1_def)
    have ap: "apply_symbol env sy l1 = Some (Body l2)"
      using f Body run by (simp add: decode_real_body_eq [OF ok] l1_def with_coder_def)
    have fits: "sym_fits env (lz_abs l) sy"
      using body_fits [OF b inv1 _ ap] f Body by (simp add: l1_def)
    have step: "decodes env (e_limit env - l_dic_pos l2) (lz_abs l2) probs s r \<sigma> pr sr \<Longrightarrow>
        decodes env (e_limit env - l_dic_pos l) (lz_abs l) (l_probs l) (l_rc l) r \<sigma> pr sr" for r \<sigma> pr sr
      using decodes_sym [OF _ run [unfolded sym_ctx_abs [OF ok]] fits] less.prems(3) l2(4,5) by (simp add: algebra_simps)
    note len = body_ok_len [OF b _ sy]
    show ?thesis
    proof (cases "l_dic_pos l2 < e_limit env \<and> rc_buf (l_rc l2) < e_buf_limit env")
      case True
      have m: "margin (e_inp env) (l_rc l2)" using True s(1) l2(3) assms(5) by (auto simp: margin_def)
      have z: "l_len l2 = 0" using len less.prems(2,3) True by (simp add: l1_def)
      have dec: "e_limit env - l_dic_pos l2 < e_limit env - l_dic_pos l" using l2(5,6) less.prems(3) by linarith
      obtain l' where l': "decode_real_loop env l2 = Some l'" "loop_post env D l2 l'" "\<exists>s. normalize (e_inp env) (l_rc l') = Some s"
        using less.hyps [OF dec l2(1) z _ m] True by auto
      have "loop_post env D l l'"
        using l'(2) step l2 t s unfolding loop_post_def by fastforce
      then show ?thesis
        using l' f Body True by (subst decode_real_loop_unfold) auto
    next
      case False
      have "exit_ok env D l2" using l2(1) len less.prems(2,3) by (auto simp: exit_ok_def l1_def)
      moreover have "s_win (lz_abs l2) = window (l_dic l2) (l_dic_pos l2)" by (simp add: lz_abs_def)
      then have "\<exists>\<sigma> probs s. decodes env (e_limit env - l_dic_pos l) (lz_abs l) (l_probs l) (l_rc l)
        (e_limit env - l_dic_pos l2) \<sigma> probs s \<and> s_win \<sigma> = window (l_dic l2) (l_dic_pos l2)"
        using step [OF decodes_done] by blast
      ultimately have "loop_post env D l l2"
        using l2(2,3,5,6) t s unfolding loop_post_def by simp
      then show ?thesis
        using f Body False nrm l2(3) by (subst decode_real_loop_unfold) auto
    qed
  qed
qed

text \<open>The single symbol decoded when input is short, or the output full: \<open>buf_limit\<close> is the start of
  the buffer, so the loop turns once.\<close>

lemma decode_real_loop_once:
  assumes "lz_inv env D l" "l_len l = 0" "rc_live (l_rc l)" "e_buf_limit env \<le> rc_buf (l_rc l)"
    and "bp_run (e_inp env) (symbol_prog (sym_ctx env l)) (l_probs l) (l_rc l) = Some (sy, probs, s)"
    and "l_dic_pos l < e_limit env \<or> (\<exists>len d. sy = SMatch len d)" "rc_live s" "rc_buf (l_rc l) \<le> rc_buf s"
  shows "\<exists>l'. decode_real_loop env l = Some l' \<and> exit_ok env D l' \<and> l_rc l' = s \<and> length (l_probs l') = length (l_probs l) \<and>
     l_dic_pos l \<le> l_dic_pos l' \<and>
     (l_dic_pos l < l_dic_pos l' \<or> l_len l' = K_MATCH_SPEC_LEN_START \<or> 512 \<le> unat (l_len l') \<or>
      l_dic_pos l = e_limit env \<and> 0 < unat (l_len l'))"
proof -
  have ok: "lz_ok env l" using assms(1) by (simp add: lz_inv_def)
  have sy: "sym_ok sy" using bp_run_post [OF assms(5) symbol_prog_post [OF sym_ctx_ok [OF ok]]] .
  define l1 where "l1 = with_coder probs s l"
  obtain f where f: "decode_real_body env l = Some f" and t: "same_table (l_probs l) probs"
    and post: "case f of Body l' \<Rightarrow> body_ok env D sy l1 l' | Outer l' \<Rightarrow> outer_ok env D sy l1 l'"
    using body_step [OF assms(1,5,6)] unfolding l1_def by blast
  have inv1: "lz_inv env D l1" unfolding l1_def by (rule lz_inv_with_coder [OF assms(1) t])
  show ?thesis
  proof (cases f)
    case (Outer l')
    with post have o: "outer_ok env D sy l1 l'" by simp
    have "len + 2 \<noteq> 0 \<and> len + (K_MATCH_SPEC_LEN_ERROR_DATA + K_MATCH_MIN_LEN) \<noteq> 0" if "unat len < 272" for len :: u32
    proof -
      have "unat (len + 2) = unat len + 2" "unat (len + (K_MATCH_SPEC_LEN_ERROR_DATA + K_MATCH_MIN_LEN)) = unat len + 514"
        using that by (simp_all add: unat_word_ariths lz_consts)
      then show ?thesis by (metis add_is_0 unat_0 zero_neq_numeral)
    qed
    then have "l_dic_pos l = e_limit env \<longrightarrow> l_len l' = K_MATCH_SPEC_LEN_START \<or> 512 \<le> unat (l_len l') \<or> 0 < unat (l_len l')"
      using o sy by (auto simp: outer_ok_def unat_gt_0)
    then show ?thesis
      using f Outer t outer_exit [OF o inv1 sy]
      by (subst decode_real_loop_unfold) (auto simp: same_coder_def l1_def)
  next
    case (Body l2)
    with post have b: "body_ok env D sy l1 l2" by simp
    have lt: "l_dic_pos l < e_limit env"
    proof (rule ccontr)
      assume "\<not> l_dic_pos l < e_limit env"
      then have "sym_count (e_limit env - l_dic_pos l) sy = 0" using assms(6) by auto
      then show False using b by (simp add: body_ok_def Let_def l1_def)
    qed
    have "\<not> rc_buf (l_rc l2) < e_buf_limit env" using b assms(4,8) by (auto simp: body_ok_def Let_def same_coder_def l1_def)
    moreover have "exit_ok env D l2"
      using b body_ok_len [OF b _ sy] lt assms(2) by (auto simp: exit_ok_def body_ok_def Let_def l1_def)
    ultimately show ?thesis
      using f Body b t by (subst decode_real_loop_unfold) (auto simp: body_ok_def Let_def same_coder_def l1_def)
  qed
qed

end
