(* ===== verification/LzmaDummy.thy ===== *)
theory LzmaDummy
  imports LzmaLoop
begin

text \<open>
  \<open>lzma_dec_try_dummy\<close> of \<open>src/src/lzma/dummy.rs\<close>: the careful decoder of one symbol that changes
  nothing and stops when the input ends. An early \<open>return (Dummy::InputEof, pos)\<close> is \<open>Inl\<close>, an
  out-of-range index (checked Rust: a panic) is \<open>None\<close>. It is shown to walk the same decision tree
  as the fast loop, so the two agree on what the next symbol is and how many bytes it takes.
\<close>

subsection \<open>The function\<close>

datatype dummy_res = InputEof | DLit | DMatch | DRep

definition end_marker_possible :: "dummy_res \<Rightarrow> bool" where
  "end_marker_possible d \<longleftrightarrow> d = DMatch"

type_synonym 'a chk = "((dummy_res \<times> nat) + 'a) option"

definition chk_bind :: "'a chk \<Rightarrow> ('a \<Rightarrow> 'b chk) \<Rightarrow> 'b chk" where
  "chk_bind m f = (case m of None \<Rightarrow> None | Some (Inl r) \<Rightarrow> Some (Inl r) | Some (Inr x) \<Rightarrow> f x)"

abbreviation chk_ret :: "'a \<Rightarrow> 'a chk" where "chk_ret x \<equiv> Some (Inr x)"

definition normalize_check :: "bytes \<Rightarrow> rc \<Rightarrow> rc chk" where
  "normalize_check buf s =
     (if rc_range s < K_TOP_VALUE then
        (if length buf \<le> rc_buf s then Some (Inl (InputEof, rc_buf s))
         else do {
           b \<leftarrow> get_at buf (rc_buf s);
           chk_ret (s\<lparr>rc_range := push_bit 8 (rc_range s), rc_code := push_bit 8 (rc_code s) OR ucast b,
                     rc_buf := rc_buf s + 1\<rparr>) })
      else chk_ret s)"

definition update_0_check :: "u32 \<Rightarrow> rc \<Rightarrow> rc" where
  "update_0_check bound s = s\<lparr>rc_range := bound\<rparr>"

definition update_1_check :: "u32 \<Rightarrow> rc \<Rightarrow> rc" where
  "update_1_check bound s = s\<lparr>rc_range := rc_range s - bound, rc_code := rc_code s - bound\<rparr>"

text \<open>\<open>ttt = probs[idx]; normalize_check!; bound = ..; if code < bound { update_0_check! } else
  { update_1_check! }\<close>, returning which branch was taken.\<close>

definition bit_check :: "bytes \<Rightarrow> u16 list \<Rightarrow> nat \<Rightarrow> rc \<Rightarrow> (bool \<times> rc) chk" where
  "bit_check buf probs idx s = do {
     p \<leftarrow> get_at probs idx;
     chk_bind (normalize_check buf s) (\<lambda>s.
       let bound = drop_bit K_NUM_BIT_MODEL_TOTAL_BITS (rc_range s) * ucast p in
       if rc_code s < bound then chk_ret (False, update_0_check bound s)
       else chk_ret (True, update_1_check bound s)) }"

definition get_bit_check :: "bytes \<Rightarrow> u16 list \<Rightarrow> nat \<Rightarrow> u32 \<Rightarrow> rc \<Rightarrow> (u32 \<times> rc) chk" where
  "get_bit_check buf probs idx i s =
     chk_bind (bit_check buf probs idx s) (\<lambda>(b, s). chk_ret (if b then i + i + 1 else i + i, s))"

text \<open>\<open>loop { get_bit_check!(probs, base + i, i, ..); if i >= limit { break; } }\<close>\<close>

partial_function (option) tree_check :: "bytes \<Rightarrow> u16 list \<Rightarrow> nat \<Rightarrow> u32 \<Rightarrow> u32 \<Rightarrow> rc \<Rightarrow> (u32 \<times> rc) chk" where
  [code]: "tree_check buf probs base limit i s =
     (case get_bit_check buf probs (base + unat i) i s of
        None \<Rightarrow> None
      | Some r \<Rightarrow> (case r of Inl e \<Rightarrow> Some (Inl e)
          | Inr (i, s) \<Rightarrow> if limit \<le> i then chk_ret (i, s) else tree_check buf probs base limit i s))"

partial_function (option) matched_check ::
  "bytes \<Rightarrow> u16 list \<Rightarrow> nat \<Rightarrow> u32 \<Rightarrow> u32 \<Rightarrow> u32 \<Rightarrow> rc \<Rightarrow> (u32 \<times> rc) chk" where
  [code]: "matched_check buf probs base match_byte offs symbol s = (
     let match_byte = match_byte + match_byte;
         bt = offs;
         offs = offs AND match_byte in
     case bit_check buf probs (base + unat (offs + bt + symbol)) s of
        None \<Rightarrow> None
      | Some r \<Rightarrow> (case r of Inl e \<Rightarrow> Some (Inl e)
          | Inr (b, s) \<Rightarrow> (
              let symbol = (if b then symbol + symbol + 1 else symbol + symbol);
                  offs = (if b then offs else offs XOR bt) in
              if 0x100 \<le> symbol then chk_ret (symbol, s)
              else matched_check buf probs base match_byte offs symbol s)))"

definition literal_check :: "lzma_dec \<Rightarrow> bytes \<Rightarrow> rc \<Rightarrow> rc chk" where
  "literal_check p buf s = do {
     let probs = p_probs p;
     prob_base \<leftarrow>
       (if p_check_dic_size p \<noteq> 0 \<or> p_processed_pos p \<noteq> 0
        then do {
          prev \<leftarrow> get_at (p_dic p) ((if p_dic_pos p = 0 then p_dic_buf_size p else p_dic_pos p) - 1);
          Some (LITERAL + LZMA_LIT_SIZE *
            unat (push_bit (unat (lc (p_prop p))) (p_processed_pos p AND (push_bit (unat (lp (p_prop p))) 1 - 1))
              + (drop_bit (8 - unat (lc (p_prop p))) (ucast prev) :: u32))) }
        else Some LITERAL);
     if p_state p < K_NUM_LIT_STATES
     then chk_bind (tree_check buf probs prob_base 0x100 1 s) (\<lambda>(_, s). chk_ret s)
     else do {
       match_byte \<leftarrow> get_at (p_dic p) (dic_back (p_dic_buf_size p) (p_dic_pos p) (fst (p_reps p)));
       chk_bind (matched_check buf probs prob_base (ucast match_byte) 0x100 1 s) (\<lambda>(_, s). chk_ret s) } }"

definition len_check :: "bytes \<Rightarrow> u16 list \<Rightarrow> nat \<Rightarrow> u32 \<Rightarrow> rc \<Rightarrow> (u32 \<times> rc) chk" where
  "len_check buf probs prob_base pos_state s =
     chk_bind (bit_check buf probs (prob_base + LEN_CHOICE) s) (\<lambda>(b, s).
     chk_bind
       (if \<not> b then chk_ret (prob_base + LEN_LOW + unat pos_state, 0, push_bit K_LEN_NUM_LOW_BITS 1, s)
        else chk_bind (bit_check buf probs (prob_base + LEN_CHOICE_2) s) (\<lambda>(b, s).
          if \<not> b
          then chk_ret (prob_base + LEN_LOW + unat pos_state + 2 ^ K_LEN_NUM_LOW_BITS, K_LEN_NUM_LOW_SYMBOLS,
                 push_bit K_LEN_NUM_LOW_BITS 1, s)
          else chk_ret (prob_base + LEN_HIGH, K_LEN_NUM_LOW_SYMBOLS * 2, push_bit K_LEN_NUM_HIGH_BITS 1, s)))
       (\<lambda>(prob_len, offset, limit, s).
          chk_bind (tree_check buf probs prob_len limit 1 s) (\<lambda>(len, s).
            chk_ret (len - limit + offset, s))))"

primrec direct_check :: "nat \<Rightarrow> bytes \<Rightarrow> rc \<Rightarrow> rc chk" where
  "direct_check 0 buf s = None"
| "direct_check (Suc n) buf s =
     chk_bind (normalize_check buf s) (\<lambda>s.
       let range = drop_bit 1 (rc_range s);
           code = rc_code s - (range AND (drop_bit 31 (rc_code s - range) - 1));
           s = s\<lparr>rc_range := range, rc_code := code\<rparr> in
       if n = 0 then chk_ret s else direct_check n buf s)"

primrec rev_check :: "nat \<Rightarrow> bytes \<Rightarrow> u16 list \<Rightarrow> nat \<Rightarrow> u32 \<Rightarrow> u32 \<Rightarrow> rc \<Rightarrow> rc chk" where
  "rev_check 0 buf probs prob_base i m s = None"
| "rev_check (Suc n) buf probs prob_base i m s =
     chk_bind (bit_check buf probs (prob_base + unat i) s) (\<lambda>(b, s).
       let i = (if b then i + (m + m) else i + m); m = m + m in
       if n = 0 then chk_ret s else rev_check n buf probs prob_base i m s)"

definition distance_check :: "bytes \<Rightarrow> u16 list \<Rightarrow> u32 \<Rightarrow> rc \<Rightarrow> rc chk" where
  "distance_check buf probs len s = (
     let temp = push_bit K_NUM_POS_SLOT_BITS
           (if len < of_nat K_NUM_LEN_TO_POS_STATES - 1 then len else of_nat K_NUM_LEN_TO_POS_STATES - 1);
         prob_base = POS_SLOT + unat temp in
     chk_bind (tree_check buf probs prob_base (push_bit K_NUM_POS_SLOT_BITS 1) 1 s) (\<lambda>(i, s).
     let pos_slot = i - push_bit K_NUM_POS_SLOT_BITS 1 in
     if K_START_POS_MODEL_INDEX \<le> pos_slot
     then (let num_direct_bits = drop_bit 1 pos_slot - 1 in
       if pos_slot < K_END_POS_MODEL_INDEX
       then rev_check (unat num_direct_bits) buf probs
              (SPEC_POS + unat (push_bit (unat num_direct_bits) (2 OR (pos_slot AND 1)))) 1 1 s
       else chk_bind (direct_check (unat (num_direct_bits - of_nat K_NUM_ALIGN_BITS)) buf s) (\<lambda>s.
              rev_check K_NUM_ALIGN_BITS buf probs ALIGN 1 1 s))
     else chk_ret s))"

text \<open>The rep flags after \<open>IsRep\<close>: the short rep breaks out (\<open>Inl\<close> of the pair), any other falls to
  the length.\<close>

definition rep_check :: "bytes \<Rightarrow> u16 list \<Rightarrow> u32 \<Rightarrow> u32 \<Rightarrow> rc \<Rightarrow> (bool \<times> rc) chk" where
  "rep_check buf probs pos_state state s =
     chk_bind (bit_check buf probs (IS_REP_G0 + unat state) s) (\<lambda>(b, s).
       if \<not> b
       then chk_bind (bit_check buf probs (IS_REP0_LONG + unat (pos_state + state)) s) (\<lambda>(b, s).
              chk_ret (\<not> b, s))
       else chk_bind (bit_check buf probs (IS_REP_G1 + unat state) s) (\<lambda>(b, s).
              if \<not> b then chk_ret (False, s)
              else chk_bind (bit_check buf probs (IS_REP_G2 + unat state) s) (\<lambda>(b, s). chk_ret (False, s))))"

definition symbol_check :: "lzma_dec \<Rightarrow> bytes \<Rightarrow> rc \<Rightarrow> (dummy_res \<times> rc) chk" where
  "symbol_check p buf s = (
     let probs = p_probs p;
         state = p_state p;
         pos_state = push_bit 4 (p_processed_pos p AND (push_bit (unat (pb (p_prop p))) 1 - 1)) in
     chk_bind (bit_check buf probs (IS_MATCH + unat (pos_state + state)) s) (\<lambda>(b, s).
       if \<not> b then chk_bind (literal_check p buf s) (\<lambda>s. chk_ret (DLit, s))
       else chk_bind (bit_check buf probs (IS_REP + unat state) s) (\<lambda>(b, s).
         if \<not> b
         then chk_bind (len_check buf probs LEN_CODER pos_state s) (\<lambda>(len, s).
                chk_bind (distance_check buf probs len s) (\<lambda>s. chk_ret (DMatch, s)))
         else chk_bind (rep_check buf probs pos_state state s) (\<lambda>(short, s).
                if short then chk_ret (DRep, s)
                else chk_bind (len_check buf probs REP_LEN_CODER pos_state s) (\<lambda>(len, s).
                       chk_ret (DRep, s))))))"

definition lzma_dec_try_dummy :: "lzma_dec \<Rightarrow> bytes \<Rightarrow> (dummy_res \<times> nat) option" where
  "lzma_dec_try_dummy p buf =
     (case chk_bind (symbol_check p buf \<lparr>rc_range = p_range p, rc_code = p_code p, rc_buf = 0\<rparr>) (\<lambda>(res, s).
             chk_bind (normalize_check buf s) (\<lambda>s. chk_ret (res, rc_buf s))) of
        None \<Rightarrow> None
      | Some (Inl r) \<Rightarrow> Some r
      | Some (Inr r) \<Rightarrow> Some r)"

subsection \<open>It walks the symbol tree\<close>

primrec bp_check :: "bytes \<Rightarrow> 'a bitprog \<Rightarrow> u16 list \<Rightarrow> rc \<Rightarrow> ('a \<times> rc) chk" where
  "bp_check buf (Ret x) probs s = chk_ret (x, s)"
| "bp_check buf (Bit i k) probs s = chk_bind (bit_check buf probs i s) (\<lambda>(b, s). bp_check buf (k b) probs s)"
| "bp_check buf (Direct k) probs s =
     (case dec_direct buf s of None \<Rightarrow> Some (Inl (InputEof, rc_buf s))
      | Some (b, s) \<Rightarrow> bp_check buf (k b) probs s)"

lemma chk_bind_simps [simp]:
  "chk_bind None f = None" "chk_bind (Some (Inl r)) f = Some (Inl r)" "chk_bind (chk_ret x) f = f x"
  by (simp_all add: chk_bind_def)

lemma chk_bind_assoc [simp]: "chk_bind (chk_bind m f) g = chk_bind m (\<lambda>x. chk_bind (f x) g)"
  by (auto simp: chk_bind_def split: option.splits sum.splits)

lemma chk_bind_pair [simp]: "chk_bind (case x of (a, b) \<Rightarrow> f a b) g = (case x of (a, b) \<Rightarrow> chk_bind (f a b) g)"
  by (cases x) simp

lemma chk_bind_ret [simp]: "chk_bind m (\<lambda>(a, b). chk_ret (a, b)) = m"
  by (auto simp: chk_bind_def split: option.splits sum.splits)

lemma chk_bind_cong: "(\<And>x. f x = g x) \<Longrightarrow> chk_bind m f = chk_bind m g"
  by (metis ext)

lemma bp_check_bind:
  "bp_check buf (bp_bind p f) probs s = chk_bind (bp_check buf p probs s) (\<lambda>(x, s). bp_check buf (f x) probs s)"
proof (induction p arbitrary: s)
  case (Bit i k)
  then show ?case by (auto intro!: chk_bind_cong)
next
  case (Direct k)
  then show ?case by (auto split: option.splits)
qed simp

lemma normalize_check_eq:
  "normalize_check buf s = (case normalize buf s of None \<Rightarrow> Some (Inl (InputEof, rc_buf s)) | Some s1 \<Rightarrow> chk_ret s1)"
  by (auto simp: normalize_check_def normalize_def split: option.splits)

lemma bit_check_eq:
  "i < length probs \<Longrightarrow> bit_check buf probs i s =
    (case normalize buf s of None \<Rightarrow> Some (Inl (InputEof, rc_buf s)) | Some s1 \<Rightarrow> chk_ret (rc_bit s1 (probs ! i)))"
  by (auto simp: bit_check_def normalize_check_eq rc_bit_def Let_def update_0_check_def update_1_check_def split: option.splits)

lemma bp_check_peek:
  assumes "bp_in {..<length probs} p"
  shows "case bp_peek buf p probs s of
      Some (x, s') \<Rightarrow> bp_check buf p probs s = chk_ret (x, s')
    | None \<Rightarrow> \<exists>pos. bp_check buf p probs s = Some (Inl (InputEof, pos))"
  using assms
proof (induction p arbitrary: s)
  case (Bit i k)
  have IH: "case bp_peek buf (k b) probs s of
      Some (x, s') \<Rightarrow> bp_check buf (k b) probs s = chk_ret (x, s')
    | None \<Rightarrow> \<exists>pos. bp_check buf (k b) probs s = Some (Inl (InputEof, pos))" for b s
    using Bit.IH [OF rangeI, of b s] Bit.prems by (cases b) auto
  show ?case
  proof (cases "normalize buf s")
    case None
    then show ?thesis using Bit.prems by (simp add: bit_check_eq)
  next
    case (Some s1)
    obtain b s2 where "rc_bit s1 (probs ! i) = (b, s2)" by fastforce
    then show ?thesis
      using Some Bit.prems IH [of b s2] by (cases "bp_peek buf (k b) probs s2") (auto simp: bit_check_eq)
  qed
next
  case (Direct k)
  have IH: "case bp_peek buf (k b) probs s of
      Some (x, s') \<Rightarrow> bp_check buf (k b) probs s = chk_ret (x, s')
    | None \<Rightarrow> \<exists>pos. bp_check buf (k b) probs s = Some (Inl (InputEof, pos))" for b s
    using Direct.IH [OF rangeI, of b s] Direct.prems by (cases b) auto
  show ?case
  proof (cases "dec_direct buf s")
    case (Some r)
    then obtain b s2 where "dec_direct buf s = Some (b, s2)" by (cases r) simp
    then show ?thesis using IH [of b s2] by (cases "bp_peek buf (k b) probs s2") auto
  qed simp
qed simp

lemma tree_check_eq:
  assumes "unat limit = 2 ^ (j + Suc n)" "2 ^ j \<le> unat i" "unat i < 2 * 2 ^ j" "j + Suc n \<le> 30"
  shows "tree_check buf probs base limit i s = bp_check buf (tree_prog (Suc n) base i) probs s"
  using assms
proof (induction n arbitrary: j i s)
  case (Suc n)
  have "(2::nat) ^ j \<le> 2 ^ 28" using Suc.prems(4) by (intro power_increasing) auto
  then have i: "unat (i + i + of_bool b) = 2 * unat i + of_bool b" for b
    using unat_double(1) [of i b] Suc.prems(3) by simp
  have lt: "\<not> limit \<le> i + i + of_bool b" for b
  proof -
    have "2 * unat i + of_bool b < 4 * 2 ^ j" using Suc.prems(3) by (cases b) auto
    also have "(4::nat) * 2 ^ j \<le> 2 ^ (j + Suc (Suc n))" by (simp add: power_add)
    finally show ?thesis using Suc.prems(1) i by (simp add: word_le_nat_alt)
  qed
  have IH: "tree_check buf probs base limit (i + i + of_bool b) s = bp_check buf (tree_prog (Suc n) base (i + i + of_bool b)) probs s" for b s
    by (intro Suc.IH [of "Suc j"]; (simp only: i)?) (use Suc.prems in \<open>auto simp: of_bool_def\<close>)
  have b: "(if b then i + i + 1 else i + i) = i + i + of_bool b" for b by simp
  show ?case
  proof (cases "bit_check buf probs (base + unat i) s")
    case None
    then show ?thesis by (subst tree_check.simps) (simp add: get_bit_check_def)
  next
    case (Some r)
    show ?thesis
    proof (cases r)
      case (Inl e)
      then show ?thesis using Some by (subst tree_check.simps) (simp add: get_bit_check_def)
    next
      case (Inr x)
      obtain b s' where x: "x = (b, s')" by (cases x)
      have "tree_check buf probs base limit i s = tree_check buf probs base limit (i + i + of_bool b) s'"
        using Some Inr x lt [of b] by (subst tree_check.simps) (simp only: get_bit_check_def b chk_bind_simps option.case sum.case prod.case if_False)
      then show ?thesis using Some Inr x by (simp only: IH tree_prog.simps(2) [of "Suc n"] bp_check.simps(2) chk_bind_simps prod.case)
    qed
  qed
next
  case 0
  have "(2::nat) ^ j \<le> 2 ^ 29" using 0(4) by (intro power_increasing) auto
  then have i: "unat (i + i + of_bool b) = 2 * unat i + of_bool b" for b
    using unat_double(1) [of i b] 0(3) by simp
  have ge: "limit \<le> i + i + of_bool b" for b using 0(1,2) i by (simp add: word_le_nat_alt)
  have b: "(if b then i + i + 1 else i + i) = i + i + of_bool b" for b by simp
  show ?case
    by (subst tree_check.simps, simp only: get_bit_check_def b)
      (auto simp: chk_bind_def ge [of True, simplified] ge [of False, simplified] split: option.splits sum.splits)
qed


lemma matched_check_eq:
  assumes "2 ^ j \<le> unat sy" "unat sy < 2 * 2 ^ j" "j + Suc n = 8"
  shows "matched_check buf probs base mb offs sy s = bp_check buf (matched_prog (Suc n) base sy mb offs) probs s"
  using assms
proof (induction n arbitrary: j sy mb offs s)
  case (Suc n)
  have "(2::nat) ^ j \<le> 2 ^ 6" using Suc.prems(3) by (intro power_increasing) auto
  then have i: "unat (sy + sy + of_bool b) = 2 * unat sy + of_bool b" for b
    using unat_double(1) [of sy b] Suc.prems(2) by simp
  have lt: "\<not> 0x100 \<le> sy + sy + of_bool b" for b
    using \<open>(2::nat) ^ j \<le> 2 ^ 6\<close> Suc.prems(2) i [of b] by (cases b) (auto simp: word_le_nat_alt)
  have IH: "matched_check buf probs base mb' offs' (sy + sy + of_bool b) s =
      bp_check buf (matched_prog (Suc n) base (sy + sy + of_bool b) mb' offs') probs s" for b s mb' offs'
    by (intro Suc.IH [of "Suc j"]; (simp only: i)?) (use Suc.prems in \<open>auto simp: of_bool_def\<close>)
  have b: "(if b then sy + sy + 1 else sy + sy) = sy + sy + of_bool b" for b by simp
  show ?case
  proof (cases "bit_check buf probs (base + unat ((offs AND (mb + mb)) + offs + sy)) s")
    case None
    then show ?thesis by (subst matched_check.simps) (simp add: Let_def)
  next
    case (Some r)
    show ?thesis
    proof (cases r)
      case (Inl e)
      then show ?thesis using Some by (subst matched_check.simps) (simp add: Let_def)
    next
      case (Inr x)
      obtain b s' where x: "x = (b, s')" by (cases x)
      have "matched_check buf probs base mb offs sy s = matched_check buf probs base (mb + mb)
          (if b then offs AND (mb + mb) else (offs AND (mb + mb)) XOR offs) (sy + sy + of_bool b) s'"
        using Some Inr x lt [of b] by (subst matched_check.simps) (simp only: Let_def b option.case sum.case prod.case if_False)
      then show ?thesis using Some Inr x by (simp only: IH matched_prog.simps(2) [of "Suc n"] bp_check.simps(2) chk_bind_simps prod.case)
    qed
  qed
next
  case 0
  then have i: "unat (sy + sy + of_bool b) = 2 * unat sy + of_bool b" for b
    using unat_double(1) [of sy b] by simp
  have ge: "0x100 \<le> sy + sy + of_bool b" for b using 0 i by (simp add: word_le_nat_alt)
  have b: "(if b then sy + sy + 1 else sy + sy) = sy + sy + of_bool b" for b by simp
  show ?case
    by (subst matched_check.simps, simp only: Let_def b)
      (auto simp: chk_bind_def ge [of True, simplified] ge [of False, simplified] split: option.splits sum.splits)
qed

lemma rev_check_eq:
  "0 < n \<Longrightarrow> rev_check n buf probs base i m s = chk_bind (bp_check buf (rev_prog n base i m) probs s) (\<lambda>(_, s). chk_ret s)"
proof (induction n arbitrary: i m s)
  case (Suc n)
  have b: "(if b then i + (m + m) else i + m) = i + (m + (if b then m else 0))" for b by simp
  show ?case
    using Suc.IH unfolding rev_check.simps Let_def b
    by (cases "n = 0") (auto intro!: chk_bind_cong)
qed simp

lemma direct_code_eq:
  "(c :: u32) - (r AND (drop_bit 31 (c - r) - 1)) = (if \<not> bit (c - r) 31 then c - r else c)"
proof -
  have "drop_bit 31 w = of_bool (bit w 31)" for w :: u32
  proof (rule bit_word_eqI)
    fix n
    have "\<not> bit w (31 + n)" if "n \<noteq> 0" using bit_imp_le_length [of w "31 + n"] that by auto
    then show "bit (drop_bit 31 w) n = bit (of_bool (bit w 31) :: u32) n"
      by (cases "n = 0") (auto simp: bit_simps)
  qed
  then show ?thesis by simp
qed

lemma direct_check_eq:
  "0 < n \<Longrightarrow> direct_check n buf s = chk_bind (bp_check buf (direct_prog n d) probs s) (\<lambda>(_, s). chk_ret s)"
proof (induction n arbitrary: d s)
  case (Suc n)
  show ?case
    using Suc.IH by (cases "n = 0") (auto simp: direct_code_eq normalize_check_eq dec_direct_def Let_def split: option.splits)
qed simp


lemma tree_check_1:
  assumes "unat limit = 2 ^ n" "0 < n" "n \<le> 30"
  shows "tree_check buf probs base limit 1 s = bp_check buf (tree_prog n base 1) probs s"
proof -
  obtain m where "n = Suc m" using assms(2) by (cases n) auto
  then show ?thesis using tree_check_eq [of limit 0 m 1 buf probs base s] assms by simp
qed

lemma len_check_eq:
  "len_check buf probs base ps s = bp_check buf (len_prog base ps) probs s"
proof -
  have t3: "tree_check buf probs b 8 1 s = bp_check buf (tree_prog 3 b 1) probs s" for b s
    by (rule tree_check_1) auto
  have t8: "tree_check buf probs b 256 1 s = bp_check buf (tree_prog 8 b 1) probs s" for b s
    by (rule tree_check_1) auto
  show ?thesis
    unfolding len_check_def len_prog_def
    by (auto simp: bp_check_bind t3 t8 lz_consts ac_simps intro!: chk_bind_cong split: if_splits)
qed

lemma bp_check_cong:
  assumes "bp_post P p" "\<And>x s. P x \<Longrightarrow> f (x, s) = g (x, s)"
  shows "chk_bind (bp_check buf p probs s) f = chk_bind (bp_check buf p probs s) g"
  using assms(1)
proof (induction p arbitrary: s)
  case (Ret x)
  then show ?case using assms(2) by simp
next
  case (Bit i k)
  then have "chk_bind (bp_check buf (k b) probs s) f = chk_bind (bp_check buf (k b) probs s) g" for b s
    using Bit.IH [OF rangeI, of b s] by (cases b) auto
  then show ?case by (auto intro!: chk_bind_cong)
next
  case (Direct k)
  then have "chk_bind (bp_check buf (k b) probs s) f = chk_bind (bp_check buf (k b) probs s) g" for b s
    using Direct.IH [OF rangeI, of b s] by (cases b) auto
  then show ?case by (auto split: option.splits)
qed

definition slot_check :: "bytes \<Rightarrow> u16 list \<Rightarrow> u32 \<Rightarrow> rc \<Rightarrow> rc chk" where
  "slot_check buf probs pos_slot s =
     (if K_START_POS_MODEL_INDEX \<le> pos_slot
      then (let num_direct_bits = drop_bit 1 pos_slot - 1 in
        if pos_slot < K_END_POS_MODEL_INDEX
        then rev_check (unat num_direct_bits) buf probs
               (SPEC_POS + unat (push_bit (unat num_direct_bits) (2 OR (pos_slot AND 1)))) 1 1 s
        else chk_bind (direct_check (unat (num_direct_bits - of_nat K_NUM_ALIGN_BITS)) buf s) (\<lambda>s.
               rev_check K_NUM_ALIGN_BITS buf probs ALIGN 1 1 s))
      else chk_ret s)"

lemma slot_check_eq:
  assumes "unat slot < 64"
  shows "slot_check buf probs slot s = chk_bind (bp_check buf (dist_tail slot) probs s) (\<lambda>(_, s). chk_ret s)"
proof -
  define n where "n = unat slot div 2 - 1"
  define d where "d = (2::u32) OR (slot AND 1)"
  have u: "unat (drop_bit 1 slot - 1) = n" if "4 \<le> unat slot"
    using that unat_drop_bit [of 1 slot] by (simp add: n_def unat_sub word_le_nat_alt)
  consider "unat slot < 4" | "4 \<le> unat slot" "unat slot < 14" | "14 \<le> unat slot" by linarith
  then show ?thesis
  proof cases
    case 1
    then show ?thesis by (simp add: slot_check_def dist_tail_def word_less_nat_alt word_le_nat_alt lz_consts)
  next
    case 2
    note nd = near_tail_range [OF 2, folded n_def d_def]
    have "slot_check buf probs slot s = rev_check n buf probs (SPEC_POS + unat (push_bit n d)) 1 1 s"
      using 2 u [OF 2(1)] by (simp add: slot_check_def word_less_nat_alt word_le_nat_alt d_def
          K_START_POS_MODEL_INDEX_def K_END_POS_MODEL_INDEX_def)
    moreover have "dist_tail slot = bp_bind (rev_prog n (SPEC_POS + unat d * 2 ^ n) 1 1) (\<lambda>(i, m). Ret (push_bit n d + (i - m)))"
      using 2 by (simp add: dist_tail_def Let_def n_def d_def word_less_nat_alt)
    ultimately show ?thesis
      by (simp add: rev_check_eq [OF nd(2)] nd(5) bp_check_bind case_prod_unfold)
  next
    case 3
    have n: "unat (drop_bit 1 slot - 1 - 4) = n - 4" "0 < n - 4"
      using 3 unat_drop_bit [of 1 slot] by (simp_all add: unat_sub word_le_nat_alt n_def)
    have "slot_check buf probs slot s = chk_bind (direct_check (n - 4) buf s) (\<lambda>s. rev_check 4 buf probs ALIGN 1 1 s)"
      using 3 n(1) by (simp add: slot_check_def word_less_nat_alt word_le_nat_alt
          K_START_POS_MODEL_INDEX_def K_END_POS_MODEL_INDEX_def K_NUM_ALIGN_BITS_def)
    moreover have "dist_tail slot = bp_bind (direct_prog (n - 4) d) (\<lambda>d.
        bp_bind (rev_prog 4 ALIGN 1 1) (\<lambda>(i, m). Ret (push_bit 4 d OR (i - m))))"
      using 3 by (simp add: dist_tail_def Let_def n_def d_def word_less_nat_alt)
    ultimately show ?thesis
      by (simp add: direct_check_eq [OF n(2), where d = d and probs = probs] rev_check_eq bp_check_bind case_prod_unfold)
  qed
qed

lemma distance_check_eq:
  "distance_check buf probs len s = chk_bind (bp_check buf (dist_prog len) probs s) (\<lambda>(_, s). chk_ret s)"
proof -
  define w where "w = (if len < of_nat K_NUM_LEN_TO_POS_STATES - 1 then len else of_nat K_NUM_LEN_TO_POS_STATES - 1)"
  have "unat w = min (unat len) 3" by (auto simp: w_def lz_consts word_less_nat_alt min_def)
  then have base: "POS_SLOT + unat (push_bit K_NUM_POS_SLOT_BITS w) = slot_base len"
    using unat_push_bit [of w 6] by (simp add: slot_base_def lz_consts min_less_iff_disj)
  have t6: "tree_check buf probs b 0x40 1 s = bp_check buf (tree_prog 6 b 1) probs s" for b s
    by (rule tree_check_1) (auto simp: lz_consts)
  have post: "bp_post (\<lambda>x. 64 \<le> unat x \<and> unat x < 128) (tree_prog 6 (slot_base len) 1)"
    using tree_prog_post [of 1 6] by simp
  have p64: "push_bit K_NUM_POS_SLOT_BITS 1 = (0x40 :: u32)" by (simp add: lz_consts)
  have "distance_check buf probs len s = chk_bind (bp_check buf (tree_prog 6 (slot_base len) 1) probs s)
      (\<lambda>(i, s). slot_check buf probs (i - 0x40) s)"
    by (simp only: distance_check_def Let_def w_def [symmetric] base t6 slot_check_def p64)
  also have "\<dots> = chk_bind (bp_check buf (tree_prog 6 (slot_base len) 1) probs s)
      (\<lambda>(i, s). chk_bind (bp_check buf (dist_tail (i - 0x40)) probs s) (\<lambda>(_, s). chk_ret s))"
    by (rule bp_check_cong [OF post]) (auto simp: slot_check_eq unat_sub word_le_nat_alt)
  finally show ?thesis by (simp add: dist_prog_def bp_check_bind case_prod_unfold)
qed

lemma rep_check_eq:
  "chk_bind (rep_check buf probs ps st s) (\<lambda>(short, s). if short then chk_ret (DRep, s)
      else chk_bind (len_check buf probs REP_LEN_CODER ps s) (\<lambda>(len, s). chk_ret (DRep, s))) =
   chk_bind (bp_check buf (Bit (IS_REP_G0 + unat st) (\<lambda>b. if \<not> b then
       Bit (IS_REP0_LONG + unat (ps + st)) (\<lambda>b. if \<not> b then Ret SShortRep else rep_len_prog ps 0)
     else Bit (IS_REP_G1 + unat st) (\<lambda>b. if \<not> b then rep_len_prog ps 1
     else Bit (IS_REP_G2 + unat st) (\<lambda>b. rep_len_prog ps (if b then 3 else 2))))) probs s)
     (\<lambda>(sy, s). chk_ret (DRep, s))"
  unfolding rep_check_def rep_len_prog_def
  by (auto simp: bp_check_bind len_check_eq case_prod_unfold intro!: chk_bind_cong split: if_splits)

fun sym_kind :: "symb \<Rightarrow> dummy_res" where
  "sym_kind (SLit _) = DLit"
| "sym_kind SShortRep = DRep"
| "sym_kind (SRep _ _) = DRep"
| "sym_kind (SMatch _ _) = DMatch"

lemma dummy_lit_offset:
  fixes pp :: u32 and prev :: u8
  assumes "k \<le> 8" "j \<le> 4"
  shows "LZMA_LIT_SIZE * unat (push_bit k (pp AND (push_bit j 1 - 1)) + (drop_bit (8 - k) (ucast prev) :: u32)) =
    0x300 * ((unat pp mod 2 ^ j) * 2 ^ k + unat prev div 2 ^ (8 - k))"
proof -
  have m: "push_bit j 1 - 1 = (mask j :: u32)" by (simp add: mask_eq_exp_minus_1 push_bit_eq_mult)
  have c: "(unat pp mod 2 ^ j) * 2 ^ k + unat prev div 2 ^ (8 - k) < 2 ^ (k + j)"
    using lit_context_nat [of "unat prev" k "unat pp" j, symmetric] assms(1) by simp
  also have "(2::nat) ^ (k + j) \<le> 2 ^ 12" using assms by (intro power_increasing) auto
  finally have lt: "(unat pp mod 2 ^ j) * 2 ^ k + unat prev div 2 ^ (8 - k) < 2 ^ 12" .
  have a: "unat (push_bit k (pp AND mask j)) = (unat pp mod 2 ^ j) * 2 ^ k"
    using unat_push_bit [of "pp AND mask j" k] lt by (simp add: unat_and_mask)
  have b: "unat (drop_bit (8 - k) (ucast prev) :: u32) = unat prev div 2 ^ (8 - k)"
    using unat_drop_bit [of "8 - k" "ucast prev :: u32"] by simp
  have "unat (push_bit k (pp AND mask j) + (drop_bit (8 - k) (ucast prev) :: u32)) =
      (unat pp mod 2 ^ j) * 2 ^ k + unat prev div 2 ^ (8 - k)"
    using lt unfolding unat_word_ariths a b by simp
  then show ?thesis by (simp only: m lz_consts)
qed

lemma literal_check_eq:
  assumes "lz_ok (real_env p limit inp bl) (real_locals p bs)" "props_ok (p_prop p)"
  defines "c \<equiv> sym_ctx (real_env p limit inp bl) (real_locals p bs)"
  shows "literal_check p buf s = chk_bind (bp_check buf (lit_prog c) (p_probs p) s) (\<lambda>(_, s). chk_ret s)"
proof -
  obtain r0 r1 r2 r3 where r: "p_reps p = (r0, r1, r2, r3)" by (cases "p_reps p")
  have k: "unat (lc (p_prop p)) \<le> 8" "unat (lp (p_prop p)) \<le> 4" using assms(2) by (auto simp: props_ok_def)
  have len: "length (p_dic p) = p_dic_buf_size p" "p_dic_pos p \<le> p_dic_buf_size p" "0 < p_dic_buf_size p"
    using assms(1) by (auto simp: lz_ok_def env_ok_def real_env_def real_locals_def r)
  note mb = match_byte_Some [OF assms(1), folded c_def]
  have lit: "(if p_check_dic_size p \<noteq> 0 \<or> p_processed_pos p \<noteq> 0
        then do {
          prev \<leftarrow> get_at (p_dic p) ((if p_dic_pos p = 0 then p_dic_buf_size p else p_dic_pos p) - 1);
          Some (LITERAL + LZMA_LIT_SIZE *
            unat (push_bit (unat (lc (p_prop p))) (p_processed_pos p AND (push_bit (unat (lp (p_prop p))) 1 - 1))
              + (drop_bit (8 - unat (lc (p_prop p))) (ucast prev) :: u32))) }
        else Some LITERAL) = Some (c_lit c)"
    using lit_prob_Some [OF assms(1), folded c_def]
    unfolding dummy_lit_offset [OF k] lit_prob_def real_env_def real_locals_def r prod.case
      lzenv.select_convs lz.select_convs lit_offset_eq [OF k] disj_commute [of "p_check_dic_size p \<noteq> 0"] .
  have st: "c_state c = p_state p" by (simp add: c_def sym_ctx_def real_locals_def r)
  have t8: "tree_check buf (p_probs p) b 0x100 1 s = bp_check buf (tree_prog 8 b 1) (p_probs p) s" for b s
    by (rule tree_check_1) auto
  have m8: "matched_check buf (p_probs p) b mb 0x100 1 s = bp_check buf (matched_prog 8 b 1 mb 0x100) (p_probs p) s" for b mb s
    using matched_check_eq [of 0 1 7] by (simp add: eval_nat_numeral)
  show ?thesis
    using mb unfolding literal_check_def Let_def lit lit_prog_def st
    by (simp add: t8 m8 real_env_def real_locals_def r case_prod_unfold del: get_at_Some_iff)
qed

lemma symbol_check_eq:
  assumes "lz_ok (real_env p limit inp bl) (real_locals p bs)" "props_ok (p_prop p)"
  defines "c \<equiv> sym_ctx (real_env p limit inp bl) (real_locals p bs)"
  shows "symbol_check p buf s = chk_bind (bp_check buf (symbol_prog c) (p_probs p) s) (\<lambda>(sy, s). chk_ret (sym_kind sy, s))"
proof -
  obtain r0 r1 r2 r3 where r: "p_reps p = (r0, r1, r2, r3)" by (cases "p_reps p")
  have c: "c_state c = p_state p"
      "c_pos_state c = push_bit 4 (p_processed_pos p AND (push_bit (unat (pb (p_prop p))) 1 - 1))"
    by (simp_all add: c_def sym_ctx_def real_locals_def real_env_def r)
  have k: "chk_bind (bp_check buf (if b then p1 else p2) (p_probs p) s) f =
      (if b then chk_bind (bp_check buf p1 (p_probs p) s) f else chk_bind (bp_check buf p2 (p_probs p) s) f)"
    for b and p1 p2 :: "symb bitprog" and s and f :: "symb \<times> rc \<Rightarrow> (dummy_res \<times> rc) chk" by simp
  have lit: "chk_bind (literal_check p buf s) (\<lambda>s. chk_ret (DLit, s)) =
      chk_bind (bp_check buf (bp_bind (lit_prog c) (\<lambda>x. Ret (SLit x))) (p_probs p) s) (\<lambda>(sy, s). chk_ret (sym_kind sy, s))" for s
    unfolding literal_check_eq [OF assms(1,2), folded c_def] by (simp add: bp_check_bind case_prod_unfold)
  have match: "chk_bind (len_check buf (p_probs p) LEN_CODER ps s) (\<lambda>(len, s).
        chk_bind (distance_check buf (p_probs p) len s) (\<lambda>s. chk_ret (DMatch, s))) =
      chk_bind (bp_check buf (bp_bind (len_prog LEN_CODER ps) (\<lambda>len. bp_bind (dist_prog len) (\<lambda>d. Ret (SMatch len d)))) (p_probs p) s)
        (\<lambda>(sy, s). chk_ret (sym_kind sy, s))" for ps s
    by (simp add: len_check_eq distance_check_eq bp_check_bind case_prod_unfold)
  define ps where "ps = push_bit 4 (p_processed_pos p AND (push_bit (unat (pb (p_prop p))) 1 - 1))"
  define mp where "mp = bp_bind (len_prog LEN_CODER ps) (\<lambda>len. bp_bind (dist_prog len) (\<lambda>d. Ret (SMatch len d)))"
  define rp where "rp = Bit (IS_REP_G0 + unat (p_state p)) (\<lambda>b. if \<not> b then
       Bit (IS_REP0_LONG + unat (ps + p_state p)) (\<lambda>b. if \<not> b then Ret SShortRep else rep_len_prog ps 0)
     else Bit (IS_REP_G1 + unat (p_state p)) (\<lambda>b. if \<not> b then rep_len_prog ps 1
     else Bit (IS_REP_G2 + unat (p_state p)) (\<lambda>b. rep_len_prog ps (if b then 3 else 2))))"
  have "bp_post (\<lambda>sy. sym_kind sy = DRep) rp"
    by (simp add: rp_def rep_len_prog_def bp_post_bind [OF bp_post_True])
  then have rep: "chk_bind (bp_check buf rp (p_probs p) s) (\<lambda>(sy, s). chk_ret (DRep, s)) =
      chk_bind (bp_check buf rp (p_probs p) s) (\<lambda>(sy, s). chk_ret (sym_kind sy, s))" for s
    by (rule bp_check_cong) simp
  have prog: "symbol_prog c = Bit (IS_MATCH + unat (ps + p_state p)) (\<lambda>b. if \<not> b then bp_bind (lit_prog c) (\<lambda>x. Ret (SLit x))
      else Bit (IS_REP + unat (p_state p)) (\<lambda>b. if \<not> b then mp else rp))"
    by (simp only: symbol_prog_def Let_def c ps_def mp_def rp_def)
  show ?thesis
    unfolding symbol_check_def Let_def ps_def [symmetric] prog match rep_check_eq mp_def [symmetric] rp_def [symmetric] rep lit
    by (auto intro!: chk_bind_cong)
qed

subsection \<open>Agreement with the fast loop\<close>

text \<open>The symbol at the head of \<open>inp\<close> and the bytes it takes, the last normalization included.\<close>

definition next_symbol :: "sctx \<Rightarrow> u16 list \<Rightarrow> rc \<Rightarrow> bytes \<Rightarrow> (symb \<times> u16 list \<times> rc \<times> rc) option" where
  "next_symbol c probs s inp = do {
     (sy, probs', s1) \<leftarrow> bp_run inp (symbol_prog c) probs s;
     s2 \<leftarrow> normalize inp s1;
     Some (sy, probs', s1, s2) }"

definition dec_ctx :: "lzma_dec \<Rightarrow> sctx" where
  "dec_ctx p = sym_ctx (real_env p 0 [] 0) (real_locals p 0)"

definition dec_rc :: "lzma_dec \<Rightarrow> rc" where
  "dec_rc p = \<lparr>rc_range = p_range p, rc_code = p_code p, rc_buf = 0\<rparr>"

lemma sym_ctx_dec: "sym_ctx (real_env p limit inp bl) (real_locals p bs) = dec_ctx p"
  by (cases "p_reps p") (simp add: dec_ctx_def sym_ctx_def real_env_def real_locals_def)

lemma try_dummy_eq:
  assumes "lz_ok (real_env p limit inp bl) (real_locals p bs)" "props_ok (p_prop p)"
  shows "case next_symbol (dec_ctx p) (p_probs p) (dec_rc p) buf of
      Some (sy, _, _, s2) \<Rightarrow> lzma_dec_try_dummy p buf = Some (sym_kind sy, rc_buf s2)
    | None \<Rightarrow> \<exists>pos. lzma_dec_try_dummy p buf = Some (InputEof, pos)"
proof -
  let ?c = "dec_ctx p"
  have "p_probs p = l_probs (real_locals p bs)" by (cases "p_reps p") (simp add: real_locals_def)
  then have ctx: "ctx_ok (length (p_probs p)) ?c" using sym_ctx_ok [OF assms(1)] by (simp add: sym_ctx_dec)
  note r = symbol_prog_range [OF ctx]
  have pk: "bp_peek buf (symbol_prog ?c) (p_probs p) (dec_rc p) =
      map_option (\<lambda>(x, probs', s'). (x, s')) (bp_run buf (symbol_prog ?c) (p_probs p) (dec_rc p))"
    using bp_peek_eq_run [OF r(2,1)] by simp
  note ck = bp_check_peek [OF r(1), of buf "dec_rc p"]
  have eq: "lzma_dec_try_dummy p buf =
     (case chk_bind (bp_check buf (symbol_prog ?c) (p_probs p) (dec_rc p)) (\<lambda>(sy, s).
             chk_bind (normalize_check buf s) (\<lambda>s. chk_ret (sym_kind sy, rc_buf s))) of
        None \<Rightarrow> None | Some (Inl r) \<Rightarrow> Some r | Some (Inr r) \<Rightarrow> Some r)"
    unfolding lzma_dec_try_dummy_def symbol_check_eq [OF assms] sym_ctx_dec dec_rc_def
    by (simp add: case_prod_unfold)
  show ?thesis
    using ck unfolding pk eq next_symbol_def
    by (auto simp: normalize_check_eq split: option.splits)
qed

end
