(* ===== verification/LzmaDec.thy ===== *)
theory LzmaDec
  imports LzmaDummy
begin

text \<open>
  \<open>src/src/lzma/mod.rs\<close>: \<open>lzma_dec_write_rem\<close>, \<open>lzma_dec_decode_real2\<close>, \<open>lzma_dec_decode_to_dic\<close>
  and the public \<open>LzmaDecoder\<close>. Input is consumed from \<open>src\<close> at \<open>src_pos\<close>; the fast loop is handed
  what is readable from its \<open>buf_start\<close> pointer, so its positions count from there. Of the two loops
  \<open>decode_opt::decode_real\<close> chooses between, the portable one is modelled. \<open>None\<close> is a panic, undefined
  behaviour inside \<open>decode_real\<close>, or a loop that does not end.
\<close>

subsection \<open>Finishing a pending match\<close>

primrec rem_copy :: "nat \<Rightarrow> bytes \<Rightarrow> nat \<Rightarrow> nat \<Rightarrow> u32 \<Rightarrow> (bytes \<times> nat) option" where
  "rem_copy 0 d buf_size dpos rep0 = None"
| "rem_copy (Suc n) d buf_size dpos rep0 = do {
     b \<leftarrow> get_at d (dic_back buf_size dpos rep0);
     d \<leftarrow> set_at d dpos b;
     if n = 0 then Some (d, dpos + 1) else rem_copy n d buf_size (dpos + 1) rep0 }"

definition lzma_dec_write_rem :: "lzma_dec \<Rightarrow> nat \<Rightarrow> lzma_dec option" where
  "lzma_dec_write_rem p limit =
     (let len = p_remain_len p in
      if len = 0 then Some p
      else do {
        let dpos = p_dic_pos p;
        rem \<leftarrow> (if limit < dpos then None else Some (limit - dpos));
        let len = (if rem < unat len then of_nat rem else len);
        if len = 0 then Some p
        else do {
          let p = (if p_check_dic_size p = 0 \<and> dict_size (p_prop p) - p_processed_pos p \<le> len
                   then p\<lparr>p_check_dic_size := dict_size (p_prop p)\<rparr> else p);
          let p = p\<lparr>p_processed_pos := p_processed_pos p + len, p_remain_len := p_remain_len p - len\<rparr>;
          (d, dpos) \<leftarrow> rem_copy (unat len) (p_dic p) (p_dic_buf_size p) dpos (fst (p_reps p));
          Some (p\<lparr>p_dic := d, p_dic_pos := dpos\<rparr>) } })"

definition lzma_dec_decode_real2 :: "lzma_dec \<Rightarrow> nat \<Rightarrow> bytes \<Rightarrow> nat \<Rightarrow> (lzma_dec \<times> nat \<times> bool) option" where
  "lzma_dec_decode_real2 p limit inp buf_limit = do {
     limit \<leftarrow>
       (if p_check_dic_size p = 0
        then (let rem = dict_size (p_prop p) - p_processed_pos p in
              if limit < p_dic_pos p then None
              else if unat rem < limit - p_dic_pos p then Some (p_dic_pos p + unat rem)
              else Some limit)
        else Some limit);
     (p, res) \<leftarrow> lzma_dec_decode_real p limit inp 0 buf_limit;
     let p = (if p_check_dic_size p = 0 \<and> dict_size (p_prop p) \<le> p_processed_pos p
              then p\<lparr>p_check_dic_size := dict_size (p_prop p)\<rparr> else p);
     Some (p, res) }"

subsection \<open>\<open>lzma_dec_decode_to_dic\<close>\<close>

type_synonym to_dic_result = "lzma_dec \<times> status \<times> (lzma_error + nat)"

text \<open>\<open>while in_size > 0 && p.temp_buf_size < RC_INIT_SIZE\<close>: the bytes that are left, and how many
  were taken.\<close>

fun fill_init :: "lzma_dec \<Rightarrow> bytes \<Rightarrow> nat \<Rightarrow> (lzma_dec \<times> bytes \<times> nat) option" where
  "fill_init p [] n = Some (p, [], n)"
| "fill_init p (b # src) n =
     (if p_temp_buf_size p < RC_INIT_SIZE
      then do {
        t \<leftarrow> set_at (p_temp_buf p) (p_temp_buf_size p) b;
        fill_init (p\<lparr>p_temp_buf := t, p_temp_buf_size := p_temp_buf_size p + 1\<rparr>) src (n + 1) }
      else Some (p, b # src, n))"

text \<open>The start-up of the range coder. \<open>Inl\<close> is an early return of the function, \<open>Inr\<close> goes on to
  the main loop with the bytes that are left and the number consumed.\<close>

definition start_coder :: "lzma_dec \<Rightarrow> bytes \<Rightarrow> (to_dic_result + lzma_dec \<times> bytes \<times> nat) option" where
  "start_coder p src =
     (if K_MATCH_SPEC_LEN_START < p_remain_len p
      then
        if K_MATCH_SPEC_LEN_START + 2 < p_remain_len p
        then Some (Inl (p, NotSpecified, Inl (if p_remain_len p = K_MATCH_SPEC_LEN_ERROR_FAIL
                                             then InternalFailure else CorruptData)))
        else do {
          (p, src, n) \<leftarrow> fill_init p src 0;
          t0 \<leftarrow> get_at (p_temp_buf p) 0;
          if p_temp_buf_size p \<noteq> 0 \<and> t0 \<noteq> 0 then Some (Inl (p, NotSpecified, Inl CorruptData))
          else if p_temp_buf_size p < RC_INIT_SIZE then Some (Inl (p, NeedsMoreInput, Inr n))
          else do {
            t1 \<leftarrow> get_at (p_temp_buf p) 1; t2 \<leftarrow> get_at (p_temp_buf p) 2;
            t3 \<leftarrow> get_at (p_temp_buf p) 3; t4 \<leftarrow> get_at (p_temp_buf p) 4;
            let p = p\<lparr>p_code := push_bit 24 (ucast t1) OR push_bit 16 (ucast t2) OR push_bit 8 (ucast t3) OR ucast t4\<rparr>;
            if p_check_dic_size p = 0 \<and> p_processed_pos p = 0 \<and> K_BAD_REP_CODE \<le> p_code p
            then Some (Inl (p, NotSpecified, Inl CorruptData))
            else do {
              let p = p\<lparr>p_range := 0xFFFFFFFF, p_temp_buf_size := 0\<rparr>;
              p \<leftarrow> (if K_MATCH_SPEC_LEN_START + 1 < p_remain_len p then reset_state p else Some p);
              Some (Inr (p\<lparr>p_remain_len := 0\<rparr>, src, n)) } } }
      else Some (Inr (p, src, 0)))"

text \<open>One turn of the main loop on the unread bytes \<open>src\<close> (\<open>in_size\<close> of them) and \<open>src_len\<close> consumed:
  \<open>Return\<close> leaves the function, \<open>Again\<close> is \<open>continue\<close>, \<open>Broken\<close> is the \<open>break\<close> to the internal failure.\<close>

datatype turn =
    Return to_dic_result
  | Again lzma_dec bytes nat
  | Broken lzma_dec

definition after_real :: "lzma_dec \<Rightarrow> bool \<Rightarrow> bytes \<Rightarrow> nat \<Rightarrow> nat \<Rightarrow> turn option" where
  "after_real p ok src src_len processed =
     (if length src < processed then None
      else if \<not> ok
      then Some (Return (p\<lparr>p_remain_len := K_MATCH_SPEC_LEN_ERROR_DATA\<rparr>, NotSpecified, Inl CorruptData))
      else Some (Again p (drop processed src) (src_len + processed)))"

definition turn_src :: "lzma_dec \<Rightarrow> nat \<Rightarrow> bool \<Rightarrow> bytes \<Rightarrow> nat \<Rightarrow> turn option" where
  "turn_src p dic_limit check_end_mark_now src src_len = (
     let in_size = length src in
     if in_size < LZMA_REQUIRED_INPUT_MAX \<or> check_end_mark_now
     then do {
       (dummy_res, dummy_len) \<leftarrow> lzma_dec_try_dummy p src;
       if dummy_res = InputEof
       then
         if LZMA_REQUIRED_INPUT_MAX \<le> in_size then Some (Broken p)
         else do {
           t \<leftarrow> copy_into (p_temp_buf p) 0 src;
           Some (Return (p\<lparr>p_temp_buf_size := in_size, p_temp_buf := t\<rparr>, NeedsMoreInput, Inr (src_len + in_size))) }
       else if LZMA_REQUIRED_INPUT_MAX < dummy_len then Some (Broken p)
       else if check_end_mark_now \<and> \<not> end_marker_possible dummy_res
       then do {
         part \<leftarrow> slice src 0 dummy_len;
         t \<leftarrow> copy_into (p_temp_buf p) 0 part;
         Some (Return (p\<lparr>p_temp_buf_size := dummy_len, p_temp_buf := t\<rparr>, NotFinished, Inl CorruptData)) }
       else do {
         (p, processed, ok) \<leftarrow> lzma_dec_decode_real2 p dic_limit src 0;
         if dummy_len \<noteq> processed then Some (Broken p)
         else after_real p ok src src_len processed } }
     else do {
       (p, processed, ok) \<leftarrow> lzma_dec_decode_real2 p dic_limit src (in_size - LZMA_REQUIRED_INPUT_MAX);
       if in_size < processed then Some (Broken p)
       else after_real p ok src src_len processed })"

text \<open>\<open>while rem < LZMA_REQUIRED_INPUT_MAX && ahead < in_size\<close>\<close>

fun fill_temp :: "bytes \<Rightarrow> nat \<Rightarrow> nat \<Rightarrow> bytes \<Rightarrow> (bytes \<times> nat \<times> nat) option" where
  "fill_temp t rem ahead [] = Some (t, rem, ahead)"
| "fill_temp t rem ahead (b # src) =
     (if rem < LZMA_REQUIRED_INPUT_MAX
      then do { t \<leftarrow> set_at t rem b; fill_temp t (rem + 1) (ahead + 1) src }
      else Some (t, rem, ahead))"

definition after_temp :: "lzma_dec \<Rightarrow> bool \<Rightarrow> bytes \<Rightarrow> nat \<Rightarrow> nat \<Rightarrow> turn option" where
  "after_temp p ok src src_len processed =
     (if processed < p_temp_buf_size p then None
      else after_real (p\<lparr>p_temp_buf_size := 0\<rparr>) ok src src_len (processed - p_temp_buf_size p))"

definition turn_temp :: "lzma_dec \<Rightarrow> nat \<Rightarrow> bool \<Rightarrow> bytes \<Rightarrow> nat \<Rightarrow> turn option" where
  "turn_temp p dic_limit check_end_mark_now src src_len = do {
     (t, rem, ahead) \<leftarrow> fill_temp (p_temp_buf p) (p_temp_buf_size p) 0 src;
     let p = p\<lparr>p_temp_buf := t\<rparr>;
     if rem < LZMA_REQUIRED_INPUT_MAX \<or> check_end_mark_now
     then do {
       temp \<leftarrow> slice (p_temp_buf p) 0 rem;
       (dummy_res, dummy_len) \<leftarrow> lzma_dec_try_dummy p temp;
       if dummy_res = InputEof
       then
         if LZMA_REQUIRED_INPUT_MAX \<le> rem then Some (Broken p)
         else Some (Return (p\<lparr>p_temp_buf_size := rem\<rparr>, NeedsMoreInput, Inr (src_len + ahead)))
       else if dummy_len < p_temp_buf_size p then Some (Broken p)
       else if check_end_mark_now \<and> \<not> end_marker_possible dummy_res
       then Some (Return (p\<lparr>p_temp_buf_size := dummy_len\<rparr>, NotFinished, Inl CorruptData))
       else do {
         (p, processed, ok) \<leftarrow> lzma_dec_decode_real2 p dic_limit (p_temp_buf p) 0;
         if dummy_len \<noteq> processed then Some (Broken p)
         else after_temp p ok src src_len processed } }
     else do {
       (p, processed, ok) \<leftarrow> lzma_dec_decode_real2 p dic_limit (p_temp_buf p) 0;
       if LZMA_REQUIRED_INPUT_MAX < processed then Some (Broken p)
       else if processed < p_temp_buf_size p then Some (Broken p)
       else after_temp p ok src src_len processed } }"

definition dic_turn :: "finish_mode \<Rightarrow> nat \<Rightarrow> lzma_dec \<Rightarrow> bytes \<Rightarrow> nat \<Rightarrow> turn option" where
  "dic_turn mode dic_limit p src src_len =
     (if p_remain_len p = K_MATCH_SPEC_LEN_START
      then
        if p_code p \<noteq> 0 then Some (Return (p, NotSpecified, Inl CorruptData))
        else Some (Return (p, FinishedWithMark, Inr src_len))
      else do {
        p \<leftarrow> lzma_dec_write_rem p dic_limit;
        if dic_limit \<le> p_dic_pos p \<and> p_remain_len p = 0 \<and> p_code p = 0
        then Some (Return (p, MaybeFinishedWithoutMark, Inr src_len))
        else if dic_limit \<le> p_dic_pos p \<and> mode = Any
        then Some (Return (p, NotFinished, Inr src_len))
        else if dic_limit \<le> p_dic_pos p \<and> p_remain_len p \<noteq> 0
        then Some (Return (p, NotFinished, Inl CorruptData))
        else (
          let check_end_mark_now = (dic_limit \<le> p_dic_pos p) in
          if p_temp_buf_size p = 0 then turn_src p dic_limit check_end_mark_now src src_len
          else turn_temp p dic_limit check_end_mark_now src src_len) })"

partial_function (option) dic_loop :: "finish_mode \<Rightarrow> nat \<Rightarrow> lzma_dec \<Rightarrow> bytes \<Rightarrow> nat \<Rightarrow> to_dic_result option" where
  [code]: "dic_loop mode dic_limit p src src_len =
     (case dic_turn mode dic_limit p src src_len of
        None \<Rightarrow> None
      | Some t \<Rightarrow> (case t of
          Return r \<Rightarrow> Some r
        | Again p src src_len \<Rightarrow> dic_loop mode dic_limit p src src_len
        | Broken p \<Rightarrow> Some (p\<lparr>p_remain_len := K_MATCH_SPEC_LEN_ERROR_FAIL\<rparr>, NotSpecified, Inl InternalFailure)))"

definition lzma_dec_decode_to_dic :: "lzma_dec \<Rightarrow> nat \<Rightarrow> bytes \<Rightarrow> finish_mode \<Rightarrow> to_dic_result option" where
  "lzma_dec_decode_to_dic p dic_limit src mode = do {
     r \<leftarrow> start_coder p src;
     case r of
       Inl res \<Rightarrow> Some res
     | Inr (p, src, n) \<Rightarrow> dic_loop mode dic_limit p src n }"

subsection \<open>\<open>LzmaDecoder\<close>\<close>

text \<open>\<open>Progress\<close> is bytes read, bytes written and the status; the bytes written are returned.\<close>

record progress =
  pr_read :: nat
  pr_written :: nat
  pr_status :: status

definition lzma_decoder_new :: "(nat \<Rightarrow> bool) \<Rightarrow> lzma_props \<Rightarrow> lzma_error + lzma_dec" where
  "lzma_decoder_new alloc_ok props = dec_new alloc_ok props"

definition lzma_decoder_new_portable :: "(nat \<Rightarrow> bool) \<Rightarrow> lzma_props \<Rightarrow> lzma_error + lzma_dec" where
  "lzma_decoder_new_portable alloc_ok props =
     (case lzma_decoder_new alloc_ok props of Inl e \<Rightarrow> Inl e | Inr p \<Rightarrow> Inr (p\<lparr>p_force_portable := True\<rparr>))"

definition lzma_decoder_reset :: "lzma_dec \<Rightarrow> lzma_dec" where
  "lzma_decoder_reset p = dec_init p"

text \<open>The loop of \<open>decode\<close>: \<open>src\<close> is the unread input, \<open>out_size\<close> the room left, \<open>out\<close> what has been
  copied to \<open>output\<close>.\<close>

partial_function (option) decode_loop ::
  "finish_mode \<Rightarrow> lzma_dec \<Rightarrow> bytes \<Rightarrow> nat \<Rightarrow> nat \<Rightarrow> bytes \<Rightarrow> (lzma_dec \<times> (lzma_error + bytes \<times> progress)) option" where
  [code]: "decode_loop finish p src src_pos out_size out = (
     let p = (if p_dic_pos p = p_dic_buf_size p then p\<lparr>p_dic_pos := 0\<rparr> else p);
         dpos = p_dic_pos p;
         (out_size_cur, cur_finish_mode) =
           (if p_dic_buf_size p - dpos < out_size then (p_dic_buf_size p, Any) else (dpos + out_size, finish)) in
     case lzma_dec_decode_to_dic p out_size_cur src cur_finish_mode of
       None \<Rightarrow> None
     | Some (p, status, Inl e) \<Rightarrow> Some (p, Inl e)
     | Some (p, status, Inr n) \<Rightarrow>
         if length src < n \<or> p_dic_pos p < dpos then None
         else (case slice (p_dic p) dpos (p_dic_pos p) of
           None \<Rightarrow> None
         | Some part \<Rightarrow>
             let cur = p_dic_pos p - dpos in
             if out_size < cur then None
             else if cur = 0 \<or> out_size - cur = 0
             then Some (p, Inr (out @ part, \<lparr>pr_read = src_pos + n, pr_written = length out + cur, pr_status = status\<rparr>))
             else decode_loop finish p (drop n src) (src_pos + n) (out_size - cur) (out @ part)))"

definition lzma_decoder_decode :: "lzma_dec \<Rightarrow> bytes \<Rightarrow> nat \<Rightarrow> finish_mode \<Rightarrow> (lzma_dec \<times> (lzma_error + bytes \<times> progress)) option" where
  "lzma_decoder_decode p input out_len finish = decode_loop finish p input 0 out_len []"

end
