(* ===== verification/Lzma2Dec.thy ===== *)
theory Lzma2Dec
  imports LzmaDec Lzma2Frame
begin

text \<open>
  \<open>src/src/lzma2/mod.rs\<close>: the LZMA2 decoder, chunk framing over the LZMA decoder. As there, \<open>None\<close> is a
  panic, undefined behaviour or a loop that does not end; a result is the new state, the status written
  through \<open>status\<close> and the bytes consumed or the error.
\<close>

record lzma2_decoder =
  l2_frame :: lzma2_frame
  l2_decoder :: lzma_dec

definition lzma2_reset :: "lzma2_decoder \<Rightarrow> lzma2_decoder" where
  "lzma2_reset d = d\<lparr>l2_frame := frame_init (l2_frame d), l2_decoder := dec_init (l2_decoder d)\<rparr>"

text \<open>The common body of the constructors: \<open>mk\<close> is \<open>LzmaDec::new\<close> or \<open>LzmaDec::new_probs_only\<close>.\<close>

definition lzma2_build :: "(lzma_props \<Rightarrow> lzma_error + lzma_dec) \<Rightarrow> u32 \<Rightarrow> lzma_error + lzma2_decoder" where
  "lzma2_build mk dic_size =
     (case props_new LZMA2_LCLP_MAX 0 0 (max dic_size LZMA_DIC_MIN) of
        Inl e \<Rightarrow> Inl e
      | Inr pr \<Rightarrow> (case mk pr of
          Inl e \<Rightarrow> Inl e
        | Inr p \<Rightarrow> Inr (lzma2_reset \<lparr>l2_frame = frame_new, l2_decoder = p\<rparr>)))"

definition lzma2_new :: "(nat \<Rightarrow> bool) \<Rightarrow> u8 \<Rightarrow> lzma_error + lzma2_decoder" where
  "lzma2_new alloc_ok dict_prop =
     (if 40 < dict_prop then Inl UnsupportedProps
      else lzma2_build (dec_new alloc_ok) (dic_size_from_prop_full dict_prop))"

definition lzma2_new_capped :: "(nat \<Rightarrow> bool) \<Rightarrow> u8 \<Rightarrow> u32 \<Rightarrow> lzma_error + lzma2_decoder" where
  "lzma2_new_capped alloc_ok dict_prop cap =
     (if 40 < dict_prop then Inl UnsupportedProps
      else lzma2_build (dec_new alloc_ok) (min (dic_size_from_prop_full dict_prop) cap))"

definition lzma2_new_portable :: "(nat \<Rightarrow> bool) \<Rightarrow> u8 \<Rightarrow> lzma_error + lzma2_decoder" where
  "lzma2_new_portable alloc_ok dict_prop =
     (case lzma2_new alloc_ok dict_prop of
        Inl e \<Rightarrow> Inl e
      | Inr d \<Rightarrow> Inr (d\<lparr>l2_decoder := (l2_decoder d)\<lparr>p_force_portable := True\<rparr>\<rparr>))"

definition lzma2_new_probs_only :: "(nat \<Rightarrow> bool) \<Rightarrow> u8 \<Rightarrow> lzma_error + lzma2_decoder" where
  "lzma2_new_probs_only alloc_ok dict_prop =
     (if 40 < dict_prop then Inl UnsupportedProps
      else lzma2_build (dec_new_probs_only alloc_ok) (dic_size_from_prop_full dict_prop))"

text \<open>The decoder's \<open>update_state\<close>, with the returned state stored as its only caller does.\<close>

definition lzma2_update_state :: "u8 \<Rightarrow> lzma2_decoder \<Rightarrow> lzma2_decoder \<times> lzma2_state" where
  "lzma2_update_state b d =
     (let (f, pr, next) = update_state b (p_prop (l2_decoder d)) (l2_frame d) in
      (d\<lparr>l2_frame := f, l2_decoder := (l2_decoder d)\<lparr>p_prop := pr\<rparr>\<rparr>, next))"

definition set_state :: "lzma2_state \<Rightarrow> lzma2_decoder \<Rightarrow> lzma2_decoder" where
  "set_state s d = d\<lparr>l2_frame := (l2_frame d)\<lparr>f_state := s\<rparr>\<rparr>"

subsection \<open>\<open>decode_to_dic\<close>\<close>

type_synonym l2_result = "lzma2_decoder \<times> status \<times> (lzma_error + nat)"

datatype l2_turn =
    L2Return l2_result
  | L2Again lzma2_decoder nat
  | L2Break lzma2_decoder

text \<open>\<open>LzmaDec_UpdateWithUncompressed\<close>: \<open>part\<close> goes to the dictionary as it is.\<close>

definition update_with_uncompressed :: "bytes \<Rightarrow> lzma_dec \<Rightarrow> lzma_dec option" where
  "update_with_uncompressed part p = do {
     d \<leftarrow> copy_into (p_dic p) (p_dic_pos p) part;
     let n = (of_nat (length part) :: u32);
     let p = p\<lparr>p_dic := d, p_dic_pos := p_dic_pos p + length part\<rparr>;
     let p = (if p_check_dic_size p = 0 \<and> dict_size (p_prop p) - p_processed_pos p \<le> n
              then p\<lparr>p_check_dic_size := dict_size (p_prop p)\<rparr> else p);
     Some (p\<lparr>p_processed_pos := p_processed_pos p + n\<rparr>) }"

definition stored_turn :: "lzma2_decoder \<Rightarrow> nat \<Rightarrow> bytes \<Rightarrow> nat \<Rightarrow> l2_turn option" where
  "stored_turn d out_cur src src_len =
     (let in_cur = length src - src_len; f = l2_frame d in
      if in_cur = 0 then Some (L2Return (d, NeedsMoreInput, Inr src_len))
      else
        (let d = (if f_state f = Data
                  then d\<lparr>l2_decoder := init_dic_and_state (f_control f = LZMA2_CONTROL_COPY_RESET_DIC) False (l2_decoder d)\<rparr>
                  else d);
             in_cur = (if out_cur < in_cur then out_cur else in_cur) in
         if in_cur = 0 then Some (L2Break d)
         else do {
           part \<leftarrow> slice src src_len (src_len + in_cur);
           p \<leftarrow> update_with_uncompressed part (l2_decoder d);
           let f = f\<lparr>f_unpack_size := f_unpack_size f - of_nat in_cur\<rparr>;
           let f = f\<lparr>f_state := if f_unpack_size f = 0 then Control else DataCont\<rparr>;
           Some (L2Again (d\<lparr>l2_decoder := p, l2_frame := f\<rparr>) (src_len + in_cur)) }))"

definition lzma_turn :: "lzma2_decoder \<Rightarrow> nat \<Rightarrow> finish_mode \<Rightarrow> bytes \<Rightarrow> nat \<Rightarrow> l2_turn option" where
  "lzma_turn d out_cur cur_finish_mode src src_len =
     (let dpos = p_dic_pos (l2_decoder d); in_cur = length src - src_len; f = l2_frame d;
          d = (if f_state f = Data
               then d\<lparr>l2_decoder := init_dic_and_state (0xE0 \<le> f_control f) (0xA0 \<le> f_control f) (l2_decoder d),
                      l2_frame := f\<lparr>f_state := DataCont\<rparr>\<rparr>
               else d);
          in_cur = (if unat (f_pack_size f) < in_cur then unat (f_pack_size f) else in_cur)
      in do {
        part \<leftarrow> slice src src_len (src_len + in_cur);
        (p, status, res) \<leftarrow> lzma_dec_decode_to_dic (l2_decoder d) (dpos + out_cur) part cur_finish_mode;
        let d = d\<lparr>l2_decoder := p\<rparr>;
        case res of
          Inl e \<Rightarrow> Some (L2Return (d, status, Inl e))
        | Inr in_cur \<Rightarrow> do {
            let src_len = src_len + in_cur;
            let f = (l2_frame d)\<lparr>f_pack_size := f_pack_size (l2_frame d) - of_nat in_cur\<rparr>;
            out_cur \<leftarrow> (if p_dic_pos p < dpos then None else Some (p_dic_pos p - dpos));
            let f = f\<lparr>f_unpack_size := f_unpack_size f - of_nat out_cur\<rparr>;
            let d = d\<lparr>l2_frame := f\<rparr>;
            if status = NeedsMoreInput
            then
              if f_pack_size f = 0 then Some (L2Break d)
              else Some (L2Return (d, status, Inr src_len))
            else if in_cur = 0 \<and> out_cur = 0
            then
              if status \<noteq> MaybeFinishedWithoutMark \<or> f_unpack_size f \<noteq> 0 \<or> f_pack_size f \<noteq> 0
              then Some (L2Break d)
              else Some (L2Again (set_state Control d) src_len)
            else Some (L2Again d src_len) } })"

definition l2_turn :: "finish_mode \<Rightarrow> nat \<Rightarrow> bytes \<Rightarrow> lzma2_decoder \<Rightarrow> nat \<Rightarrow> l2_turn option" where
  "l2_turn mode dic_limit src d src_len =
     (let f = l2_frame d; dpos = p_dic_pos (l2_decoder d) in
      if f_state f = Error then Some (L2Break d)
      else if f_state f = Finished then Some (L2Return (d, FinishedWithMark, Inr src_len))
      else if dpos = dic_limit \<and> mode = Any then Some (L2Return (d, NotFinished, Inr src_len))
      else if f_state f \<noteq> Data \<and> f_state f \<noteq> DataCont
      then
        if src_len = length src then Some (L2Return (d, NeedsMoreInput, Inr src_len))
        else do {
          b \<leftarrow> get_at src src_len;
          let (d, next) = lzma2_update_state b d;
          let d = set_state next d;
          if dpos = dic_limit \<and> next \<noteq> Finished then Some (L2Break d)
          else Some (L2Again d (src_len + 1)) }
      else if dic_limit < dpos \<or> length src < src_len then None
      else
        (let out_cur = dic_limit - dpos;
             (out_cur, cur_finish_mode) =
               (if unat (f_unpack_size f) \<le> out_cur then (unat (f_unpack_size f), End) else (out_cur, Any))
         in if is_uncompressed_state (f_control f) then stored_turn d out_cur src src_len
            else lzma_turn d out_cur cur_finish_mode src src_len))"

partial_function (option) l2_loop :: "finish_mode \<Rightarrow> nat \<Rightarrow> bytes \<Rightarrow> lzma2_decoder \<Rightarrow> nat \<Rightarrow> l2_result option" where
  [code]: "l2_loop mode dic_limit src d src_len =
     (case l2_turn mode dic_limit src d src_len of
        None \<Rightarrow> None
      | Some t \<Rightarrow> (case t of
          L2Return r \<Rightarrow> Some r
        | L2Again d src_len \<Rightarrow> l2_loop mode dic_limit src d src_len
        | L2Break d \<Rightarrow> Some (set_state Error d, NotSpecified, Inl CorruptData)))"

definition lzma2_decode_to_dic :: "lzma2_decoder \<Rightarrow> nat \<Rightarrow> bytes \<Rightarrow> finish_mode \<Rightarrow> l2_result option" where
  "lzma2_decode_to_dic d dic_limit src mode = l2_loop mode dic_limit src d 0"

definition decode_block :: "lzma2_decoder \<Rightarrow> nat \<Rightarrow> bytes \<Rightarrow> finish_mode \<Rightarrow> (lzma2_decoder \<times> (lzma_error + nat \<times> status)) option" where
  "decode_block d dic_limit src mode =
     (case lzma2_decode_to_dic d dic_limit src mode of
        None \<Rightarrow> None
      | Some (d, st, Inl e) \<Rightarrow> Some (d, Inl e)
      | Some (d, st, Inr n) \<Rightarrow> Some (d, Inr (n, st)))"

subsection \<open>\<open>decode\<close> and the accessors\<close>

definition wrap_dic_pos :: "lzma2_decoder \<Rightarrow> lzma2_decoder" where
  "wrap_dic_pos d =
     (if p_dic_pos (l2_decoder d) = p_dic_buf_size (l2_decoder d)
      then d\<lparr>l2_decoder := (l2_decoder d)\<lparr>p_dic_pos := 0\<rparr>\<rparr> else d)"

partial_function (option) lzma2_decode_loop ::
  "finish_mode \<Rightarrow> lzma2_decoder \<Rightarrow> bytes \<Rightarrow> nat \<Rightarrow> nat \<Rightarrow> bytes \<Rightarrow> (lzma2_decoder \<times> (lzma_error + bytes \<times> progress)) option" where
  [code]: "lzma2_decode_loop finish d src src_pos out_size out = (
     let d = wrap_dic_pos d;
         dpos = p_dic_pos (l2_decoder d);
         out_cur = p_dic_buf_size (l2_decoder d) - dpos;
         (out_cur, cur_finish_mode) = (if out_size \<le> out_cur then (out_size, finish) else (out_cur, Any)) in
     if p_dic_buf_size (l2_decoder d) < dpos then None
     else case lzma2_decode_to_dic d (dpos + out_cur) src cur_finish_mode of
       None \<Rightarrow> None
     | Some (d, status, Inl e) \<Rightarrow> Some (d, Inl e)
     | Some (d, status, Inr n) \<Rightarrow>
         if length src < n \<or> p_dic_pos (l2_decoder d) < dpos then None
         else (case slice (p_dic (l2_decoder d)) dpos (p_dic_pos (l2_decoder d)) of
           None \<Rightarrow> None
         | Some part \<Rightarrow>
             let cur = p_dic_pos (l2_decoder d) - dpos in
             if out_size < cur then None
             else if cur = 0 \<or> out_size - cur = 0
             then Some (d, Inr (out @ part, \<lparr>pr_read = src_pos + n, pr_written = length out + cur, pr_status = status\<rparr>))
             else lzma2_decode_loop finish d (drop n src) (src_pos + n) (out_size - cur) (out @ part)))"

definition lzma2_decode :: "lzma2_decoder \<Rightarrow> bytes \<Rightarrow> nat \<Rightarrow> finish_mode \<Rightarrow> (lzma2_decoder \<times> (lzma_error + bytes \<times> progress)) option" where
  "lzma2_decode d input out_len finish = lzma2_decode_loop finish d input 0 out_len []"

definition set_block_dic :: "bytes \<Rightarrow> nat \<Rightarrow> lzma2_decoder \<Rightarrow> lzma2_decoder" where
  "set_block_dic buf sz d = lzma2_reset (d\<lparr>l2_decoder := (l2_decoder d)\<lparr>p_dic := buf, p_dic_buf_size := sz\<rparr>\<rparr>)"

definition take_block_dic :: "lzma2_decoder \<Rightarrow> lzma2_decoder \<times> bytes" where
  "take_block_dic d =
     (d\<lparr>l2_decoder := (l2_decoder d)\<lparr>p_dic_buf_size := 0, p_dic_pos := 0, p_dic := []\<rparr>\<rparr>, p_dic (l2_decoder d))"

definition lzma2_dic_pos :: "lzma2_decoder \<Rightarrow> nat" where
  "lzma2_dic_pos d = p_dic_pos (l2_decoder d)"

definition lzma2_dic_buf_size :: "lzma2_decoder \<Rightarrow> nat" where
  "lzma2_dic_buf_size d = p_dic_buf_size (l2_decoder d)"

definition at_chunk_boundary :: "lzma2_decoder \<Rightarrow> bool" where
  "at_chunk_boundary d \<longleftrightarrow> f_state (l2_frame d) = Control \<and> f_unpack_size (l2_frame d) = 0 \<and> f_pack_size (l2_frame d) = 0"

definition stored_payload :: "bytes \<Rightarrow> lzma2_decoder \<Rightarrow> (nat \<times> nat) option" where
  "stored_payload input d =
     (if f_state (l2_frame d) \<in> {Data, DataCont} \<and> is_uncompressed_state (f_control (l2_frame d))
      then Some (0, unat (f_unpack_size (l2_frame d)))
      else if at_chunk_boundary d \<and> 3 \<le> length input \<and> (input ! 0 = 1 \<or> input ! 0 = 2)
      then Some (3, unat (input ! 1) * 256 + unat (input ! 2) + 1)
      else None)"

definition dic_slice :: "nat \<Rightarrow> nat \<Rightarrow> lzma2_decoder \<Rightarrow> bytes option" where
  "dic_slice a b d = slice (p_dic (l2_decoder d)) a b"

end
