(* ===== verification/Lzma2Props.thy ===== *)
theory Lzma2Props
  imports Lzma2Dec
begin

text \<open>
  The properties of the chunk-header machine of \<open>src/src/lzma2/frame.rs\<close>, which the LZMA2 decoder,
  the parser and the run scanner share.
\<close>



text \<open>C28: The five bytes of an LZMA chunk header yield the sizes the format gives them: the low five bits
  of the control byte over the next two bytes plus one, and two bytes plus one; the machine asks for
  a properties byte exactly when the control byte announces one, and the reset level is cleared.\<close>
theorem lzma_chunk_header:
  fixes u1 u0 p1 p0 :: u8 and pr :: lzma_props
  assumes "f_state f = Control" "128 \<le> unat c" "f_need_init_level f \<le> c"
  shows "\<exists>g. fold frame_step [c, u1, u0, p1, p0] (pr, f) = (pr, g) \<and> f_control g = c \<and> f_need_init_level g = 0 \<and>
    f_state g = (if c AND 0x40 \<noteq> 0 then Prop else Data) \<and>
    unat (f_unpack_size g) = unat c mod 32 * 65536 + unat u1 * 256 + unat u0 + 1 \<and>
    unat (f_pack_size g) = unat p1 * 256 + unat p0 + 1"
proof -
  note h = lzma_header [OF assms, of u1 u0 p1 p0 pr]
  then have "fold frame_step [c, u1, u0, p1, p0] (pr, f) = (pr, snd (fold frame_step [c, u1, u0, p1, p0] (pr, f)))"
    by (metis prod.collapse)
  then show ?thesis using h unfolding lzma_unpack_def be16_size_def by blast
qed

theorem lzma_chunk_header_witness:
  "\<exists>g. fold frame_step [0xE1, 0, 2, 0, 9] (\<lparr>lc = 4, lp = 0, pb = 0, dict_size = 4096\<rparr>, frame_new) =
      (\<lparr>lc = 4, lp = 0, pb = 0, dict_size = 4096\<rparr>, g) \<and> unat (f_unpack_size g) = 65539 \<and> unat (f_pack_size g) = 10 \<and> f_state g = Prop"
  using lzma_chunk_header [of frame_new "0xE1" 0 2 0 9 "\<lparr>lc = 4, lp = 0, pb = 0, dict_size = 4096\<rparr>"]
  by (auto simp: frame_new_def)

text \<open>C29: The machine refuses what the format forbids: from the start of a stream only an end marker, a
  stored chunk or an LZMA chunk that resets the dictionary goes on, a control byte between 3 and 127
  and a properties byte out of range stop it, and once stopped every further byte leaves it stopped.\<close>
theorem frame_refuses:
  "(f_state (snd (frame_step c (pr, frame_new))) = Error \<longleftrightarrow> c \<noteq> 0 \<and> c \<noteq> 1 \<and> c < 0xE0) \<and>
   (\<forall>f. f_state f = Control \<and> 3 \<le> c \<and> c < 128 \<longrightarrow> f_state (snd (frame_step c (pr, f))) = Error) \<and>
   (\<forall>f. f_state f = Prop \<and> 225 \<le> c \<longrightarrow> f_state (snd (frame_step c (pr, f))) = Error) \<and>
   (\<forall>f. f_state f \<in> {Error, Finished} \<longrightarrow> f_state (snd (fold frame_step (b # bs) (pr, f))) = Error)"
proof (intro conjI allI impI)
  show "f_state (snd (frame_step c (pr, frame_new))) = Error \<longleftrightarrow> c \<noteq> 0 \<and> c \<noteq> 1 \<and> c < 0xE0"
    by (auto simp: frame_step_def update_state_def update_control_def frame_new_def is_uncompressed_iff
        LZMA2_CONTROL_COPY_RESET_DIC_def word_less_nat_alt Let_def)
next
  fix f :: lzma2_frame assume "f_state f = Control \<and> 3 \<le> c \<and> c < 128"
  then show "f_state (snd (frame_step c (pr, f))) = Error"
    by (auto simp: frame_step_def update_state_def update_control_def is_uncompressed_iff
        LZMA2_CONTROL_COPY_RESET_DIC_def word_less_nat_alt word_le_nat_alt Let_def)
next
  fix f :: lzma2_frame assume "f_state f = Prop \<and> 225 \<le> c"
  then show "f_state (snd (frame_step c (pr, f))) = Error"
    by (simp add: frame_step_def update_state_def)
next
  have e: "f_state (snd (fold frame_step bs (pr, f))) = Error" if "f_state f = Error" for pr and f :: lzma2_frame and bs
    using that by (induction bs arbitrary: f) (simp_all add: frame_step_def update_state_def)
  fix f :: lzma2_frame assume "f_state f \<in> {Error, Finished}"
  then show "f_state (snd (fold frame_step (b # bs) (pr, f))) = Error"
    using e [of "f\<lparr>f_state := Error\<rparr>"] by (auto simp: frame_step_def update_state_def)
qed

theorem frame_refuses_witness:
  "f_state (snd (fold frame_step [7, 1, 2] (\<lparr>lc = 0, lp = 0, pb = 0, dict_size = 4096\<rparr>, frame_new\<lparr>f_state := Error\<rparr>))) = Error"
  using frame_refuses [of 7 "\<lparr>lc = 0, lp = 0, pb = 0, dict_size = 4096\<rparr>" 7 "[1, 2]"] by simp

text \<open>C33: The dictionary size byte: below 40 it means two or three times a power of two, 40 the largest
  32-bit size, the sizes grow with the byte, and none is below the minimum.\<close>
theorem dic_size_prop:
  assumes "unat p < 40"
  shows "unat (dic_size_from_prop_full p) = (2 + unat p mod 2) * 2 ^ (unat p div 2 + 11) \<and>
    4096 \<le> unat (dic_size_from_prop_full p) \<and> dic_size_from_prop_full p < dic_size_from_prop_full (p + 1)"
proof -
  have p: "p \<noteq> 40" using assms by auto
  have n: "unat (dic_size_from_prop_full q) = (2 + unat q mod 2) * 2 ^ (unat q div 2 + 11)" if "unat q < 40" for q
    using that dic_size_from_prop_nat [OF that] by (auto simp: dic_size_from_prop_full_def)
  have s: "unat (p + 1) = unat p + 1" using assms by (simp add: unat_word_ariths)
  have "unat (dic_size_from_prop_full p) < unat (dic_size_from_prop_full (p + 1))"
  proof (cases "unat p = 39")
    case True
    then have "p + 1 = 40" using s by (intro word_eq_unatI) simp
    then have "dic_size_from_prop_full (p + 1) = 0xFFFFFFFF" by (simp add: dic_size_from_prop_full_def)
    then show ?thesis using n [OF assms] True by simp
  next
    case False
    then have q: "unat (dic_size_from_prop_full (p + 1)) = (2 + Suc (unat p) mod 2) * 2 ^ (Suc (unat p) div 2 + 11)"
      using n [of "p + 1"] s assms by simp
    show ?thesis
    proof (cases "even (unat p)")
      case True
      then obtain k where "unat p = 2 * k" by (auto elim: evenE)
      then show ?thesis unfolding n [OF assms] q by simp
    next
      case False
      then obtain k where "unat p = 2 * k + 1" by (auto elim: oddE)
      then have "unat p mod 2 = 1" "unat p div 2 = k" "Suc (unat p) mod 2 = 0" "Suc (unat p) div 2 = Suc k" by simp_all
      then show ?thesis unfolding n [OF assms] q by (simp add: power_add)
    qed
  qed
  then show ?thesis
    using n [OF assms] dic_size_from_prop_full_bounds [of p] assms by (simp add: word_less_nat_alt)
qed

theorem dic_size_prop_witness:
  "unat (dic_size_from_prop_full 27) = 50331648 \<and> dic_size_from_prop_full 27 < dic_size_from_prop_full 28"
  using dic_size_prop [of 27] by simp

end
