(* ===== verification/Lzma2Scan.thy ===== *)
theory Lzma2Scan
  imports Lzma2Frame
begin

text \<open>
  \<open>src/src/lzma2/scan.rs\<close>: run discovery. The \<open>u64\<close> counters of positions and sizes are natural
  numbers (they count the bytes of one stream). \<open>feed\<close> works on whole payload stretches; the reference
  definition \<open>scan_bytes\<close> takes one byte at a time, and the two agree on every input, from which it
  follows that how the input is cut into calls does not matter.
\<close>

record lzma2_run_chunks =
  lzma_chunks :: nat
  lzma_packed :: nat
  lzma_unpacked :: nat
  copy_chunks :: nat
  copy_packed :: nat
  copy_unpacked :: nat
  state_resets :: nat
  prop_resets :: nat

record lzma2_run =
  in_offset :: nat
  packed_len :: nat
  out_offset :: nat
  unpacked_len :: nat
  has_dict_reset :: bool
  chunks :: lzma2_run_chunks

definition run_chunks_default :: lzma2_run_chunks where
  "run_chunks_default = \<lparr>lzma_chunks = 0, lzma_packed = 0, lzma_unpacked = 0, copy_chunks = 0, copy_packed = 0,
     copy_unpacked = 0, state_resets = 0, prop_resets = 0\<rparr>"


definition chunks_add :: "u8 \<Rightarrow> nat \<Rightarrow> nat \<Rightarrow> nat \<Rightarrow> lzma2_run_chunks \<Rightarrow> lzma2_run_chunks" where
  "chunks_add control header_len payload_len unp c =
     (let packed = header_len + payload_len in
      if is_uncompressed_state control
      then c\<lparr>copy_chunks := copy_chunks c + 1, copy_packed := copy_packed c + packed,
             copy_unpacked := copy_unpacked c + unp\<rparr>
      else
        (let c = c\<lparr>lzma_chunks := lzma_chunks c + 1, lzma_packed := lzma_packed c + packed,
                   lzma_unpacked := lzma_unpacked c + unp\<rparr>;
             c = (if 0xA0 \<le> control then c\<lparr>state_resets := state_resets c + 1\<rparr> else c)
         in if 0xC0 \<le> control then c\<lparr>prop_resets := prop_resets c + 1\<rparr> else c))"

record open_run =
  o_in_offset :: nat
  o_out_offset :: nat
  o_has_dict_reset :: bool
  o_chunks :: lzma2_run_chunks

record scanner =
  z_frame :: lzma2_frame
  z_prop :: lzma_props
  z_in_pos :: nat
  z_out_pos :: nat
  z_data_remaining :: nat
  z_open :: "open_run option"
  z_ready :: "lzma2_run list"
  z_finished :: bool
  z_failed :: bool

definition scanner_new :: "scanner option" where
  "scanner_new = (case props_new 0 0 0 (push_bit 12 1) of
     Inl _ \<Rightarrow> None
   | Inr pr \<Rightarrow> Some \<lparr>z_frame = frame_new, z_prop = pr, z_in_pos = 0, z_out_pos = 0, z_data_remaining = 0, z_open = None,
       z_ready = [], z_finished = False, z_failed = False\<rparr>)"

definition pending_runs :: "scanner \<Rightarrow> nat" where
  "pending_runs z = length (z_ready z)"

definition open_run_offset :: "scanner \<Rightarrow> nat option" where
  "open_run_offset z = map_option o_in_offset (z_open z)"

definition payload_remaining :: "scanner \<Rightarrow> nat" where
  "payload_remaining z = z_data_remaining z"

definition skip_payload :: "nat \<Rightarrow> scanner \<Rightarrow> scanner \<times> nat" where
  "skip_payload n z =
     (let take = min n (z_data_remaining z) in
      (z\<lparr>z_in_pos := z_in_pos z + take, z_data_remaining := z_data_remaining z - take\<rparr>, take))"

definition next_run :: "scanner \<Rightarrow> scanner \<times> lzma2_run option" where
  "next_run z = (case z_ready z of [] \<Rightarrow> (z, None) | r # rs \<Rightarrow> (z\<lparr>z_ready := rs\<rparr>, Some r))"

definition close_run :: "scanner \<Rightarrow> scanner" where
  "close_run z = (case z_open z of
     None \<Rightarrow> z
   | Some w \<Rightarrow> z\<lparr>z_open := None, z_ready := z_ready z @
       [\<lparr>in_offset = o_in_offset w, packed_len = z_in_pos z - o_in_offset w, out_offset = o_out_offset w,
         unpacked_len = z_out_pos z - o_out_offset w, has_dict_reset = o_has_dict_reset w, chunks = o_chunks w\<rparr>]\<rparr>)"

definition on_control :: "u8 \<Rightarrow> scanner \<Rightarrow> scanner \<times> bool" where
  "on_control b z =
     (let starts_run = (b = 0 \<or> 0xE0 \<le> b \<or> b = LZMA2_CONTROL_COPY_RESET_DIC);
          z = (if starts_run then close_run z else z) in
      if b = 0 then (z\<lparr>z_finished := True, z_frame := (z_frame z)\<lparr>f_state := Finished\<rparr>\<rparr>, False)
      else
        (if z_open z = None
         then z\<lparr>z_open := Some \<lparr>o_in_offset = z_in_pos z, o_out_offset = z_out_pos z, o_has_dict_reset = starts_run,
                               o_chunks = run_chunks_default\<rparr>\<rparr>
         else z, True))"

text \<open>The header branch of the loop of \<open>feed\<close>. \<open>FeedStop\<close> is the \<open>break\<close> after the end marker.\<close>

datatype feed_turn = FeedNext scanner | FeedStop scanner | FeedErr scanner

definition header_done :: "scanner \<Rightarrow> scanner" where
  "header_done z =
     (let f = z_frame z; control = f_control f; unp = unat (f_unpack_size f);
          (header_len, payload) =
            (if is_uncompressed_state control then (3, unp)
             else (5 + of_bool (control AND 0x40 \<noteq> 0), unat (f_pack_size f)))
      in z\<lparr>z_out_pos := z_out_pos z + unp, z_data_remaining := payload,
           z_open := map_option (\<lambda>w. w\<lparr>o_chunks := chunks_add control header_len payload unp (o_chunks w)\<rparr>) (z_open z),
           z_frame := f\<lparr>f_unpack_size := 0, f_state := Control\<rparr>\<rparr>)"

definition feed_update :: "u8 \<Rightarrow> scanner \<Rightarrow> feed_turn" where
  "feed_update b z =
     (let (f, pr, next) = update_state b (z_prop z) (z_frame z);
          z = z\<lparr>z_prop := pr, z_in_pos := z_in_pos z + 1, z_frame := f\<lparr>f_state := next\<rparr>\<rparr>
      in case next of
           Error \<Rightarrow> FeedErr (z\<lparr>z_failed := True\<rparr>)
         | Data \<Rightarrow> FeedNext (header_done z)
         | _ \<Rightarrow> FeedNext z)"

definition feed_header :: "u8 \<Rightarrow> scanner \<Rightarrow> feed_turn" where
  "feed_header b z =
     (if f_state (z_frame z) = Control
      then (case on_control b z of
          (z, False) \<Rightarrow> FeedStop (z\<lparr>z_in_pos := z_in_pos z + 1\<rparr>)
        | (z, True) \<Rightarrow> feed_update b z)
      else feed_update b z)"

fun feed_loop :: "scanner \<Rightarrow> bytes \<Rightarrow> nat \<Rightarrow> scanner \<times> (lzma_error + nat)" where
  "feed_loop z [] pos = (z, Inr pos)"
| "feed_loop z (b # data) pos =
     (if z_finished z then (z, Inr pos)
      else if z_data_remaining z \<noteq> 0
      then
        (let want = min (z_data_remaining z) (Suc (length data)) in
         feed_loop (z\<lparr>z_in_pos := z_in_pos z + want, z_data_remaining := z_data_remaining z - want\<rparr>)
           (drop want (b # data)) (pos + want))
      else (case feed_header b z of
          FeedErr z \<Rightarrow> (z, Inl CorruptData)
        | FeedStop z \<Rightarrow> (z, Inr (pos + 1))
        | FeedNext z \<Rightarrow> feed_loop z data (pos + 1)))"

definition feed :: "bytes \<Rightarrow> scanner \<Rightarrow> scanner \<times> (lzma_error + nat)" where
  "feed data z = (if z_failed z then (z, Inl CorruptData) else feed_loop z data 0)"

text \<open>\<open>run_boundaries\<close> over a seekable source that holds \<open>src\<close> from the position the call starts at:
  \<open>at\<close> counts from there. A read of up to \<open>want\<close> bytes at \<open>at\<close> returns \<open>rd at want\<close> bytes (\<open>0\<close>
  at the end of the source), the freedom \<open>std::io::Read\<close> has; the source itself does not fail. \<open>None\<close> is
  a loop that does not end.\<close>

function drain_runs :: "scanner \<Rightarrow> lzma2_run list \<Rightarrow> scanner \<times> lzma2_run list" where
  "drain_runs z runs = (case next_run z of (z, None) \<Rightarrow> (z, runs) | (z, Some r) \<Rightarrow> drain_runs z (runs @ [r]))"
  by pat_completeness auto
termination
  by (relation "measure (\<lambda>(z, runs). length (z_ready z))") (auto simp: next_run_def split: list.splits)

declare drain_runs.simps [simp del]

partial_function (option) boundaries_loop ::
  "(nat \<Rightarrow> nat \<Rightarrow> nat) \<Rightarrow> bytes \<Rightarrow> scanner \<Rightarrow> lzma2_run list \<Rightarrow> nat \<Rightarrow> (lzma_error + lzma2_run list) option" where
  [code]: "boundaries_loop rd src z runs at = (
     if z_finished z then Some (Inr (snd (drain_runs z runs)))
     else
       (let (z, runs) = drain_runs z runs; skip = payload_remaining z in
        if skip \<noteq> 0
        then if length src - at < skip then Some (Inl Truncated)
             else boundaries_loop rd src (fst (skip_payload skip z)) runs (at + skip)
        else
          (let want = min (length src - at) 4096 in
           if want = 0 then Some (Inl Truncated)
           else
             (let n = rd at want in
              if n = 0 then Some (Inl Truncated)
              else case feed (take n (drop at src)) z of
                  (z, Inr used) \<Rightarrow> boundaries_loop rd src z runs (at + used)
                | (z, Inl e) \<Rightarrow> Some (Inl e)))))"

definition run_boundaries :: "(nat \<Rightarrow> nat \<Rightarrow> nat) \<Rightarrow> bytes \<Rightarrow> u8 \<Rightarrow> (lzma_error + lzma2_run list) option" where
  "run_boundaries rd src dict_prop =
     (if 40 < dict_prop then Some (Inl UnsupportedProps)
      else case scanner_new of None \<Rightarrow> None | Some z \<Rightarrow> boundaries_loop rd src z [] 0)"

subsection \<open>One byte at a time\<close>

definition scan_byte :: "u8 \<Rightarrow> scanner \<Rightarrow> scanner" where
  "scan_byte b z =
     (if z_finished z \<or> z_failed z then z
      else if z_data_remaining z \<noteq> 0
      then z\<lparr>z_in_pos := z_in_pos z + 1, z_data_remaining := z_data_remaining z - 1\<rparr>
      else (case feed_header b z of FeedErr z \<Rightarrow> z | FeedStop z \<Rightarrow> z | FeedNext z \<Rightarrow> z))"

definition scan_bytes :: "bytes \<Rightarrow> scanner \<Rightarrow> scanner" where
  "scan_bytes data z = fold scan_byte data z"

lemma scan_halted: "z_finished z \<or> z_failed z \<Longrightarrow> scan_bytes data z = z"
  by (induction data) (auto simp: scan_bytes_def scan_byte_def)

lemma scan_payload:
  "\<not> z_finished z \<Longrightarrow> \<not> z_failed z \<Longrightarrow> length data \<le> z_data_remaining z \<Longrightarrow>
   scan_bytes data z = z\<lparr>z_in_pos := z_in_pos z + length data, z_data_remaining := z_data_remaining z - length data\<rparr>"
  by (induction data arbitrary: z) (auto simp: scan_bytes_def scan_byte_def)

lemma scan_append: "scan_bytes (xs @ ys) z = scan_bytes ys (scan_bytes xs z)"
  by (simp add: scan_bytes_def)

lemma close_run_frame [simp]:
  "z_frame (close_run z) = z_frame z" "z_in_pos (close_run z) = z_in_pos z" "z_out_pos (close_run z) = z_out_pos z"
  "z_finished (close_run z) = z_finished z" "z_failed (close_run z) = z_failed z" "z_prop (close_run z) = z_prop z"
  "z_data_remaining (close_run z) = z_data_remaining z" "z_open (close_run z) = None"
  by (simp_all add: close_run_def split: option.split)

lemma feed_header_flags:
  assumes "\<not> z_finished z" "\<not> z_failed z"
  shows "feed_header b z = FeedNext z' \<Longrightarrow> \<not> z_finished z' \<and> \<not> z_failed z' \<and> z_in_pos z' = z_in_pos z + 1"
    "feed_header b z = FeedStop z' \<Longrightarrow> z_finished z' \<and> \<not> z_failed z' \<and> z_in_pos z' = z_in_pos z + 1"
    "feed_header b z = FeedErr z' \<Longrightarrow> \<not> z_finished z' \<and> z_failed z' \<and> z_in_pos z' = z_in_pos z + 1"
  using assms
  by (auto simp: feed_header_def feed_update_def header_done_def on_control_def Let_def
      split: if_splits prod.splits lzma2_state.splits)

text \<open>\<open>feed\<close> is the byte-wise scan; what it returns is how far the position moved, or the failure.\<close>

lemma feed_loop_eq:
  assumes "\<not> z_failed z" "feed_loop z data pos = (z', r)"
  shows "z' = scan_bytes data z \<and>
    r = (if z_failed z' then Inl CorruptData else Inr (pos + (z_in_pos z' - z_in_pos z))) \<and> z_in_pos z \<le> z_in_pos z'"
  using assms
proof (induction z data pos rule: feed_loop.induct)
  case (1 z pos)
  then show ?case by (auto simp: scan_bytes_def)
next
  case (2 z b data pos)
  show ?case
  proof (cases "z_finished z")
    case True
    then show ?thesis using 2 scan_halted [of z "b # data"] by auto
  next
    case nf: False
    show ?thesis
    proof (cases "z_data_remaining z = 0")
      case False
      define w where "w = min (z_data_remaining z) (Suc (length data))"
      let ?z = "z\<lparr>z_in_pos := z_in_pos z + w, z_data_remaining := z_data_remaining z - w\<rparr>"
      have l: "length (take w (b # data)) = w" by (simp add: w_def)
      have "scan_bytes (take w (b # data)) z = ?z"
        using scan_payload [OF nf 2(3), of "take w (b # data)"] by (simp only: l) (simp add: w_def)
      then have s: "scan_bytes (b # data) z = scan_bytes (drop w (b # data)) ?z"
        using scan_append [of "take w (b # data)" "drop w (b # data)" z] by (simp only: append_take_drop_id)
      have "feed_loop ?z (drop w (b # data)) (pos + w) = (z', r)" using 2(4) nf False by (simp add: w_def Let_def)
      then show ?thesis using 2(1) [OF nf False refl] 2(3) s unfolding w_def [symmetric] by auto
    next
      case True
      show ?thesis
      proof (cases "feed_header b z")
        case (FeedNext z2)
        then show ?thesis using 2(2) [OF nf _ FeedNext] 2(3,4) nf True feed_header_flags(1) [OF nf 2(3) FeedNext]
          by (auto simp: scan_bytes_def scan_byte_def)
      next
        case (FeedStop z2)
        then show ?thesis using 2(3,4) nf True feed_header_flags(2) [OF nf 2(3) FeedStop] scan_halted [of z2 data]
          by (auto simp: scan_bytes_def scan_byte_def)
      next
        case (FeedErr z2)
        then show ?thesis using 2(3,4) nf True feed_header_flags(3) [OF nf 2(3) FeedErr] scan_halted [of z2 data]
          by (auto simp: scan_bytes_def scan_byte_def)
      qed
    qed
  qed
qed

lemma feed_eq:
  assumes "\<not> z_failed z"
  shows "feed data z = (let z' = scan_bytes data z in
    (z', if z_failed z' then Inl CorruptData else Inr (z_in_pos z' - z_in_pos z)))"
  using feed_loop_eq [OF assms, of data 0 "fst (feed_loop z data 0)" "snd (feed_loop z data 0)"] assms
  by (simp add: feed_def Let_def prod_eq_iff)

lemma scan_byte_pos:
  "z_in_pos (scan_byte b z) = z_in_pos z + of_bool (\<not> (z_finished z \<or> z_failed z))"
proof (cases "feed_header b z")
  case (FeedNext z')
  then show ?thesis using feed_header_flags(1) [of z b z'] by (auto simp: scan_byte_def)
next
  case (FeedStop z')
  then show ?thesis using feed_header_flags(2) [of z b z'] by (auto simp: scan_byte_def)
next
  case (FeedErr z')
  then show ?thesis using feed_header_flags(3) [of z b z'] by (auto simp: scan_byte_def)
qed

lemma scan_bytes_pos:
  "z_in_pos z \<le> z_in_pos (scan_bytes data z) \<and> z_in_pos (scan_bytes data z) \<le> z_in_pos z + length data"
proof (induction data arbitrary: z)
  case (Cons b data)
  show ?case using Cons [of "scan_byte b z"] by (simp add: scan_bytes_def scan_byte_pos of_bool_def split: if_splits)
qed (simp add: scan_bytes_def)

lemma scan_bytes_all:
  "\<not> z_finished (scan_bytes data z) \<Longrightarrow> \<not> z_failed (scan_bytes data z) \<Longrightarrow> z_in_pos (scan_bytes data z) = z_in_pos z + length data"
proof (induction data arbitrary: z)
  case (Cons b data)
  have "\<not> z_finished z \<and> \<not> z_failed z"
    using Cons(2,3) scan_halted [of z "b # data"] by auto
  then show ?case using Cons(1) [of "scan_byte b z"] Cons(2,3) by (simp add: scan_bytes_def scan_byte_pos)
qed (simp add: scan_bytes_def)

text \<open>The scanner at the start of a stream.\<close>

definition scan_start :: scanner where
  "scan_start = \<lparr>z_frame = frame_new, z_prop = \<lparr>lc = 0, lp = 0, pb = 0, dict_size = 4096\<rparr>, z_in_pos = 0,
     z_out_pos = 0, z_data_remaining = 0, z_open = None, z_ready = [], z_finished = False, z_failed = False\<rparr>"

lemma scanner_new_eq: "scanner_new = Some scan_start"
  by (simp add: scanner_new_def props_new_def LZMA_DIC_MIN_def scan_start_def)

text \<open>C14: How the stream is cut into \<open>feed\<close> calls does not matter: feeding \<open>xs\<close> and then \<open>ys\<close> leaves the
  scanner in the state that feeding both at once does, with the same error or the consumed bytes added.\<close>
theorem feed_split:
  assumes "\<not> z_failed z" "feed xs z = (z1, Inr n)"
  shows "feed (xs @ ys) z = (case feed ys z1 of (z2, Inl e) \<Rightarrow> (z2, Inl e) | (z2, Inr m) \<Rightarrow> (z2, Inr (n + m)))"
proof -
  have z1: "z1 = scan_bytes xs z" "\<not> z_failed z1" "n = z_in_pos z1 - z_in_pos z" "z_in_pos z \<le> z_in_pos z1"
    using assms scan_bytes_pos [of z xs] by (auto simp: feed_eq Let_def split: if_splits)
  then show ?thesis
    using assms(1) scan_bytes_pos [of z1 ys] by (auto simp: feed_eq scan_append Let_def)
qed

theorem feed_split_witness:
  "feed ([1, 0] @ [1, 7, 8, 0]) scan_start = (fst (feed [1, 7, 8, 0] (fst (feed [1, 0] scan_start))), Inr 6)"
proof -
  have f: "feed [1, 0] scan_start = (fst (feed [1, 0] scan_start), Inr 2)"
    "feed [1, 7, 8, 0] (fst (feed [1, 0] scan_start)) = (fst (feed [1, 7, 8, 0] (fst (feed [1, 0] scan_start))), Inr 4)"
    unfolding prod_eq_iff by (rule conjI; code_simp)+
  have "\<not> z_failed scan_start" by (simp add: scan_start_def)
  from feed_split [OF this f(1), of "[1, 7, 8, 0]"] show ?thesis by (subst (asm) f(2)) simp
qed

text \<open>C15: Skipping payload bytes with \<open>skip_payload\<close> leaves the scanner exactly where feeding them would.\<close>
theorem skip_payload_feed:
  assumes "\<not> z_failed z" "\<not> z_finished z" "length data \<le> payload_remaining z"
  shows "feed data z = (fst (skip_payload (length data) z), Inr (length data))"
  using assms by (simp add: feed_eq scan_payload skip_payload_def payload_remaining_def Let_def)

theorem skip_payload_feed_witness:
  "payload_remaining (fst (feed [1, 0, 4] scan_start)) = 5 \<and>
   feed [1, 2, 3] (fst (feed [1, 0, 4] scan_start)) = (fst (skip_payload 3 (fst (feed [1, 0, 4] scan_start))), Inr 3)"
proof -
  have "payload_remaining (fst (feed [1, 0, 4] scan_start)) = 5" "\<not> z_failed (fst (feed [1, 0, 4] scan_start))"
    "\<not> z_finished (fst (feed [1, 0, 4] scan_start))" by code_simp+
  then show ?thesis using skip_payload_feed [of "fst (feed [1, 0, 4] scan_start)" "[1, 2, 3]"] by (simp add: eval_nat_numeral)
qed

subsection \<open>What a scanner knows about its runs\<close>

text \<open>Bytes of the header being read.\<close>

fun header_len :: "lzma2_state \<Rightarrow> nat" where
  "header_len Unpack0 = 1"
| "header_len Unpack1 = 2"
| "header_len Pack0 = 3"
| "header_len Pack1 = 4"
| "header_len Prop = 5"
| "header_len _ = 0"









definition turn_scanner :: "feed_turn \<Rightarrow> scanner" where
  "turn_scanner t = (case t of FeedErr z \<Rightarrow> z | FeedStop z \<Rightarrow> z | FeedNext z \<Rightarrow> z)"










subsection \<open>\<open>run_boundaries\<close>\<close>

lemma drain_runs_eq: "drain_runs z runs = (z\<lparr>z_ready := []\<rparr>, runs @ z_ready z)"
proof -
  have "z_ready z = rs \<Longrightarrow> drain_runs z runs = (z\<lparr>z_ready := []\<rparr>, runs @ rs)" for rs
  proof (induction rs arbitrary: z runs)
    case Nil
    then show ?case by (subst drain_runs.simps) (simp add: next_run_def)
  next
    case (Cons r rs)
    show ?case using Cons(1) [of "z\<lparr>z_ready := rs\<rparr>" "runs @ [r]"] Cons(2)
      by (subst drain_runs.simps) (simp add: next_run_def)
  qed
  then show ?thesis by simp
qed

text \<open>The runs already taken do not influence the scan.\<close>

definition with_ready :: "lzma2_run list \<Rightarrow> scanner \<Rightarrow> scanner" where
  "with_ready rs z = z\<lparr>z_ready := rs @ z_ready z\<rparr>"

lemma with_ready_simps [simp]:
  "z_frame (with_ready rs z) = z_frame z" "z_in_pos (with_ready rs z) = z_in_pos z" "z_out_pos (with_ready rs z) = z_out_pos z"
  "z_finished (with_ready rs z) = z_finished z" "z_failed (with_ready rs z) = z_failed z" "z_prop (with_ready rs z) = z_prop z"
  "z_data_remaining (with_ready rs z) = z_data_remaining z" "z_open (with_ready rs z) = z_open z"
  "z_ready (with_ready rs z) = rs @ z_ready z"
  by (simp_all add: with_ready_def)

lemma with_ready_updates [simp]:
  "(with_ready rs z)\<lparr>z_in_pos := n\<rparr> = with_ready rs (z\<lparr>z_in_pos := n\<rparr>)"
  "(with_ready rs z)\<lparr>z_data_remaining := n\<rparr> = with_ready rs (z\<lparr>z_data_remaining := n\<rparr>)"
  "(with_ready rs z)\<lparr>z_finished := c\<rparr> = with_ready rs (z\<lparr>z_finished := c\<rparr>)"
  "(with_ready rs z)\<lparr>z_frame := f\<rparr> = with_ready rs (z\<lparr>z_frame := f\<rparr>)"
  "(with_ready rs z)\<lparr>z_open := w\<rparr> = with_ready rs (z\<lparr>z_open := w\<rparr>)"
  by (simp_all add: with_ready_def)

lemma close_run_ready: "close_run (with_ready rs z) = with_ready rs (close_run z)"
  by (simp add: close_run_def with_ready_def split: option.split)

lemma on_control_ready: "on_control b (with_ready rs z) = (let (z, go) = on_control b z in (with_ready rs z, go))"
  by (simp add: on_control_def Let_def close_run_ready)

lemma feed_update_ready:
  "turn_scanner (feed_update b (with_ready rs z)) = with_ready rs (turn_scanner (feed_update b z))"
  by (auto simp: feed_update_def header_done_def turn_scanner_def with_ready_def Let_def split: prod.split lzma2_state.split)

lemma turn_scanner_simps [simp]:
  "turn_scanner (FeedNext z) = z" "turn_scanner (FeedStop z) = z" "turn_scanner (FeedErr z) = z"
  by (simp_all add: turn_scanner_def)

lemma feed_header_ready:
  "turn_scanner (feed_header b (with_ready rs z)) = with_ready rs (turn_scanner (feed_header b z))"
proof (cases "on_control b z")
  case (Pair z' go)
  then show ?thesis
    by (cases go) (simp_all add: feed_header_def on_control_ready feed_update_ready)
qed

lemma scan_byte_ready: "scan_byte b (with_ready rs z) = with_ready rs (scan_byte b z)"
  using feed_header_ready [of b rs z] unfolding scan_byte_def turn_scanner_def [symmetric] by simp

lemma scan_bytes_ready: "scan_bytes data (with_ready rs z) = with_ready rs (scan_bytes data z)"
  by (induction data arbitrary: z) (simp_all add: scan_bytes_def scan_byte_ready)

text \<open>What the whole of a stream \<open>src\<close> amounts to.\<close>

definition scan_outcome :: "scanner \<Rightarrow> bytes \<Rightarrow> lzma2_run list \<Rightarrow> lzma_error + lzma2_run list" where
  "scan_outcome z src runs =
     (let z = scan_bytes src z in
      if z_failed z then Inl CorruptData else if z_finished z then Inr (runs @ z_ready z) else Inl Truncated)"

lemma scan_outcome_drain: "scan_outcome (z\<lparr>z_ready := []\<rparr>) src (runs @ z_ready z) = scan_outcome z src runs"
proof -
  have "z = with_ready (z_ready z) (z\<lparr>z_ready := []\<rparr>)" by (simp add: with_ready_def)
  then have "scan_bytes src z = with_ready (z_ready z) (scan_bytes src (z\<lparr>z_ready := []\<rparr>))" by (metis scan_bytes_ready)
  then show ?thesis by (simp add: scan_outcome_def Let_def)
qed

lemma scan_outcome_step:
  "scan_outcome z src runs = scan_outcome (scan_bytes (take n src) z) (drop n src) runs"
  using scan_append [of "take n src" "drop n src" z] by (simp add: scan_outcome_def)

lemma scan_outcome_skip:
  assumes "\<not> z_finished z" "\<not> z_failed z" "z_data_remaining z \<le> length src"
  shows "scan_outcome (fst (skip_payload (z_data_remaining z) z)) (drop (z_data_remaining z) src) runs = scan_outcome z src runs"
  using assms scan_outcome_step [of z src runs "z_data_remaining z"]
    scan_payload [OF assms(1,2), of "take (z_data_remaining z) src"]
  by (simp add: skip_payload_def Let_def)

lemma scan_outcome_short:
  assumes "\<not> z_finished z" "\<not> z_failed z" "length src < z_data_remaining z \<or> src = []"
  shows "scan_outcome z src runs = Inl Truncated"
  using assms scan_payload [OF assms(1,2), of src] by (auto simp: scan_outcome_def)

lemma scan_outcome_halted: "z_finished z \<Longrightarrow> \<not> z_failed z \<Longrightarrow> scan_outcome z src runs = Inr (runs @ z_ready z)"
  by (simp add: scan_outcome_def scan_halted)

lemma boundaries_loop_eq:
  assumes "\<And>at want. 0 < want \<Longrightarrow> 0 < rd at want \<and> rd at want \<le> want" "\<not> z_failed z" "at \<le> length src"
  shows "boundaries_loop rd src z runs at = Some (scan_outcome z (drop at src) runs)"
  using assms(2,3)
proof (induction "length src - at" arbitrary: z runs at rule: less_induct)
  case less
  show ?case
  proof (cases "z_finished z")
    case True
    then show ?thesis using less(2)
      by (subst boundaries_loop.simps) (simp add: drain_runs_eq scan_outcome_halted)
  next
    case nf: False
    let ?z = "z\<lparr>z_ready := []\<rparr>" and ?runs = "runs @ z_ready z" and ?rest = "drop at src"
    define k where "k = z_data_remaining z"
    have k: "payload_remaining ?z = k" by (simp add: payload_remaining_def k_def)
    note goal = scan_outcome_drain [of z ?rest runs, symmetric]
    consider "length ?rest < k \<or> ?rest = []" | "k \<noteq> 0" "k \<le> length ?rest" | "k = 0" "?rest \<noteq> []" by fastforce
    then show ?thesis
    proof cases
      case 1
      then have "scan_outcome ?z ?rest ?runs = Inl Truncated"
        using nf less(2) by (intro scan_outcome_short) (auto simp: k_def)
      moreover have "k = 0 \<Longrightarrow> ?rest = []" using 1 by auto
      ultimately show ?thesis using 1 nf
        by (subst boundaries_loop.simps) (auto simp: goal drain_runs_eq k Let_def)
    next
      case 2
      have "scan_outcome (fst (skip_payload k ?z)) (drop (at + k) src) ?runs = scan_outcome ?z ?rest ?runs"
        using scan_outcome_skip [of ?z ?rest ?runs] 2 nf less(2) by (simp add: k_def add.commute)
      moreover have "boundaries_loop rd src (fst (skip_payload k ?z)) ?runs (at + k) =
          Some (scan_outcome (fst (skip_payload k ?z)) (drop (at + k) src) ?runs)"
        using 2 less(2,3) by (intro less(1)) (simp_all add: skip_payload_def Let_def)
      ultimately show ?thesis using 2 nf
        by (subst boundaries_loop.simps) (simp add: goal drain_runs_eq k Let_def)
    next
      case 3
      define want where "want = min (length src - at) 4096"
      define n where "n = rd at want"
      have w: "0 < want" using 3 by (simp add: want_def)
      have n: "0 < n" "n \<le> want" using assms(1) [OF w] by (simp_all add: n_def)
      define z1 where "z1 = scan_bytes (take n ?rest) ?z"
      have fd: "feed (take n ?rest) ?z = (z1, if z_failed z1 then Inl CorruptData else Inr (z_in_pos z1 - z_in_pos z))"
        using less(2) by (simp add: feed_eq z1_def Let_def)
      have st: "scan_outcome ?z ?rest ?runs = scan_outcome z1 (drop n ?rest) ?runs"
        unfolding z1_def by (rule scan_outcome_step)
      have eq: "boundaries_loop rd src z runs at = (if z_failed z1 then Some (Inl CorruptData)
          else boundaries_loop rd src z1 ?runs (at + (z_in_pos z1 - z_in_pos z)))"
        using 3 nf w n fd
        by (subst boundaries_loop.simps) (simp add: drain_runs_eq k Let_def flip: want_def n_def)
      show ?thesis
      proof (cases "z_failed z1 \<or> z_finished z1")
        case True
        have "boundaries_loop rd src z1 ?runs m = Some (Inr (?runs @ z_ready z1))" if "z_finished z1" for m
          using that by (subst boundaries_loop.simps) (simp add: drain_runs_eq)
        moreover have "scan_outcome z1 (drop n ?rest) ?runs = (if z_failed z1 then Inl CorruptData else Inr (?runs @ z_ready z1))"
          using True by (auto simp: scan_outcome_def scan_halted)
        ultimately show ?thesis using eq st True goal by (cases "z_failed z1") simp_all
      next
        case False
        then have "z_in_pos z1 - z_in_pos z = n"
          using scan_bytes_all [of "take n ?rest" ?z] n by (simp add: z1_def want_def)
        moreover have "boundaries_loop rd src z1 ?runs (at + n) = Some (scan_outcome z1 (drop (at + n) src) ?runs)"
          using False n want_def by (intro less(1)) auto
        ultimately show ?thesis using eq st False by (simp add: goal add.commute)
      qed
    qed
  qed
qed

text \<open>C13: However short the reads of the source are, \<open>run_boundaries\<close> returns, and what it returns is what one
  scan of the whole source finds: the runs when the end marker is there, \<open>Truncated\<close> when it is missing and
  \<open>CorruptData\<close> for a control byte the format does not allow.\<close>
theorem run_boundaries_eq:
  assumes "\<And>at want. 0 < want \<Longrightarrow> 0 < rd at want \<and> rd at want \<le> want" "dict_prop \<le> 40" "scanner_new = Some z0"
  shows "run_boundaries rd src dict_prop = Some (case feed src z0 of
     (z, Inl e) \<Rightarrow> Inl e
   | (z, Inr n) \<Rightarrow> if z_finished z then Inr (z_ready z) else Inl Truncated)"
proof -
  have z: "\<not> z_failed z0" using assms(3) by (auto simp: scanner_new_def props_new_def)
  have "run_boundaries rd src dict_prop = Some (scan_outcome z0 src [])"
  proof -
    have "boundaries_loop rd src z0 [] 0 = Some (scan_outcome z0 (drop 0 src) [])"
      by (rule boundaries_loop_eq) (use assms(1) z in auto)
    then show ?thesis using leD [OF assms(2)] by (simp add: run_boundaries_def assms(3))
  qed
  then show ?thesis using z by (simp add: scan_outcome_def feed_eq Let_def)
qed

theorem run_boundaries_eq_witness:
  "run_boundaries (\<lambda>at want. min 2 want) [1, 0, 1, 7, 8, 0] 10 =
     Some (Inr (z_ready (fst (feed [1, 0, 1, 7, 8, 0] scan_start))))"
proof -
  have f: "z_finished (fst (feed [1, 0, 1, 7, 8, 0] scan_start))" "snd (feed [1, 0, 1, 7, 8, 0] scan_start) = Inr 6"
    by code_simp+
  have "run_boundaries (\<lambda>at want. min 2 want) [1, 0, 1, 7, 8, 0] 10 = Some (case feed [1, 0, 1, 7, 8, 0] scan_start of
     (z, Inl e) \<Rightarrow> Inl e | (z, Inr n) \<Rightarrow> if z_finished z then Inr (z_ready z) else Inl Truncated)"
    by (rule run_boundaries_eq) (auto simp: scanner_new_eq)
  then show ?thesis using f by (cases "feed [1, 0, 1, 7, 8, 0] scan_start") simp
qed

end
