(* ===== verification/LzmaTotal.thy ===== *)
theory LzmaTotal
  imports LzmaDec
begin

text \<open>
  \<open>lzma_dec_decode_to_dic\<close> and \<open>LzmaDecoder::decode\<close> as a whole. A decoder that satisfies \<open>dec_inv\<close>
  never panics, never reads or writes outside its buffers, never reports an internal failure and
  always returns: whatever the input, however it is cut into calls, and after a reported error too.
  What carries the proof is that a dry run (\<open>lzma_dec_try_dummy\<close>) and the real decoder take the same
  bytes, and that the bytes kept in \<open>temp_buf\<close> are too few for a symbol.
\<close>

subsection \<open>More input does not change a symbol\<close>

lemma normalize_append: "normalize inp s = Some s' \<Longrightarrow> normalize (inp @ rest) s = Some s'"
  by (auto simp: normalize_def get_at_append split: if_splits option.splits)

lemma dec_bit_append: "dec_bit inp probs i s = Some r \<Longrightarrow> dec_bit (inp @ rest) probs i s = Some r"
  by (cases "normalize inp s") (auto simp: dec_bit_def normalize_append split: bind_splits)

lemma dec_direct_append: "dec_direct inp s = Some r \<Longrightarrow> dec_direct (inp @ rest) s = Some r"
  by (cases "normalize inp s") (auto simp: dec_direct_def normalize_append split: bind_splits)

lemma bp_run_append: "bp_run inp p probs s = Some r \<Longrightarrow> bp_run (inp @ rest) p probs s = Some r"
proof (induction p arbitrary: probs s)
  case (Bit i k)
  then show ?case by (cases "dec_bit inp probs i s") (auto simp: dec_bit_append)
next
  case (Direct k)
  then show ?case by (cases "dec_direct inp s") (auto simp: dec_direct_append)
qed simp

lemma next_symbol_append:
  "next_symbol c probs s inp = Some r \<Longrightarrow> next_symbol c probs s (inp @ rest) = Some r"
  by (auto simp: next_symbol_def bp_run_append normalize_append split: bind_splits)

lemma next_symbol_take:
  assumes "next_symbol c probs s (take n inp) = Some r"
  shows "next_symbol c probs s inp = Some r"
  using next_symbol_append [OF assms, of "drop n inp"] by simp

subsection \<open>The bytes of a symbol\<close>

lemma next_symbol_bounds:
  assumes "next_symbol c probs s inp = Some (sy, probs', s1, s2)" "ctx_ok (length probs) c" "probs_ok probs" "rc_norm s"
  shows "same_table probs probs'" "sym_ok sy" "rc_live s1" "rc_norm s2" "rc_buf s \<le> rc_buf s1" "rc_buf s1 \<le> rc_buf s2"
    "rc_buf s2 \<le> rc_buf s + 20"
proof -
  have run: "bp_run inp (symbol_prog c) probs s = Some (sy, probs', s1)" and n: "normalize inp s1 = Some s2"
    using assms(1) by (auto simp: next_symbol_def split: bind_splits)
  note r = symbol_prog_range [OF assms(2)] and lv = rc_norm_live [OF assms(4)] and sp = rc_spent_init [OF assms(4)]
  have sp1: "rc_spent (rc_buf s) 22 26 s1"
    and p: "same_table probs probs'" "rc_live s1" "rc_buf s \<le> rc_buf s1"
    using bp_run_spent [OF run assms(3) lv sp r(3)] by auto
  note sp2 = rc_spent_normalize [OF sp1 n p(2)]
  show "same_table probs probs'" "rc_live s1" "rc_buf s \<le> rc_buf s1" by (fact p)+
  show "sym_ok sy" by (rule bp_run_post [OF run symbol_prog_post [OF assms(2)]])
  show "rc_norm s2" "rc_buf s1 \<le> rc_buf s2" using normalize_Some [OF n p(2)] by auto
  show "rc_buf s2 \<le> rc_buf s + 20" by (rule rc_spent_le_20 [OF sp2]) auto
qed

lemma next_symbol_total:
  assumes "ctx_ok (length probs) c" "probs_ok probs" "rc_norm s" "rc_buf s + 20 \<le> length inp"
  shows "\<exists>sy probs' s1 s2. next_symbol c probs s inp = Some (sy, probs', s1, s2)"
proof -
  have "margin inp s" using assms(3,4) by (simp add: margin_def)
  from symbol_run_total [OF assms(1,2) this]
  obtain sy probs' s1 b0 where run: "bp_run inp (symbol_prog c) probs s = Some (sy, probs', s1)"
    and s1: "b0 + 20 \<le> length inp" "rc_spent b0 22 26 s1" by blast
  obtain s2 where "normalize inp s1 = Some s2" using rc_margin [OF s1(2) _ _ s1(1)] by auto
  with run show ?thesis by (simp add: next_symbol_def)
qed

lemma next_symbol_input:
  assumes "next_symbol c probs s inp = Some (sy, probs', s1, s2)" "rc_buf s \<le> length inp"
  shows "rc_buf s2 \<le> length inp"
proof -
  have run: "bp_run inp (symbol_prog c) probs s = Some (sy, probs', s1)" and nn: "normalize inp s1 = Some s2"
    using assms(1) by (auto simp: next_symbol_def split: bind_splits)
  have "rc_buf s1 \<le> length inp" if "bp_run inp p probs s = Some (x, probs', s1)" "rc_buf s \<le> length inp"
    for p :: "symb bitprog" and x probs' s1 probs s
    using that
  proof (induction p arbitrary: probs s)
    case (Bit i k)
    then show ?case
      by (fastforce simp: dec_bit_eq normalize_def rc_bit_def Let_def get_at_def split: option.splits if_splits prod.splits)
  next
    case (Direct k)
    then show ?case
      by (fastforce simp: dec_direct_def normalize_def Let_def get_at_def split: option.splits bind_splits if_splits)
  qed simp
  from this [OF run assms(2)] show ?thesis
    using nn by (auto simp: normalize_def get_at_def split: if_splits option.splits)
qed

subsection \<open>The invariant of the decoder\<close>

definition dec_shape :: "lzma_dec \<Rightarrow> bool" where
  "dec_shape p \<longleftrightarrow> props_ok (p_prop p) \<and>
     length (p_probs p) = lzma_props_get_num_probs (lc (p_prop p)) (lp (p_prop p)) \<and>
     length (p_dic p) = p_dic_buf_size p \<and> unat (dict_size (p_prop p)) \<le> p_dic_buf_size p \<and> p_dic_buf_size p < 2 ^ 63 \<and>
     p_dic_pos p \<le> p_dic_buf_size p \<and> length (p_temp_buf p) = 20 \<and>
     (if p_check_dic_size p = 0 then unat (p_processed_pos p) < unat (dict_size (p_prop p))
      else p_check_dic_size p = dict_size (p_prop p))"

definition reps_in :: "nat \<Rightarrow> u32 \<times> u32 \<times> u32 \<times> u32 \<Rightarrow> bool" where
  "reps_in n = (\<lambda>(r0, r1, r2, r3). \<forall>r \<in> {r0, r1, r2, r3}. 0 < unat r \<and> unat r \<le> n)"

definition dec_tables :: "lzma_dec \<Rightarrow> bool" where
  "dec_tables p \<longleftrightarrow> probs_ok (p_probs p) \<and> unat (p_state p) < 12 \<and> reps_in (p_dic_buf_size p) (p_reps p)"

text \<open>The bytes kept in \<open>temp_buf\<close>: all but the last are too few for the next symbol.\<close>

definition temp_waits :: "lzma_dec \<Rightarrow> bool" where
  "temp_waits p \<longleftrightarrow> p_temp_buf_size p \<le> 20 \<and> (p_temp_buf_size p \<noteq> 0 \<longrightarrow> p_remain_len p = 0 \<and>
     (\<forall>n < p_temp_buf_size p. next_symbol (dec_ctx p) (p_probs p) (dec_rc p) (take n (p_temp_buf p)) = None))"

definition dec_run :: "lzma_dec \<Rightarrow> bool" where
  "dec_run p \<longleftrightarrow> dec_shape p \<and> dec_tables p \<and> 2 ^ 24 \<le> unat (p_range p) \<and>
     (unat (p_remain_len p) < 274 \<or> p_remain_len p = K_MATCH_SPEC_LEN_START) \<and> temp_waits p"

definition dec_inv :: "lzma_dec \<Rightarrow> bool" where
  "dec_inv p \<longleftrightarrow> dec_run p \<or>
     dec_shape p \<and> (p_remain_len p = K_MATCH_SPEC_LEN_ERROR_DATA \<or>
       p_temp_buf_size p \<le> 5 \<and> (p_remain_len p = K_MATCH_SPEC_LEN_START + 2 \<or>
         p_remain_len p = K_MATCH_SPEC_LEN_START + 1 \<and> dec_tables p))"

text \<open>What a call never changes.\<close>

definition same_frame :: "lzma_dec \<Rightarrow> lzma_dec \<Rightarrow> bool" where
  "same_frame p q \<longleftrightarrow> p_prop q = p_prop p \<and> p_dic_buf_size q = p_dic_buf_size p \<and> p_force_portable q = p_force_portable p"

lemma same_frame_refl [simp]: "same_frame p p"
  and same_frame_trans [trans]: "same_frame p q \<Longrightarrow> same_frame q r \<Longrightarrow> same_frame p r"
  by (simp_all add: same_frame_def)

lemma dec_parts_simps [simp]:
  "dec_shape (p\<lparr>p_temp_buf_size := k\<rparr>) = dec_shape p" "dec_shape (p\<lparr>p_code := c\<rparr>) = dec_shape p"
  "dec_shape (p\<lparr>p_range := c\<rparr>) = dec_shape p" "dec_shape (p\<lparr>p_remain_len := c\<rparr>) = dec_shape p"
  "dec_tables (p\<lparr>p_temp_buf_size := k\<rparr>) = dec_tables p" "dec_tables (p\<lparr>p_code := c\<rparr>) = dec_tables p"
  "dec_tables (p\<lparr>p_range := c\<rparr>) = dec_tables p" "dec_tables (p\<lparr>p_remain_len := c\<rparr>) = dec_tables p"
  "same_frame q (p\<lparr>p_temp_buf_size := k\<rparr>) = same_frame q p" "same_frame q (p\<lparr>p_code := c\<rparr>) = same_frame q p"
  "same_frame q (p\<lparr>p_range := c\<rparr>) = same_frame q p" "same_frame q (p\<lparr>p_remain_len := c\<rparr>) = same_frame q p"
  by (simp_all add: dec_shape_def dec_tables_def same_frame_def)

lemma real_locals_simps [simp]:
  "l_probs (real_locals p bs) = p_probs p" "l_state (real_locals p bs) = p_state p"
  "l_dic (real_locals p bs) = p_dic p" "l_dic_pos (real_locals p bs) = p_dic_pos p"
  "l_processed_pos (real_locals p bs) = p_processed_pos p" "l_len (real_locals p bs) = 0"
  "l_rc (real_locals p bs) = \<lparr>rc_range = p_range p, rc_code = p_code p, rc_buf = bs\<rparr>"
  "(l_rep0 (real_locals p bs), l_rep1 (real_locals p bs), l_rep2 (real_locals p bs), l_rep3 (real_locals p bs)) = p_reps p"
  by (cases "p_reps p"; simp add: real_locals_def)+

lemma real_env_simps [simp]:
  "e_inp (real_env p limit inp bl) = inp" "e_limit (real_env p limit inp bl) = limit"
  "e_buf_limit (real_env p limit inp bl) = bl" "e_dic_buf_size (real_env p limit inp bl) = p_dic_buf_size p"
  "e_check_dic_size (real_env p limit inp bl) = p_check_dic_size p"
  by (simp_all add: real_env_def)

lemma num_probs_nat:
  "props_ok props \<Longrightarrow> lzma_props_get_num_probs (lc props) (lp props) = LITERAL + 0x300 * 2 ^ (unat (lc props) + unat (lp props))"
  by (simp add: lzma_props_get_num_probs_def props_ok_def unat_word_ariths NUM_BASE_PROBS_def LZMA_LIT_SIZE_def)

lemma real_env_ok:
  assumes "dec_shape p" "limit \<le> p_dic_buf_size p"
  shows "env_ok (real_env p limit inp bl) (length (p_probs p))"
proof -
  have ok: "props_ok (p_prop p)" "length (p_probs p) = LITERAL + 0x300 * 2 ^ (unat (lc (p_prop p)) + unat (lp (p_prop p)))"
    using assms(1) num_probs_nat [of "p_prop p"] by (simp_all add: dec_shape_def)
  moreover have "0 < p_dic_buf_size p" "p_dic_buf_size p < 2 ^ 63"
    using assms(1) by (auto simp: dec_shape_def props_ok_def)
  ultimately show ?thesis
    using assms(2) unfolding env_ok_def props_ok_def real_env_def lzenv.select_convs
    by (intro conjI exI [of _ "unat (lp (p_prop p))"] exI [of _ "unat (pb (p_prop p))"]) simp_all
qed

lemma real_lz_ok:
  assumes "dec_shape p" "dec_tables p" "p_dic_pos p \<le> limit" "limit \<le> p_dic_buf_size p"
  shows "lz_ok (real_env p limit inp bl) (real_locals p bs)"
  using assms real_env_ok [OF assms(1,4)]
  by (cases "p_reps p") (auto simp: lz_ok_def dec_shape_def dec_tables_def reps_in_def rep_ok_def real_locals_def)

subsection \<open>The fast loop seen from \<open>lzma_dec_decode_real2\<close>\<close>

definition real_post :: "lzma_dec \<Rightarrow> nat \<Rightarrow> lzma_dec \<Rightarrow> bool \<Rightarrow> bool" where
  "real_post p limit q ok \<longleftrightarrow>
     same_frame p q \<and> p_temp_buf q = p_temp_buf p \<and> p_temp_buf_size q = p_temp_buf_size p \<and> dec_shape q \<and>
     p_dic_pos p \<le> p_dic_pos q \<and> p_dic_pos q \<le> limit \<and>
     (ok \<longrightarrow> dec_tables q \<and> 2 ^ 24 \<le> unat (p_range q) \<and>
        (unat (p_remain_len q) < 274 \<or> p_remain_len q = K_MATCH_SPEC_LEN_START) \<and>
        (p_dic_pos p < p_dic_pos q \<or> p_remain_len q = K_MATCH_SPEC_LEN_START \<or>
         p_dic_pos q = limit \<and> p_remain_len q \<noteq> 0))"

definition real_limit :: "lzma_dec \<Rightarrow> nat \<Rightarrow> nat" where
  "real_limit p limit =
     (if p_check_dic_size p = 0
      then min limit (p_dic_pos p + (unat (dict_size (p_prop p)) - unat (p_processed_pos p))) else limit)"

definition mark_full :: "lzma_dec \<Rightarrow> lzma_dec" where
  "mark_full p = (if p_check_dic_size p = 0 \<and> dict_size (p_prop p) \<le> p_processed_pos p
     then p\<lparr>p_check_dic_size := dict_size (p_prop p)\<rparr> else p)"

lemma decode_real2_eq:
  assumes "dec_shape p" "p_dic_pos p \<le> limit"
  shows "lzma_dec_decode_real2 p limit inp bl =
    (case decode_real_loop (real_env p (real_limit p limit) inp bl) (real_locals p 0) of None \<Rightarrow> None
     | Some l \<Rightarrow> (case normalize inp (l_rc l) of None \<Rightarrow> None
       | Some s \<Rightarrow> Some (mark_full (real_store p (l\<lparr>l_rc := s\<rparr>)), rc_buf s, l_len l < K_MATCH_SPEC_LEN_ERROR_DATA)))"
proof -
  have "unat (dict_size (p_prop p) - p_processed_pos p) = unat (dict_size (p_prop p)) - unat (p_processed_pos p)"
    if "p_check_dic_size p = 0"
    using assms(1) that by (simp add: dec_shape_def unat_sub word_le_nat_alt)
  then have "(if p_check_dic_size p = 0
        then (let rem = dict_size (p_prop p) - p_processed_pos p in
              if limit < p_dic_pos p then None
              else if unat rem < limit - p_dic_pos p then Some (p_dic_pos p + unat rem)
              else Some limit)
        else Some limit) = Some (real_limit p limit)"
    using assms(2) by (auto simp: real_limit_def Let_def)
  then show ?thesis
    unfolding lzma_dec_decode_real2_def lzma_dec_decode_real_def mark_full_def [symmetric] Let_def
    by (auto split: option.splits)
qed

lemma real_limit_bounds:
  assumes "dec_shape p" "p_dic_pos p \<le> limit"
  shows "p_dic_pos p \<le> real_limit p limit" "real_limit p limit \<le> limit"
    and "p_dic_pos p < limit \<Longrightarrow> p_dic_pos p < real_limit p limit"
    and "p_dic_pos p = limit \<Longrightarrow> real_limit p limit = limit"
  using assms by (auto simp: real_limit_def dec_shape_def)

lemma real_lz_inv:
  assumes "dec_shape p" "dec_tables p" "p_dic_pos p \<le> limit" "limit \<le> p_dic_buf_size p"
  shows "lz_inv (real_env p (real_limit p limit) inp bl) (unat (dict_size (p_prop p))) (real_locals p bs)"
proof -
  note b = real_limit_bounds [OF assms(1,3)]
  have "unat (dict_size (p_prop p)) < 2 ^ 32" by simp
  moreover have "unat (p_processed_pos p) + (real_limit p limit - p_dic_pos p) \<le> unat (dict_size (p_prop p))"
    if "p_check_dic_size p = 0" using assms(1) that by (auto simp: real_limit_def dec_shape_def)
  ultimately show ?thesis
    using real_lz_ok [OF assms(1,2) b(1)] b(2) assms(1,4)
    by (auto simp: lz_inv_def dist_ok_def dec_shape_def)
qed

lemma mark_full_simps [simp]:
  "p_prop (mark_full p) = p_prop p" "p_probs (mark_full p) = p_probs p" "p_dic (mark_full p) = p_dic p"
  "p_dic_buf_size (mark_full p) = p_dic_buf_size p" "p_dic_pos (mark_full p) = p_dic_pos p"
  "p_range (mark_full p) = p_range p" "p_code (mark_full p) = p_code p"
  "p_processed_pos (mark_full p) = p_processed_pos p" "p_reps (mark_full p) = p_reps p"
  "p_state (mark_full p) = p_state p" "p_remain_len (mark_full p) = p_remain_len p"
  "p_temp_buf_size (mark_full p) = p_temp_buf_size p" "p_temp_buf (mark_full p) = p_temp_buf p"
  "p_force_portable (mark_full p) = p_force_portable p"
  by (simp_all add: mark_full_def)

lemma exit_ok_cases:
  assumes "exit_ok env D l"
  shows "length (l_dic l) = e_dic_buf_size env" "l_dic_pos l \<le> e_limit env" "dist_ok env D l"
    and "unat (l_len l) < 512 \<Longrightarrow> lz_ok env l \<and> (unat (l_len l) < 274 \<or> l_len l = K_MATCH_SPEC_LEN_START)"
proof -
  have s: "unat K_MATCH_SPEC_LEN_START = 274" by (simp add: lz_consts)
  show "length (l_dic l) = e_dic_buf_size env" "l_dic_pos l \<le> e_limit env" "dist_ok env D l"
    using assms by (auto simp: exit_ok_def lz_inv_def lz_ok_def dist_ok_def)
  show "unat (l_len l) < 512 \<Longrightarrow> lz_ok env l \<and> (unat (l_len l) < 274 \<or> l_len l = K_MATCH_SPEC_LEN_START)"
    using assms s by (auto simp: exit_ok_def lz_inv_def)
qed

lemma real_exit:
  assumes p: "dec_shape p" "p_dic_pos p \<le> limit" "limit \<le> p_dic_buf_size p"
    and l: "exit_ok (real_env p (real_limit p limit) inp bl) (unat (dict_size (p_prop p))) l"
      "length (l_probs l) = length (p_probs p)" "p_dic_pos p \<le> l_dic_pos l"
    and s: "normalize inp (l_rc l) = Some s" "rc_live (l_rc l)"
    and prog: "p_dic_pos p < l_dic_pos l \<or> l_len l = K_MATCH_SPEC_LEN_START \<or> 512 \<le> unat (l_len l) \<or>
      l_dic_pos l = limit \<and> 0 < unat (l_len l)"
  shows "real_post p limit (mark_full (real_store p (l\<lparr>l_rc := s\<rparr>))) (l_len l < K_MATCH_SPEC_LEN_ERROR_DATA)"
proof -
  let ?q = "mark_full (real_store p (l\<lparr>l_rc := s\<rparr>))"
  note e = exit_ok_cases [OF l(1), simplified]
  have pos: "l_dic_pos l \<le> limit" using e(2) real_limit_bounds(2) [OF p(1,2)] by simp
  have seen: "p_check_dic_size ?q = 0 \<Longrightarrow> unat (p_processed_pos ?q) < unat (dict_size (p_prop p))"
      "p_check_dic_size ?q \<noteq> 0 \<Longrightarrow> p_check_dic_size ?q = dict_size (p_prop p)"
    using e(3) p(1)
    by (auto simp: mark_full_def real_store_def dist_ok_def dec_shape_def word_le_nat_alt split: if_splits)
  have shape: "dec_shape ?q"
    using p(1,3) e(1) l(2) pos seen unfolding dec_shape_def by (auto simp: real_store_def)
  have ok: "dec_tables ?q \<and> 2 ^ 24 \<le> unat (p_range ?q) \<and>
        (unat (p_remain_len ?q) < 274 \<or> p_remain_len ?q = K_MATCH_SPEC_LEN_START)"
    if "l_len l < K_MATCH_SPEC_LEN_ERROR_DATA"
  proof -
    have "unat (l_len l) < 512" using that by (simp add: word_less_nat_alt lz_consts)
    from e(4) [OF this] normalize_Some [OF s] show ?thesis
      by (auto simp: dec_tables_def real_store_def reps_in_def rc_norm_def lz_ok_def rep_ok_def)
  qed
  have "l_len l < K_MATCH_SPEC_LEN_ERROR_DATA \<longleftrightarrow> \<not> 512 \<le> unat (l_len l)"
    by (simp add: word_less_nat_alt lz_consts not_le)
  then show ?thesis
    using shape ok prog pos l(3) unfolding real_post_def
    by (auto simp: same_frame_def real_store_def unat_gt_0)
qed

lemma real2_once:
  assumes p: "dec_shape p" "dec_tables p" "p_dic_pos p \<le> limit" "limit \<le> p_dic_buf_size p" "2 ^ 24 \<le> unat (p_range p)"
    and sym: "next_symbol (dec_ctx p) (p_probs p) (dec_rc p) inp = Some (sy, probs, s1, s2)"
    and room: "p_dic_pos p < limit \<or> (\<exists>len d. sy = SMatch len d)"
  shows "\<exists>q ok. lzma_dec_decode_real2 p limit inp 0 = Some (q, rc_buf s2, ok) \<and> real_post p limit q ok"
proof -
  let ?env = "real_env p (real_limit p limit) inp 0" and ?l = "real_locals p 0"
  note b = real_limit_bounds [OF p(1,3)]
  have inv: "lz_inv ?env (unat (dict_size (p_prop p))) ?l" by (rule real_lz_inv [OF p(1-4)])
  have ctx: "ctx_ok (length (p_probs p)) (dec_ctx p)"
    using sym_ctx_ok [of ?env ?l] inv by (simp add: lz_inv_def sym_ctx_dec)
  have run: "bp_run inp (symbol_prog (dec_ctx p)) (p_probs p) (dec_rc p) = Some (sy, probs, s1)"
    and n: "normalize inp s1 = Some s2"
    using sym by (auto simp: next_symbol_def split: bind_splits)
  have norm: "rc_norm (dec_rc p)" using p(5) by (simp add: rc_norm_def dec_rc_def)
  note bd = next_symbol_bounds [OF sym ctx _ norm]
  have pok: "probs_ok (p_probs p)" using p(2) by (simp add: dec_tables_def)
  obtain l where l: "decode_real_loop ?env ?l = Some l" "exit_ok ?env (unat (dict_size (p_prop p))) l" "l_rc l = s1"
      "length (l_probs l) = length (p_probs p)" "p_dic_pos p \<le> l_dic_pos l"
      "p_dic_pos p < l_dic_pos l \<or> l_len l = K_MATCH_SPEC_LEN_START \<or> 512 \<le> unat (l_len l) \<or>
       p_dic_pos p = real_limit p limit \<and> 0 < unat (l_len l)"
    using decode_real_loop_once [OF inv, of sy probs s1] run room b(3) bd(3,5) [OF pok] rc_norm_live [OF norm]
    by (auto simp: sym_ctx_dec dec_rc_def)
  have lim: "p_dic_pos p = real_limit p limit \<Longrightarrow> p_dic_pos p = limit" using b(3) p(3) by fastforce
  have "l_dic_pos l \<le> real_limit p limit" using exit_ok_cases(2) [OF l(2)] by simp
  then have prog: "p_dic_pos p < l_dic_pos l \<or> l_len l = K_MATCH_SPEC_LEN_START \<or> 512 \<le> unat (l_len l) \<or>
       l_dic_pos l = limit \<and> 0 < unat (l_len l)"
    using l(5,6) lim b(4) by fastforce
  have "real_post p limit (mark_full (real_store p (l\<lparr>l_rc := s2\<rparr>))) (l_len l < K_MATCH_SPEC_LEN_ERROR_DATA)"
    using real_exit [OF p(1,3,4) l(2,4,5) _ _ prog] n bd(3) [OF pok] l(3) by simp
  then show ?thesis using l(1,3) n by (simp add: decode_real2_eq [OF p(1,3)])
qed

lemma real2_many:
  assumes p: "dec_shape p" "dec_tables p" "p_dic_pos p < limit" "limit \<le> p_dic_buf_size p" "2 ^ 24 \<le> unat (p_range p)"
    and inp: "20 \<le> length inp"
  shows "\<exists>q n ok. lzma_dec_decode_real2 p limit inp (length inp - 20) = Some (q, n, ok) \<and> n \<le> length inp \<and> real_post p limit q ok"
proof -
  let ?env = "real_env p (real_limit p limit) inp (length inp - 20)" and ?l = "real_locals p 0"
  have le: "p_dic_pos p \<le> limit" using p(3) by simp
  note b = real_limit_bounds [OF p(1) le]
  have inv: "lz_inv ?env (unat (dict_size (p_prop p))) ?l" by (rule real_lz_inv [OF p(1,2) le p(4)])
  have m: "margin inp (l_rc ?l)" using p(5) inp by (simp add: margin_def rc_norm_def)
  obtain l s where l: "decode_real_loop ?env ?l = Some l" "loop_post ?env (unat (dict_size (p_prop p))) ?l l"
      "normalize inp (l_rc l) = Some s"
    using decode_real_loop_total [OF inv] m b(3) [OF p(3)] inp by auto
  have q: "exit_ok ?env (unat (dict_size (p_prop p))) l" "length (l_probs l) = length (p_probs p)" "rc_live (l_rc l)"
      "p_dic_pos p < l_dic_pos l \<or> l_len l = K_MATCH_SPEC_LEN_START \<or> 512 \<le> unat (l_len l)" "rc_buf (l_rc l) \<le> length inp"
    using l(2) by (auto simp: loop_post_def)
  have "rc_buf s \<le> length inp" using normalize_Some [OF l(3) q(3)] q(5) by auto
  moreover have "p_dic_pos p \<le> l_dic_pos l" using l(2) by (simp add: loop_post_def)
  ultimately show ?thesis
    using real_exit [OF p(1) le p(4) q(1,2) _ l(3) q(3)] q(4) l(1,3)
    by (auto simp: decode_real2_eq [OF p(1) le])
qed

subsection \<open>The pending match\<close>

lemma rem_copy_total:
  assumes "0 < n" "dpos + n \<le> length d" "0 < unat r" "unat r \<le> length d" "length d < 2 ^ 63"
  shows "\<exists>d'. rem_copy n d (length d) dpos r = Some (d', dpos + n) \<and> length d' = length d"
  using assms
proof (induction n arbitrary: d dpos)
  case (Suc n)
  have "dic_back (length d) dpos r < length d"
    using Suc.prems unfolding dic_back_def by (auto simp: mod_if)
  then obtain b where "get_at d (dic_back (length d) dpos r) = Some b" by (simp add: get_at_def)
  moreover have "set_at d dpos b = Some (d[dpos := b])" using Suc.prems by (simp add: set_at_def)
  ultimately show ?case
    using Suc.IH [of "dpos + 1" "d[dpos := b]"] Suc.prems by (cases "n = 0") auto
qed simp

definition rem_post :: "lzma_dec \<Rightarrow> nat \<Rightarrow> lzma_dec \<Rightarrow> bool" where
  "rem_post p limit q \<longleftrightarrow> same_frame p q \<and> dec_run q \<and> p_dic_pos p \<le> p_dic_pos q \<and> p_dic_pos q \<le> limit \<and>
     unat (p_remain_len q) < 274 \<and> (p_remain_len q = 0 \<or> p_dic_pos q = limit) \<and>
     p_temp_buf q = p_temp_buf p \<and> p_temp_buf_size q = p_temp_buf_size p \<and>
     (p_dic_pos q = p_dic_pos p \<longrightarrow> q = p)"

lemma dec_run_remain:
  "dec_run p \<Longrightarrow> p_remain_len p \<noteq> K_MATCH_SPEC_LEN_START \<Longrightarrow> unat (p_remain_len p) < 274"
  by (simp add: dec_run_def)

lemma write_rem_total:
  assumes "dec_run p" "p_remain_len p \<noteq> K_MATCH_SPEC_LEN_START" "p_dic_pos p \<le> limit" "limit \<le> p_dic_buf_size p"
  shows "\<exists>q. lzma_dec_write_rem p limit = Some q \<and> rem_post p limit q"
proof -
  have rem: "unat (p_remain_len p) < 274" by (rule dec_run_remain [OF assms(1,2)])
  define n where "n = min (limit - p_dic_pos p) (unat (p_remain_len p))"
  have sh: "dec_shape p" "dec_tables p" "temp_waits p" and rg: "2 ^ 24 \<le> unat (p_range p)" using assms(1) by (auto simp: dec_run_def)
  have d: "length (p_dic p) = p_dic_buf_size p" "p_dic_buf_size p < 2 ^ 63" using sh(1) by (auto simp: dec_shape_def)
  show ?thesis
  proof (cases "n = 0")
    case True
    then have "lzma_dec_write_rem p limit = Some p"
      using assms(3) by (auto simp: lzma_dec_write_rem_def n_def Let_def unat_eq_0 min_def split: if_splits)
    moreover have "p_remain_len p = 0 \<or> p_dic_pos p = limit"
      using True assms(3) by (auto simp: n_def min_def unat_eq_0 split: if_splits)
    ultimately show ?thesis using assms rem by (simp add: rem_post_def)
  next
    case False
    define len where "len = (if limit - p_dic_pos p < unat (p_remain_len p) then of_nat (limit - p_dic_pos p) else p_remain_len p)"
    have len: "unat len = n" "n < 274"
      using rem by (auto simp: len_def n_def unat_of_nat_small)
    have nz: "p_remain_len p \<noteq> 0" "len \<noteq> 0" using False len by (auto simp: n_def)
    have t0: "p_temp_buf_size p = 0" using sh(3) nz by (auto simp: temp_waits_def)
    have r: "0 < unat (fst (p_reps p))" "unat (fst (p_reps p)) \<le> p_dic_buf_size p"
      using sh(2) by (cases "p_reps p"; auto simp: dec_tables_def reps_in_def)+
    have "n \<le> limit - p_dic_pos p" by (simp add: n_def)
    then have fits: "p_dic_pos p + n \<le> p_dic_buf_size p" using assms(3,4) by linarith
    obtain d' where d': "rem_copy n (p_dic p) (p_dic_buf_size p) (p_dic_pos p) (fst (p_reps p)) = Some (d', p_dic_pos p + n)"
        "length d' = p_dic_buf_size p"
      using rem_copy_total [of n "p_dic_pos p" "p_dic p" "fst (p_reps p)"] False r d fits by auto
    define p1 where "p1 = (if p_check_dic_size p = 0 \<and> dict_size (p_prop p) - p_processed_pos p \<le> len
                   then p\<lparr>p_check_dic_size := dict_size (p_prop p)\<rparr> else p)"
    define q where "q = p1\<lparr>p_processed_pos := p_processed_pos p + len, p_remain_len := p_remain_len p - len,
                          p_dic := d', p_dic_pos := p_dic_pos p + n\<rparr>"
    have p1: "p_processed_pos p1 = p_processed_pos p" "p_remain_len p1 = p_remain_len p" "p_dic p1 = p_dic p"
        "p_dic_buf_size p1 = p_dic_buf_size p" "p_reps p1 = p_reps p" "p_dic_pos p1 = p_dic_pos p"
      by (simp_all add: p1_def)
    have b: "(if limit < p_dic_pos p then None else Some (limit - p_dic_pos p)) = Some (limit - p_dic_pos p)"
      using assms(3) by simp
    have eq: "lzma_dec_write_rem p limit = Some q"
      using nz d'(1) len(1) p1
      unfolding lzma_dec_write_rem_def Let_def b bind.bind_lunit len_def [symmetric] p1_def [symmetric] q_def by simp
    have "unat (dict_size (p_prop p) - p_processed_pos p) = unat (dict_size (p_prop p)) - unat (p_processed_pos p)"
      "unat (p_processed_pos p) < unat (dict_size (p_prop p))" if "p_check_dic_size p = 0"
      using sh(1) that by (auto simp: dec_shape_def unat_sub word_le_nat_alt)
    then have seen: "unat (p_processed_pos p + len) < unat (dict_size (p_prop p))"
      if "p_check_dic_size p = 0" "\<not> dict_size (p_prop p) - p_processed_pos p \<le> len"
      using that by (simp add: word_le_nat_alt unat_word_ariths len(1))
    have shq: "dec_shape q"
      using sh(1) seen d'(2) assms(3,4) unfolding dec_shape_def by (auto simp: q_def p1_def n_def)
    have "unat (p_remain_len p - len) = unat (p_remain_len p) - n"
      using len(1) by (simp add: unat_sub word_le_nat_alt n_def)
    then have rm: "unat (p_remain_len q) = unat (p_remain_len p) - n" by (simp add: q_def)
    have "p_remain_len q = 0 \<or> p_dic_pos q = limit"
      using rm assms(3) by (auto simp: n_def min_def q_def unat_eq_0 split: if_splits)
    moreover have "dec_run q"
      using sh(2) shq rg t0 rm rem by (auto simp: dec_run_def dec_tables_def temp_waits_def q_def p1_def)
    ultimately show ?thesis
      using eq rm rem assms(3) False by (auto simp: rem_post_def q_def p1_def n_def same_frame_def)
  qed
qed

subsection \<open>One turn of the main loop\<close>

definition turn_done :: "nat \<Rightarrow> lzma_dec \<Rightarrow> bool" where
  "turn_done limit p \<longleftrightarrow> p_remain_len p = K_MATCH_SPEC_LEN_START \<or> p_dic_pos p = limit \<and> p_remain_len p \<noteq> 0"

text \<open>Every turn but the last produces output, or leaves a state the next turn returns from.\<close>

definition turns_left :: "nat \<Rightarrow> lzma_dec \<Rightarrow> nat" where
  "turns_left limit p = 2 * (limit - p_dic_pos p) + of_bool (\<not> turn_done limit p)"

definition result_ok :: "lzma_dec \<Rightarrow> nat \<Rightarrow> nat \<Rightarrow> to_dic_result \<Rightarrow> bool" where
  "result_ok p limit tot = (\<lambda>(q, st, r). dec_inv q \<and> same_frame p q \<and> p_dic_pos p \<le> p_dic_pos q \<and> p_dic_pos q \<le> limit \<and>
     (case r of Inl e \<Rightarrow> e = CorruptData | Inr n \<Rightarrow> n \<le> tot))"

definition turn_ok :: "lzma_dec \<Rightarrow> nat \<Rightarrow> nat \<Rightarrow> turn \<Rightarrow> bool" where
  "turn_ok p limit tot t \<longleftrightarrow> (case t of
     Return r \<Rightarrow> result_ok p limit tot r
   | Again q src n \<Rightarrow> dec_run q \<and> same_frame p q \<and> p_dic_pos p \<le> p_dic_pos q \<and> p_dic_pos q \<le> limit \<and>
       n + length src = tot \<and> turns_left limit q < turns_left limit p
   | Broken q \<Rightarrow> False)"

lemma dec_run_inv: "dec_run p \<Longrightarrow> dec_inv p" by (simp add: dec_inv_def)

lemma turns_left_real:
  assumes "real_post p limit q ok" "ok" "p_remain_len p = 0"
  shows "turns_left limit q < turns_left limit p"
proof -
  have "\<not> turn_done limit p" using assms(3) by (simp add: turn_done_def lz_consts)
  moreover have "p_dic_pos p < p_dic_pos q \<or> turn_done limit q" "p_dic_pos p \<le> p_dic_pos q" "p_dic_pos q \<le> limit"
    using assms(1,2) by (auto simp: real_post_def turn_done_def)
  ultimately show ?thesis unfolding turns_left_def by (auto simp: of_bool_def)
qed

lemma after_real_ok:
  assumes "real_post p limit q ok" "p_remain_len p = 0" "p_temp_buf_size p = 0" "n \<le> length src"
  shows "\<exists>t. after_real q ok src m n = Some t \<and> turn_ok p limit (m + length src) t"
proof (cases ok)
  case True
  have "dec_run q" using assms(1,3) True by (auto simp: real_post_def dec_run_def temp_waits_def)
  then show ?thesis
    using assms True turns_left_real [OF assms(1) True assms(2)]
    by (simp add: after_real_def turn_ok_def real_post_def)
next
  case False
  have "dec_shape q" using assms(1) by (simp add: real_post_def)
  then have "dec_inv (q\<lparr>p_remain_len := K_MATCH_SPEC_LEN_ERROR_DATA\<rparr>)" by (simp add: dec_inv_def)
  then show ?thesis
    using assms False by (simp add: after_real_def turn_ok_def result_ok_def real_post_def same_frame_def)
qed

lemma dec_ctx_temp [simp]:
  "dec_ctx (p\<lparr>p_temp_buf := t\<rparr>) = dec_ctx p" "dec_ctx (p\<lparr>p_temp_buf_size := k\<rparr>) = dec_ctx p"
  "dec_rc (p\<lparr>p_temp_buf := t\<rparr>) = dec_rc p" "dec_rc (p\<lparr>p_temp_buf_size := k\<rparr>) = dec_rc p"
  by (simp_all add: dec_ctx_def dec_rc_def sym_ctx_def real_env_def real_locals_def split: prod.splits)

lemma bp_run_buf_mono: "bp_run inp p probs s = Some (x, probs', s') \<Longrightarrow> rc_buf s \<le> rc_buf s'"
proof (induction p arbitrary: probs s)
  case (Bit i k)
  then show ?case
    by (cases "normalize inp s")
       (fastforce simp: dec_bit_eq normalize_def rc_bit_def Let_def split: option.splits if_splits prod.splits)+
next
  case (Direct k)
  then show ?case
    by (cases "normalize inp s")
       (fastforce simp: dec_direct_def normalize_def Let_def split: option.splits if_splits)+
qed simp

lemma normalize_take:
  "normalize inp s = Some s' \<Longrightarrow> rc_buf s' \<le> m \<Longrightarrow> normalize (take m inp) s = Some s'"
  by (auto simp: normalize_def get_at_def split: if_splits option.splits)

lemma bp_run_take:
  "bp_run inp p probs s = Some (x, probs', s') \<Longrightarrow> rc_buf s' \<le> m \<Longrightarrow> bp_run (take m inp) p probs s = Some (x, probs', s')"
proof (induction p arbitrary: probs s)
  case (Bit i k)
  obtain b pr s1 where d: "dec_bit inp probs i s = Some (b, pr, s1)" and r: "bp_run inp (k b) pr s1 = Some (x, probs', s')"
    using Bit.prems(1) by (auto split: option.splits)
  have "rc_buf s1 \<le> m" using bp_run_buf_mono [OF r] Bit.prems(2) by simp
  moreover obtain s0 where s0: "normalize inp s = Some s0" "rc_buf s1 = rc_buf s0"
    using d by (auto simp: dec_bit_eq rc_bit_def Let_def split: option.splits if_splits prod.splits)
  ultimately have "normalize (take m inp) s = Some s0" by (intro normalize_take) auto
  then have "dec_bit (take m inp) probs i s = Some (b, pr, s1)" using d s0(1) by (auto simp: dec_bit_eq split: if_splits)
  then show ?case using Bit.IH [OF rangeI r Bit.prems(2)] by simp
next
  case (Direct k)
  obtain b s1 where d: "dec_direct inp s = Some (b, s1)" and r: "bp_run inp (k b) probs s1 = Some (x, probs', s')"
    using Direct.prems(1) by (auto split: option.splits)
  have "rc_buf s1 \<le> m" using bp_run_buf_mono [OF r] Direct.prems(2) by simp
  moreover obtain s0 where s0: "normalize inp s = Some s0" "rc_buf s1 = rc_buf s0"
    using d by (cases "normalize inp s") (auto simp: dec_direct_def Let_def)
  ultimately have "normalize (take m inp) s = Some s0" by (intro normalize_take) auto
  then have "dec_direct (take m inp) s = Some (b, s1)" using d s0(1) by (simp add: dec_direct_def)
  then show ?case using Direct.IH [OF rangeI r Direct.prems(2)] by simp
qed simp

lemma next_symbol_exact:
  assumes "next_symbol c probs s inp = Some (sy, probs', s1, s2)" "rc_buf s2 \<le> m"
  shows "next_symbol c probs s (take m inp) = Some (sy, probs', s1, s2)"
proof -
  have run: "bp_run inp (symbol_prog c) probs s = Some (sy, probs', s1)" and n: "normalize inp s1 = Some s2"
    using assms(1) by (auto simp: next_symbol_def split: bind_splits)
  have "rc_buf s1 \<le> rc_buf s2" using n by (auto simp: normalize_def split: if_splits option.splits)
  then show ?thesis
    using bp_run_take [OF run, of m] normalize_take [OF n assms(2)] assms(2) by (simp add: next_symbol_def)
qed

text \<open>What is too short for a symbol: a prefix of too few bytes, and every prefix shorter than the symbol.\<close>

lemma next_symbol_prefix_None:
  "next_symbol c probs s (take k inp) = None \<Longrightarrow> n \<le> k \<Longrightarrow> next_symbol c probs s (take n inp) = None"
  using next_symbol_take [of c probs s n "take k inp"] by (cases "next_symbol c probs s (take n inp)") (auto simp: min_absorb1)

lemma next_symbol_short_None:
  assumes "next_symbol c probs s inp = Some (sy, probs', s1, s2)" "n < rc_buf s2" "rc_buf s = 0"
  shows "next_symbol c probs s (take n inp) = None"
proof (rule ccontr)
  assume "\<not> ?thesis"
  then obtain r where r: "next_symbol c probs s (take n inp) = Some r" by auto
  then have "r = (sy, probs', s1, s2)" using next_symbol_take [OF r] assms(1) by simp
  then have "rc_buf s2 \<le> length (take n inp)" using next_symbol_input [of c probs s "take n inp"] r assms(3) by simp
  then show False using assms(2) by simp
qed

lemma decode_real_loop_None: "decode_real_body env l = None \<Longrightarrow> decode_real_loop env l = None"
  by (subst decode_real_loop.simps) simp

text \<open>Where the bytes do not hold a symbol, the real decoder would read past them.\<close>

lemma real2_eof:
  assumes p: "dec_shape p" "dec_tables p" "p_dic_pos p < limit" "limit \<le> p_dic_buf_size p" "2 ^ 24 \<le> unat (p_range p)"
    and eof: "next_symbol (dec_ctx p) (p_probs p) (dec_rc p) inp = None"
  shows "lzma_dec_decode_real2 p limit inp 0 = None"
proof -
  let ?env = "real_env p (real_limit p limit) inp 0" and ?l = "real_locals p 0"
  have le: "p_dic_pos p \<le> limit" using p(3) by simp
  have inv: "lz_inv ?env (unat (dict_size (p_prop p))) ?l" by (rule real_lz_inv [OF p(1,2) le p(4)])
  then have ok: "lz_ok ?env ?l" by (simp add: lz_inv_def)
  have ctx: "ctx_ok (length (p_probs p)) (dec_ctx p)" using sym_ctx_ok [OF ok] by (simp add: sym_ctx_dec)
  have rcs: "l_rc ?l = dec_rc p" "rc_norm (dec_rc p)" using p(5) by (simp_all add: dec_rc_def rc_norm_def)
  show ?thesis
  proof (cases "bp_run inp (symbol_prog (dec_ctx p)) (p_probs p) (dec_rc p)")
    case None
    then have "decode_real_body ?env ?l = None"
      unfolding decode_real_body_eq [OF ok] sym_ctx_dec using rcs(1) by simp
    then show ?thesis by (simp add: decode_real2_eq [OF p(1) le] decode_real_loop_None)
  next
    case (Some r)
    then obtain sy probs s where run: "bp_run inp (symbol_prog (dec_ctx p)) (p_probs p) (dec_rc p) = Some (sy, probs, s)"
      by (cases r) auto
    then have n: "normalize inp s = None" using eof by (simp add: next_symbol_def split: bind_splits)
    have "rc_live s \<and> rc_buf (dec_rc p) \<le> rc_buf s"
      using bp_run_spent [OF run _ rc_norm_live [OF rcs(2)] rc_spent_init [OF rcs(2)] symbol_prog_range(3) [OF ctx]] p(2)
      by (simp add: dec_tables_def)
    then obtain l where "decode_real_loop ?env ?l = Some l" "l_rc l = s"
      using decode_real_loop_once [OF inv, of sy probs s] run rcs rc_norm_live [OF rcs(2)] real_limit_bounds(3) [OF p(1) le p(3)]
      by (auto simp: sym_ctx_dec)
    then show ?thesis using n by (simp add: decode_real2_eq [OF p(1) le])
  qed
qed

subsection \<open>A turn on the caller's input\<close>

lemma try_dummy_cases:
  assumes "dec_shape p" "dec_tables p"
  obtains (eof) pos where "next_symbol (dec_ctx p) (p_probs p) (dec_rc p) buf = None" "lzma_dec_try_dummy p buf = Some (InputEof, pos)"
    | (sym) sy probs' s1 s2 where "next_symbol (dec_ctx p) (p_probs p) (dec_rc p) buf = Some (sy, probs', s1, s2)"
        "lzma_dec_try_dummy p buf = Some (sym_kind sy, rc_buf s2)"
proof -
  have "p_dic_pos p \<le> p_dic_buf_size p" "props_ok (p_prop p)" using assms(1) by (auto simp: dec_shape_def)
  note r = try_dummy_eq [OF real_lz_ok [OF assms this(1) order_refl] this(2), of buf]
  show ?thesis
  proof (cases "next_symbol (dec_ctx p) (p_probs p) (dec_rc p) buf")
    case None
    then show ?thesis using r eof by auto
  next
    case (Some x)
    then show ?thesis using r sym by (cases x) auto
  qed
qed

lemma sym_kind_eof [simp]: "sym_kind sy \<noteq> InputEof" by (cases sy) auto
lemma sym_kind_match [simp]: "end_marker_possible (sym_kind sy) \<longleftrightarrow> (\<exists>len d. sy = SMatch len d)"
  by (cases sy) (auto simp: end_marker_possible_def)

lemma dec_ctx_ok: "dec_shape p \<Longrightarrow> dec_tables p \<Longrightarrow> ctx_ok (length (p_probs p)) (dec_ctx p)"
  using sym_ctx_ok [OF real_lz_ok [of p "p_dic_buf_size p" "[]" 0 0]]
  by (simp add: sym_ctx_dec dec_shape_def)

text \<open>Keeping bytes for the next call.\<close>

lemma dec_run_keep:
  assumes "dec_run p" "p_remain_len p = 0" "length t = 20" "k \<le> 20"
    and "\<forall>n < k. next_symbol (dec_ctx p) (p_probs p) (dec_rc p) (take n t) = None"
  shows "dec_run (p\<lparr>p_temp_buf_size := k, p_temp_buf := t\<rparr>)"
proof -
  have "dec_shape p" "dec_tables p" "2 ^ 24 \<le> unat (p_range p)" using assms(1) by (auto simp: dec_run_def)
  moreover have "dec_shape (p\<lparr>p_temp_buf_size := k, p_temp_buf := t\<rparr>)"
    using \<open>dec_shape p\<close> assms(3) unfolding dec_shape_def by simp
  ultimately show ?thesis using assms(2-5)
    by (simp add: dec_run_def dec_tables_def temp_waits_def)
qed

lemma slice_prefix: "n \<le> length xs \<Longrightarrow> slice xs 0 n = Some (take n xs)"
  by (simp add: slice_def)

lemma copy_into_temp:
  assumes "length xs \<le> 20" "length t = 20"
  shows "copy_into t 0 xs = Some (xs @ drop (length xs) t)"
  using assms by (simp add: copy_into_def)

lemma result_ok_keep:
  assumes "dec_run p" "p_remain_len p = 0" "length t = 20" "k \<le> 20" "p_dic_pos p \<le> limit"
    and "\<forall>n < k. next_symbol (dec_ctx p) (p_probs p) (dec_rc p) (take n t) = None"
    and "case r of Inl e \<Rightarrow> e = CorruptData | Inr n \<Rightarrow> n \<le> tot"
  shows "result_ok p limit tot (p\<lparr>p_temp_buf_size := k, p_temp_buf := t\<rparr>, st, r)"
  using dec_run_inv [OF dec_run_keep [OF assms(1-4,6)]] assms(5,7) by (simp add: result_ok_def same_frame_def)

lemma turn_src_ok:
  assumes p: "dec_run p" "p_remain_len p = 0" "p_temp_buf_size p = 0"
    and lim: "p_dic_pos p \<le> limit" "limit \<le> p_dic_buf_size p" "ck \<or> p_dic_pos p < limit"
  shows "\<exists>t. turn_src p limit ck src m = Some t \<and> turn_ok p limit (m + length src) t"
proof -
  have sh: "dec_shape p" "dec_tables p" "2 ^ 24 \<le> unat (p_range p)" using p(1) by (auto simp: dec_run_def)
  have tl: "length (p_temp_buf p) = 20" and pok: "probs_ok (p_probs p)"
    using sh(1,2) by (auto simp: dec_shape_def dec_tables_def)
  have norm: "rc_norm (dec_rc p)" "rc_buf (dec_rc p) = 0" using sh(3) by (simp_all add: rc_norm_def dec_rc_def)
  note ctx = dec_ctx_ok [OF sh(1,2)]
  show ?thesis
  proof (cases "length src < LZMA_REQUIRED_INPUT_MAX \<or> ck")
    case True
    show ?thesis
    proof (rule try_dummy_cases [OF sh(1,2), of src])
      fix pos assume e: "next_symbol (dec_ctx p) (p_probs p) (dec_rc p) src = None"
        "lzma_dec_try_dummy p src = Some (InputEof, pos)"
      have short: "length src < 20"
        using next_symbol_total [OF ctx pok norm(1), of src] e(1) norm(2) by (auto simp: not_le [symmetric])
      have "next_symbol (dec_ctx p) (p_probs p) (dec_rc p) (take n src) = None" if "n < length src" for n
        using next_symbol_prefix_None [of _ _ _ "length src" src n] e(1) that by simp
      then have "result_ok p limit (m + length src) (p\<lparr>p_temp_buf_size := length src, p_temp_buf := src @ drop (length src) (p_temp_buf p)\<rparr>,
          NeedsMoreInput, Inr (m + length src))"
        using short tl lim(1) by (intro result_ok_keep [OF p(1,2)]) auto
      then show ?thesis
        using True e(2) short tl
        by (simp add: copy_into_temp slice_prefix turn_src_def turn_ok_def Let_def lz_consts)
    next
      fix sy probs' s1 s2 assume e: "next_symbol (dec_ctx p) (p_probs p) (dec_rc p) src = Some (sy, probs', s1, s2)"
        "lzma_dec_try_dummy p src = Some (sym_kind sy, rc_buf s2)"
      have b: "rc_buf s2 \<le> 20" "rc_buf s2 \<le> length src"
        using next_symbol_bounds(7) [OF e(1) ctx pok norm(1)] next_symbol_input [OF e(1)] norm(2) by auto
      show ?thesis
      proof (cases "ck \<and> \<not> end_marker_possible (sym_kind sy)")
        case stop: True
        have "next_symbol (dec_ctx p) (p_probs p) (dec_rc p) (take n (take (rc_buf s2) src @ xs)) = None" if "n < rc_buf s2" for n xs
          using next_symbol_short_None [OF e(1) that norm(2)] that b by (simp add: min_def)
        then have "result_ok p limit (m + length src) (p\<lparr>p_temp_buf_size := rc_buf s2,
            p_temp_buf := take (rc_buf s2) src @ drop (rc_buf s2) (p_temp_buf p)\<rparr>, NotFinished, Inl CorruptData)"
          using b tl lim(1) by (intro result_ok_keep [OF p(1,2)]) auto
        then show ?thesis
          using True stop e(2) b tl
          by (simp add: copy_into_temp slice_prefix turn_src_def turn_ok_def Let_def lz_consts)
      next
        case go: False
        then have room: "p_dic_pos p < limit \<or> (\<exists>len d. sy = SMatch len d)" using lim(3) by auto
        obtain q ok where q: "lzma_dec_decode_real2 p limit src 0 = Some (q, rc_buf s2, ok)" "real_post p limit q ok"
          using real2_once [OF sh(1,2) lim(1,2) sh(3) e(1) room] by blast
        obtain t where "after_real q ok src m (rc_buf s2) = Some t" "turn_ok p limit (m + length src) t"
          using after_real_ok [OF q(2) p(2,3) b(2)] by blast
        then show ?thesis
          using True go e(2) b q(1) by (auto simp: turn_src_def Let_def lz_consts)
      qed
    qed
  next
    case False
    then have "p_dic_pos p < limit" "20 \<le> length src" using lim(3) by (auto simp: lz_consts)
    then obtain q n ok where q: "lzma_dec_decode_real2 p limit src (length src - 20) = Some (q, n, ok)" "n \<le> length src"
        "real_post p limit q ok"
      using real2_many [OF sh(1,2) _ lim(2) sh(3)] by blast
    obtain t where "after_real q ok src m n = Some t" "turn_ok p limit (m + length src) t"
      using after_real_ok [OF q(3) p(2,3) q(2)] by blast
    then show ?thesis
      using False q(1,2) by (simp add: turn_src_def Let_def lz_consts)
  qed
qed

subsection \<open>A turn on the kept bytes\<close>

lemma fill_temp_eq:
  assumes "length t = 20" "rem \<le> 20"
  shows "fill_temp t rem a src = Some (take rem t @ take (min (20 - rem) (length src)) src @ drop (rem + min (20 - rem) (length src)) t,
    rem + min (20 - rem) (length src), a + min (20 - rem) (length src))"
  using assms
proof (induction src arbitrary: t rem a)
  case (Cons b src)
  show ?case
  proof (cases "rem < 20")
    case True
    have "fill_temp t rem a (b # src) = fill_temp (t[rem := b]) (rem + 1) (a + 1) src"
      using True Cons.prems by (simp add: set_at_def lz_consts)
    also have "\<dots> = Some (take (rem + 1) (t[rem := b]) @ take (min (20 - (rem + 1)) (length src)) src @
        drop (rem + 1 + min (20 - (rem + 1)) (length src)) (t[rem := b]),
        rem + 1 + min (20 - (rem + 1)) (length src), a + 1 + min (20 - (rem + 1)) (length src))"
      using True Cons.prems by (intro Cons.IH) auto
    finally show ?thesis
      using True Cons.prems
      by (auto simp: take_Suc_conv_app_nth min_def Suc_diff_Suc [symmetric] split: if_splits)
  next
    case False
    then show ?thesis using Cons.prems by (simp add: lz_consts)
  qed
qed simp

lemma after_temp_ok:
  assumes "real_post p limit q ok" "p_remain_len p = 0" "p_temp_buf_size p \<le> n" "n - p_temp_buf_size p \<le> length src"
  shows "\<exists>t. after_temp q ok src m n = Some t \<and> turn_ok p limit (m + length src) t"
proof -
  have r: "real_post (p\<lparr>p_temp_buf_size := 0\<rparr>) limit (q\<lparr>p_temp_buf_size := 0\<rparr>) ok"
    using assms(1) by (simp add: real_post_def same_frame_def)
  have tk: "turn_ok (p\<lparr>p_temp_buf_size := 0\<rparr>) limit k t = turn_ok p limit k t" for k t
    by (simp add: turn_ok_def result_ok_def same_frame_def turns_left_def turn_done_def split: turn.splits)
  have "p_temp_buf_size q = p_temp_buf_size p" using assms(1) by (simp add: real_post_def)
  then show ?thesis
    using after_real_ok [OF r, of "n - p_temp_buf_size p" src m] assms(2-4)
    by (simp add: after_temp_def tk)
qed

lemma turn_temp_ok:
  assumes p: "dec_run p" "p_remain_len p = 0" "p_temp_buf_size p \<noteq> 0"
    and lim: "p_dic_pos p \<le> limit" "limit \<le> p_dic_buf_size p" "ck \<or> p_dic_pos p < limit"
  shows "\<exists>t. turn_temp p limit ck src m = Some t \<and> turn_ok p limit (m + length src) t"
proof -
  define k where "k = min (20 - p_temp_buf_size p) (length src)"
  define t where "t = take (p_temp_buf_size p) (p_temp_buf p) @ take k src @ drop (p_temp_buf_size p + k) (p_temp_buf p)"
  define rem where "rem = p_temp_buf_size p + k"
  define p1 where "p1 = p\<lparr>p_temp_buf := t\<rparr>"
  have tw: "length (p_temp_buf p) = 20" "p_temp_buf_size p \<le> 20"
      "\<And>n. n < p_temp_buf_size p \<Longrightarrow> next_symbol (dec_ctx p) (p_probs p) (dec_rc p) (take n (p_temp_buf p)) = None"
    using p(1,3) by (auto simp: dec_run_def temp_waits_def dec_shape_def)
  have k: "k \<le> length src" "rem \<le> 20" "length t = 20" "rem - p_temp_buf_size p = k"
    using tw by (auto simp: k_def t_def rem_def)
  have fill: "fill_temp (p_temp_buf p) (p_temp_buf_size p) 0 src = Some (t, rem, k)"
    using fill_temp_eq [OF tw(1,2), of 0 src] by (simp add: t_def rem_def k_def)
  have same: "take n t = take n (p_temp_buf p)" if "n \<le> p_temp_buf_size p" for n
    using that tw by (simp add: t_def min_def)
  have run1: "dec_run p1"
    using dec_run_keep [OF p(1,2) k(3) tw(2)] tw(3) same by (simp add: p1_def)
  have sh: "dec_shape p1" "dec_tables p1" "2 ^ 24 \<le> unat (p_range p1)" using run1 by (auto simp: dec_run_def)
  have p1: "p_remain_len p1 = 0" "p_dic_pos p1 = p_dic_pos p" "p_dic_buf_size p1 = p_dic_buf_size p" "p_temp_buf p1 = t"
      "p_temp_buf_size p1 = p_temp_buf_size p" "dec_ctx p1 = dec_ctx p" "dec_rc p1 = dec_rc p" "p_probs p1 = p_probs p"
    using p(2) by (simp_all add: p1_def)
  have tk: "turn_ok p1 limit j x = turn_ok p limit j x" "result_ok p1 limit j r = result_ok p limit j r" for j x r
    by (simp_all add: p1_def turn_ok_def result_ok_def same_frame_def turns_left_def turn_done_def split: turn.splits)
  have p1t: "p1\<lparr>p_temp_buf_size := n, p_temp_buf := t\<rparr> = p1\<lparr>p_temp_buf_size := n\<rparr>" for n
    by (cases p) (simp add: p1_def)
  have pok: "probs_ok (p_probs p1)" using sh(2) by (simp add: dec_tables_def)
  have norm: "rc_norm (dec_rc p1)" "rc_buf (dec_rc p1) = 0" using sh(3) by (simp_all add: rc_norm_def dec_rc_def)
  note ctx = dec_ctx_ok [OF sh(1,2)]
  have enough: "p_temp_buf_size p \<le> rc_buf s2"
    if "next_symbol (dec_ctx p1) (p_probs p1) (dec_rc p1) inp = Some (sy, probs', s1, s2)" "take rem inp = take rem t" for inp sy probs' s1 s2
  proof (rule ccontr)
    assume *: "\<not> p_temp_buf_size p \<le> rc_buf s2"
    have "take (rc_buf s2) inp = take (rc_buf s2) (take rem inp)" using * by (simp add: rem_def min_def)
    also have "\<dots> = take (rc_buf s2) (p_temp_buf p)" using * same [of "rc_buf s2"] that(2) by (simp add: rem_def min_def)
    finally show False using next_symbol_exact [OF that(1) order_refl] tw(3) [of "rc_buf s2"] * p1 by simp
  qed
  have st: "lzma_dec_decode_real2 p1 limit t 0 = Some (q, rc_buf s2, ok) \<Longrightarrow> real_post p1 limit q ok \<Longrightarrow>
      p_temp_buf_size p \<le> rc_buf s2 \<Longrightarrow> rc_buf s2 \<le> rem \<Longrightarrow>
      \<exists>x. after_temp q ok src m (rc_buf s2) = Some x \<and> turn_ok p limit (m + length src) x" for q s2 ok
    using after_temp_ok [of p1 limit q ok "rc_buf s2" src m] p1 k unfolding tk by (auto simp: rem_def)
  show ?thesis
  proof (cases "rem < LZMA_REQUIRED_INPUT_MAX \<or> ck")
    case True
    show ?thesis
    proof (rule try_dummy_cases [OF sh(1,2), of "take rem t"])
      fix pos assume e: "next_symbol (dec_ctx p1) (p_probs p1) (dec_rc p1) (take rem t) = None"
        "lzma_dec_try_dummy p1 (take rem t) = Some (InputEof, pos)"
      have short: "rem < 20"
        using next_symbol_total [OF ctx pok norm(1), of "take rem t"] e(1) norm(2) k by (auto simp: not_le [symmetric])
      have "next_symbol (dec_ctx p1) (p_probs p1) (dec_rc p1) (take n t) = None" if "n < rem" for n
        using next_symbol_prefix_None [OF e(1)] that by simp
      then have "result_ok p1 limit (m + length src) (p1\<lparr>p_temp_buf_size := rem, p_temp_buf := t\<rparr>, NeedsMoreInput, Inr (m + k))"
        using short k lim(1) p1(2) by (intro result_ok_keep [OF run1 p1(1)]) auto
      then have "result_ok p limit (m + length src) (p1\<lparr>p_temp_buf_size := rem\<rparr>, NeedsMoreInput, Inr (m + k))"
        unfolding tk p1t .
      then show ?thesis
        using True e(2) short k fill p1(4)
        by (simp add: turn_temp_def turn_ok_def Let_def lz_consts p1_def [symmetric] slice_prefix)
    next
      fix sy probs' s1 s2 assume e: "next_symbol (dec_ctx p1) (p_probs p1) (dec_rc p1) (take rem t) = Some (sy, probs', s1, s2)"
        "lzma_dec_try_dummy p1 (take rem t) = Some (sym_kind sy, rc_buf s2)"
      have b: "rc_buf s2 \<le> rem" "p_temp_buf_size p \<le> rc_buf s2"
        using next_symbol_input [OF e(1)] norm(2) k enough [OF e(1)] by auto
      show ?thesis
      proof (cases "ck \<and> \<not> end_marker_possible (sym_kind sy)")
        case stop: True
        have "next_symbol (dec_ctx p1) (p_probs p1) (dec_rc p1) (take n t) = None" if "n < rc_buf s2" for n
          using next_symbol_short_None [OF next_symbol_take [OF e(1)] that norm(2)] .
        then have "result_ok p1 limit (m + length src) (p1\<lparr>p_temp_buf_size := rc_buf s2, p_temp_buf := t\<rparr>, NotFinished, Inl CorruptData)"
          using b k lim(1) p1(2) by (intro result_ok_keep [OF run1 p1(1)]) auto
        then have "result_ok p limit (m + length src) (p1\<lparr>p_temp_buf_size := rc_buf s2\<rparr>, NotFinished, Inl CorruptData)"
          unfolding tk p1t .
        then show ?thesis
          using True stop e(2) b k fill p1(4,5)
          by (simp add: turn_temp_def turn_ok_def Let_def lz_consts p1_def [symmetric] slice_prefix)
      next
        case go: False
        then have room: "p_dic_pos p1 < limit \<or> (\<exists>len d. sy = SMatch len d)" using lim(3) p1(2) by auto
        obtain q ok where q: "lzma_dec_decode_real2 p1 limit t 0 = Some (q, rc_buf s2, ok)" "real_post p1 limit q ok"
          using real2_once [OF sh(1,2) _ _ sh(3) next_symbol_take [OF e(1)] room] lim(1,2) p1(2,3) by auto
        show ?thesis
          using st [OF q b(2,1)] True go e(2) b k fill p1(4,5) q(1)
          by (auto simp: turn_temp_def Let_def lz_consts p1_def [symmetric] slice_prefix)
      qed
    qed
  next
    case False
    then have rem: "rem = 20" and room: "p_dic_pos p1 < limit" using k(2) lim(3) p1(2) by (auto simp: lz_consts)
    obtain sy probs' s1 s2 where e: "next_symbol (dec_ctx p1) (p_probs p1) (dec_rc p1) t = Some (sy, probs', s1, s2)"
      using next_symbol_total [OF ctx pok norm(1), of t] norm(2) k by auto
    have b: "rc_buf s2 \<le> 20" "p_temp_buf_size p \<le> rc_buf s2"
      using next_symbol_input [OF e] norm(2) k enough [OF e] by auto
    obtain q ok where q: "lzma_dec_decode_real2 p1 limit t 0 = Some (q, rc_buf s2, ok)" "real_post p1 limit q ok"
      using real2_once [OF sh(1,2) _ _ sh(3) e, of limit] room lim(1,2) p1(2,3) by auto
    have "p_temp_buf_size q = p_temp_buf_size p" using q(2) p1(5) by (simp add: real_post_def)
    then show ?thesis
      using st [OF q b(2)] False b k fill p1(4,5) q(1) rem
      by (simp add: turn_temp_def Let_def lz_consts p1_def [symmetric])
  qed
qed

subsection \<open>The main loop\<close>

lemma turns_left_rem:
  assumes "rem_post p limit q" "p_dic_pos p \<le> limit"
  shows "turns_left limit q \<le> turns_left limit p"
  using assms by (cases "p_dic_pos q = p_dic_pos p") (auto simp: rem_post_def turns_left_def of_bool_def)

lemma turn_ok_rem:
  assumes "turn_ok q limit k t" "rem_post p limit q" "p_dic_pos p \<le> limit"
  shows "turn_ok p limit k t"
proof -
  have "same_frame p q" "p_dic_pos p \<le> p_dic_pos q" using assms(2) by (auto simp: rem_post_def)
  then show ?thesis
    using assms(1) turns_left_rem [OF assms(2,3)]
    by (auto simp: turn_ok_def result_ok_def intro: same_frame_trans split: turn.splits)
qed

lemma dic_turn_ok:
  assumes "dec_run p" "p_dic_pos p \<le> limit" "limit \<le> p_dic_buf_size p"
  shows "\<exists>t. dic_turn mode limit p src m = Some t \<and> turn_ok p limit (m + length src) t"
proof (cases "p_remain_len p = K_MATCH_SPEC_LEN_START")
  case True
  then show ?thesis
    using assms(2) dec_run_inv [OF assms(1)] by (simp add: dic_turn_def turn_ok_def result_ok_def)
next
  case False
  obtain q where q: "lzma_dec_write_rem p limit = Some q" "rem_post p limit q"
    using write_rem_total [OF assms(1) False assms(2,3)] by auto
  have run: "dec_run q" "p_dic_pos q \<le> limit" "limit \<le> p_dic_buf_size q" "p_remain_len q = 0 \<or> p_dic_pos q = limit"
    using q(2) assms(3) by (auto simp: rem_post_def same_frame_def)
  have ret: "result_ok q limit (m + length src) (q, st, r)" if "case r of Inl e \<Rightarrow> e = CorruptData | Inr n \<Rightarrow> n \<le> m + length src" for st r
    using that dec_run_inv [OF run(1)] run(2) by (simp add: result_ok_def)
  define ck where "ck = (limit \<le> p_dic_pos q)"
  show ?thesis
  proof (cases "ck \<and> (p_remain_len q = 0 \<and> p_code q = 0 \<or> mode = Any \<or> p_remain_len q \<noteq> 0)")
    case True
    then have "\<exists>st r. dic_turn mode limit p src m = Some (Return (q, st, r)) \<and> (case r of Inl e \<Rightarrow> e = CorruptData | Inr n \<Rightarrow> n \<le> m + length src)"
      using False q(1) unfolding ck_def by (auto simp: dic_turn_def)
    then obtain st r where x: "dic_turn mode limit p src m = Some (Return (q, st, r))"
        "case r of Inl e \<Rightarrow> e = CorruptData | Inr n \<Rightarrow> n \<le> m + length src" by blast
    have "turn_ok q limit (m + length src) (Return (q, st, r))" using ret [OF x(2)] by (simp add: turn_ok_def)
    from turn_ok_rem [OF this q(2) assms(2)] x(1) show ?thesis by blast
  next
    case go: False
    have r0: "p_remain_len q = 0" using go run(2,4) by (auto simp: ck_def)
    have eq: "dic_turn mode limit p src m =
        (if p_temp_buf_size q = 0 then turn_src q limit ck src m else turn_temp q limit ck src m)"
      using False q(1) go unfolding dic_turn_def ck_def by auto
    have room: "ck \<or> p_dic_pos q < limit" using run(2) by (auto simp: ck_def)
    have "\<exists>t. dic_turn mode limit p src m = Some t \<and> turn_ok q limit (m + length src) t"
      unfolding eq using turn_src_ok [OF run(1) r0 _ run(2,3) room] turn_temp_ok [OF run(1) r0 _ run(2,3) room] by simp
    then show ?thesis using turn_ok_rem [OF _ q(2) assms(2)] by blast
  qed
qed

lemma result_ok_trans:
  assumes "result_ok q limit k r" "same_frame p q" "p_dic_pos p \<le> p_dic_pos q"
  shows "result_ok p limit k r"
  using assms by (auto simp: result_ok_def intro: same_frame_trans)

lemma dic_loop_total:
  assumes "dec_run p" "p_dic_pos p \<le> limit" "limit \<le> p_dic_buf_size p"
  shows "\<exists>r. dic_loop mode limit p src m = Some r \<and> result_ok p limit (m + length src) r"
  using assms
proof (induction "turns_left limit p" arbitrary: p src m rule: less_induct)
  case less
  obtain t where t: "dic_turn mode limit p src m = Some t" "turn_ok p limit (m + length src) t"
    using dic_turn_ok [OF less.prems] by blast
  show ?case
  proof (cases t)
    case (Return r)
    then show ?thesis using t by (subst dic_loop.simps) (simp add: turn_ok_def)
  next
    case (Again q src' n)
    then have q: "dec_run q" "same_frame p q" "p_dic_pos p \<le> p_dic_pos q" "p_dic_pos q \<le> limit"
        "n + length src' = m + length src" "turns_left limit q < turns_left limit p"
      using t(2) by (auto simp: turn_ok_def)
    have "limit \<le> p_dic_buf_size q" using q(2) less.prems(3) by (simp add: same_frame_def)
    from less.hyps [OF q(6,1,4) this, of src' n]
    obtain r where "dic_loop mode limit q src' n = Some r" "result_ok q limit (n + length src') r" by blast
    then show ?thesis
      using t(1) Again result_ok_trans [OF _ q(2,3)] q(5) by (subst dic_loop.simps) auto
  next
    case (Broken q)
    then show ?thesis using t(2) by (simp add: turn_ok_def)
  qed
qed

subsection \<open>The start of the range coder\<close>

lemma fill_init_eq:
  assumes "length (p_temp_buf p) = 20" "p_temp_buf_size p \<le> 5"
  shows "\<exists>t k. fill_init p src n = Some (p\<lparr>p_temp_buf := t, p_temp_buf_size := p_temp_buf_size p + k\<rparr>, drop k src, n + k) \<and>
    length t = 20 \<and> p_temp_buf_size p + k \<le> 5 \<and> k \<le> length src"
  using assms
proof (induction src arbitrary: p n)
  case Nil
  then show ?case by (intro exI [of _ "p_temp_buf p"] exI [of _ 0]) simp
next
  case (Cons b src)
  show ?case
  proof (cases "p_temp_buf_size p < 5")
    case True
    let ?p = "p\<lparr>p_temp_buf := (p_temp_buf p)[p_temp_buf_size p := b], p_temp_buf_size := p_temp_buf_size p + 1\<rparr>"
    obtain t k where "fill_init ?p src (n + 1) = Some (?p\<lparr>p_temp_buf := t, p_temp_buf_size := p_temp_buf_size ?p + k\<rparr>, drop k src, n + 1 + k)"
        "length t = 20" "p_temp_buf_size ?p + k \<le> 5" "k \<le> length src"
      using Cons.IH [of ?p "n + 1"] Cons.prems True by auto
    then show ?thesis
      using True Cons.prems
      by (intro exI [of _ t] exI [of _ "Suc k"]) (simp add: lz_consts set_at_def)
  next
    case False
    then show ?thesis
      using Cons.prems by (intro exI [of _ "p_temp_buf p"] exI [of _ 0]) (simp add: lz_consts)
  qed
qed

lemma start_consts:
  "K_MATCH_SPEC_LEN_START = 274" "K_MATCH_SPEC_LEN_ERROR_DATA = 512" "K_MATCH_SPEC_LEN_ERROR_FAIL = 511"
  by (simp_all add: lz_consts)

lemma reset_state_tables:
  assumes "dec_shape p"
  shows "\<exists>q. reset_state p = Some q \<and> dec_shape q \<and> dec_tables q \<and> same_frame p q \<and> p_dic_pos q = p_dic_pos p \<and>
    p_temp_buf q = p_temp_buf p \<and> p_temp_buf_size q = p_temp_buf_size p \<and> p_range q = p_range p"
proof -
  have "list_all prob_ok (replicate n (ucast (drop_bit 1 K_BIT_MODEL_TOTAL)))" for n
    by (simp add: list_all_length prob_ok_def lz_consts)
  moreover have "1 \<le> p_dic_buf_size p" using assms by (auto simp: dec_shape_def props_ok_def)
  ultimately show ?thesis
    using assms by (simp add: reset_state_def Let_def dec_shape_def dec_tables_def reps_in_def same_frame_def)
qed

definition start_ok :: "lzma_dec \<Rightarrow> nat \<Rightarrow> bytes \<Rightarrow> to_dic_result + lzma_dec \<times> bytes \<times> nat \<Rightarrow> bool" where
  "start_ok p limit src r \<longleftrightarrow> (case r of
     Inl res \<Rightarrow> result_ok p limit (length src) res
   | Inr (q, rest, n) \<Rightarrow> dec_run q \<and> same_frame p q \<and> p_dic_pos q = p_dic_pos p \<and> n \<le> length src \<and> rest = drop n src)"

lemma start_coder_ok:
  assumes "dec_inv p" "p_dic_pos p \<le> limit"
  shows "\<exists>r. start_coder p src = Some r \<and> start_ok p limit src r"
proof (cases "dec_run p")
  case True
  then have "\<not> K_MATCH_SPEC_LEN_START < p_remain_len p"
    by (auto simp: dec_run_def start_consts word_less_nat_alt)
  then show ?thesis using True by (simp add: start_coder_def start_ok_def)
next
  case False
  then have sh: "dec_shape p" using assms(1) by (simp add: dec_inv_def)
  show ?thesis
  proof (cases "p_remain_len p = K_MATCH_SPEC_LEN_ERROR_DATA")
    case True
    then show ?thesis
      using assms by (simp add: start_coder_def start_ok_def result_ok_def start_consts)
  next
    case init: False
    have rem: "p_remain_len p = 276 \<or> p_remain_len p = 275 \<and> dec_tables p" and t5: "p_temp_buf_size p \<le> 5"
      using assms(1) False init by (auto simp: dec_inv_def start_consts)
    have lens: "K_MATCH_SPEC_LEN_START < p_remain_len p" "\<not> K_MATCH_SPEC_LEN_START + 2 < p_remain_len p"
      using rem by (auto simp: start_consts)
    obtain t k where f: "fill_init p src 0 = Some (p\<lparr>p_temp_buf := t, p_temp_buf_size := p_temp_buf_size p + k\<rparr>, drop k src, k)"
        and t: "length t = 20" "p_temp_buf_size p + k \<le> 5" "k \<le> length src"
      using fill_init_eq [OF _ t5, of src 0] sh by (auto simp: dec_shape_def)
    define p1 where "p1 = p\<lparr>p_temp_buf := t, p_temp_buf_size := p_temp_buf_size p + k\<rparr>"
    have f1: "fill_init p src 0 = Some (p1, drop k src, k)" using f by (simp add: p1_def)
    have p1: "length (p_temp_buf p1) = 20" "p_temp_buf_size p1 \<le> 5" "p_remain_len p1 = p_remain_len p"
        "p_dic_pos p1 = p_dic_pos p" "same_frame p p1" "dec_tables p1 = dec_tables p"
      using t by (simp_all add: p1_def same_frame_def dec_tables_def)
    have sh1: "dec_shape p1" using sh t(1) unfolding dec_shape_def p1_def by simp
    define p2 where "p2 = p1\<lparr>p_code := push_bit 24 (ucast (t ! 1)) OR push_bit 16 (ucast (t ! 2)) OR push_bit 8 (ucast (t ! 3)) OR ucast (t ! 4)\<rparr>"
    have p2: "dec_shape p2" "p_remain_len p2 = p_remain_len p" "p_temp_buf_size p2 \<le> 5" "p_dic_pos p2 = p_dic_pos p"
        "same_frame p p2" "dec_tables p2 = dec_tables p"
      using sh1 p1 by (simp_all add: p2_def)
    define p3 where "p3 = p2\<lparr>p_range := 0xFFFFFFFF, p_temp_buf_size := 0\<rparr>"
    have p3: "dec_shape p3" "p_remain_len p3 = p_remain_len p" "p_temp_buf_size p3 = 0" "p_dic_pos p3 = p_dic_pos p"
        "same_frame p p3" "dec_tables p3 = dec_tables p" "p_range p3 = 0xFFFFFFFF"
      using p2 by (simp_all add: p3_def)
    have inv: "dec_inv q" if "dec_shape q" "p_temp_buf_size q \<le> 5" "p_remain_len q = p_remain_len p" "dec_tables q = dec_tables p" for q
      using that rem by (auto simp: dec_inv_def start_consts)
    obtain p4 where p4: "(if K_MATCH_SPEC_LEN_START + 1 < p_remain_len p3 then reset_state p3 else Some p3) = Some p4"
        "dec_shape p4" "dec_tables p4" "same_frame p3 p4" "p_dic_pos p4 = p_dic_pos p3" "p_temp_buf_size p4 = 0" "p_range p4 = 0xFFFFFFFF"
      using reset_state_tables [OF p3(1)] rem p3 by (auto simp: start_consts)
    have run: "dec_run (p4\<lparr>p_remain_len := 0\<rparr>)"
      using p4(2,3,6,7) by (simp add: dec_run_def temp_waits_def)
    have ok3: "start_ok p limit src (Inr (p4\<lparr>p_remain_len := 0\<rparr>, drop k src, k))"
      using run p4(4,5) p3(4,5) t(3) by (simp add: start_ok_def same_frame_def)
    have ok1: "result_ok p limit (length src) (p1, st, r)" if "case r of Inl e \<Rightarrow> e = CorruptData | Inr n \<Rightarrow> n \<le> length src" for st r
      using inv [OF sh1 p1(2,3,6)] p1 assms(2) that by (simp add: result_ok_def)
    have ok2: "result_ok p limit (length src) (p2, NotSpecified, Inl CorruptData)"
      using inv [OF p2(1,3,2,6)] p2 assms(2) by (simp add: result_ok_def)
    have "start_coder p src =
        (if p_temp_buf_size p1 \<noteq> 0 \<and> t ! 0 \<noteq> 0 then Some (Inl (p1, NotSpecified, Inl CorruptData))
         else if p_temp_buf_size p1 < 5 then Some (Inl (p1, NeedsMoreInput, Inr k))
         else if p_check_dic_size p2 = 0 \<and> p_processed_pos p2 = 0 \<and> K_BAD_REP_CODE \<le> p_code p2
         then Some (Inl (p2, NotSpecified, Inl CorruptData))
         else Some (Inr (p4\<lparr>p_remain_len := 0\<rparr>, drop k src, k)))"
    proof -
      have g: "get_at (p_temp_buf p1) 0 = Some (t ! 0)" "get_at (p_temp_buf p1) 1 = Some (t ! 1)"
          "get_at (p_temp_buf p1) 2 = Some (t ! 2)" "get_at (p_temp_buf p1) 3 = Some (t ! 3)" "get_at (p_temp_buf p1) 4 = Some (t ! 4)"
        using t(1) by (simp_all add: p1_def get_at_def)
      show ?thesis
        unfolding start_coder_def f1 bind.bind_lunit prod.case Let_def g p2_def [symmetric] p3_def [symmetric] p4(1) RC_INIT_SIZE_def
        using lens by simp
    qed
    then show ?thesis
      using ok1 ok2 ok3 t(3) by (auto simp: start_ok_def)
  qed
qed

lemma decode_to_dic_ok:
  assumes "dec_inv p" "p_dic_pos p \<le> limit" "limit \<le> p_dic_buf_size p"
  shows "\<exists>r. lzma_dec_decode_to_dic p limit src mode = Some r \<and> result_ok p limit (length src) r"
proof -
  obtain r where r: "start_coder p src = Some r" "start_ok p limit src r"
    using start_coder_ok [OF assms(1,2)] by blast
  show ?thesis
  proof (cases r)
    case (Inl res)
    then show ?thesis using r by (simp add: lzma_dec_decode_to_dic_def start_ok_def)
  next
    case (Inr x)
    then obtain q n where x: "x = (q, drop n src, n)" "dec_run q" "same_frame p q" "p_dic_pos q = p_dic_pos p" "n \<le> length src"
      using r(2) by (cases x) (auto simp: start_ok_def)
    have "limit \<le> p_dic_buf_size q" using x(3) assms(3) by (simp add: same_frame_def)
    then obtain res where "dic_loop mode limit q (drop n src) n = Some res" "result_ok q limit (n + length (drop n src)) res"
      using dic_loop_total [OF x(2)] x(4) assms(2) by metis
    then show ?thesis
      using r(1) Inr x result_ok_trans [of q limit "length src" res p] by (auto simp: lzma_dec_decode_to_dic_def)
  qed
qed

subsection \<open>\<open>LzmaDecoder\<close>\<close>

lemma dec_init_inv:
  assumes "props_ok (p_prop p)" "length (p_probs p) = lzma_props_get_num_probs (lc (p_prop p)) (lp (p_prop p))"
    and "length (p_dic p) = p_dic_buf_size p" "unat (dict_size (p_prop p)) \<le> p_dic_buf_size p" "p_dic_buf_size p < 2 ^ 63"
    and "length (p_temp_buf p) = 20"
  shows "dec_inv (dec_init p)"
  using assms
  by (auto simp: dec_inv_def dec_init_def init_dic_and_state_def Let_def dec_shape_def start_consts props_ok_def)

lemma dec_new_inv:
  assumes "dec_new alloc_ok props = Inr p" "props_ok props"
  shows "dec_inv p" "p_prop p = props" "p_dic_buf_size p = dic_buf_size props" "p_dic_pos p = 0"
proof -
  have b: "unat (dict_size props) \<le> dic_buf_size props" "dic_buf_size props < 2 ^ 63"
    using dic_buf_size_bounds [of props] unat_u32_lt [of "dict_size props"] by (simp_all del: unat_u32_lt)
  show "dec_inv p"
    using assms b unfolding dec_new_def dec_alloc_def Let_def
    by (auto split: if_splits intro!: dec_init_inv simp: LZMA_REQUIRED_INPUT_MAX_def)
  show "p_prop p = props" "p_dic_buf_size p = dic_buf_size props" "p_dic_pos p = 0"
    using assms by (auto simp: dec_new_def dec_alloc_def Let_def dec_init_def init_dic_and_state_def split: if_splits)
qed

lemma dec_inv_shape: "dec_inv p \<Longrightarrow> dec_shape p"
  by (auto simp: dec_inv_def dec_run_def)

lemma reset_inv: "dec_inv p \<Longrightarrow> dec_inv (lzma_decoder_reset p)"
  unfolding lzma_decoder_reset_def using dec_inv_shape [of p]
  by (intro dec_init_inv) (auto simp: dec_shape_def)

text \<open>The decoder may go on at the start of the ring when it stands at its end.\<close>

lemma dec_ctx_wrap:
  assumes "dec_shape p" "dec_tables p" "p_dic_pos p = p_dic_buf_size p"
  shows "dec_ctx (p\<lparr>p_dic_pos := 0\<rparr>) = dec_ctx p"
proof -
  obtain r0 r1 r2 r3 where r: "p_reps p = (r0, r1, r2, r3)" by (cases "p_reps p")
  have "dic_back (p_dic_buf_size p) 0 r0 = dic_back (p_dic_buf_size p) (p_dic_buf_size p) r0"
    using assms(1,2) by (auto simp: dic_back_def r dec_tables_def reps_in_def dec_shape_def add.commute [of _ "p_dic_buf_size p"])
  moreover have "p_dic_buf_size p \<noteq> 0" using assms(1) by (auto simp: dec_shape_def props_ok_def)
  ultimately show ?thesis
    using assms(3) by (simp add: dec_ctx_def sym_ctx_def real_env_def real_locals_def r)
qed

lemma wrap_inv:
  assumes "dec_inv p" "p_dic_pos p = p_dic_buf_size p"
  shows "dec_inv (p\<lparr>p_dic_pos := 0\<rparr>)"
proof -
  let ?q = "p\<lparr>p_dic_pos := 0\<rparr>"
  have sh: "dec_shape ?q" using dec_inv_shape [OF assms(1)] by (simp add: dec_shape_def)
  have "dec_tables ?q = dec_tables p" "dec_rc ?q = dec_rc p" by (simp_all add: dec_tables_def dec_rc_def)
  then show ?thesis
    using assms sh dec_ctx_wrap [OF _ _ assms(2)] by (auto simp: dec_inv_def dec_run_def temp_waits_def)
qed

definition decode_ok :: "lzma_dec \<Rightarrow> nat \<Rightarrow> nat \<Rightarrow> lzma_dec \<times> (lzma_error + bytes \<times> progress) \<Rightarrow> bool" where
  "decode_ok p tot room = (\<lambda>(q, r). dec_inv q \<and> same_frame p q \<and>
     (case r of Inl e \<Rightarrow> e = CorruptData
      | Inr (out, pr) \<Rightarrow> pr_read pr \<le> tot \<and> pr_written pr = length out \<and> length out \<le> room))"

lemma decode_loop_total:
  assumes "dec_inv p"
  shows "\<exists>r. decode_loop finish p src pos room out = Some r \<and> decode_ok p (pos + length src) (length out + room) r"
  using assms
proof (induction room arbitrary: p src pos out rule: less_induct)
  case (less room)
  define p1 where "p1 = (if p_dic_pos p = p_dic_buf_size p then p\<lparr>p_dic_pos := 0\<rparr> else p)"
  define lim where "lim = (if p_dic_buf_size p1 - p_dic_pos p1 < room then (p_dic_buf_size p1, Any) else (p_dic_pos p1 + room, finish))"
  have inv: "dec_inv p1" using less.prems wrap_inv by (simp add: p1_def)
  have frame: "same_frame p p1" by (simp add: p1_def same_frame_def)
  have pos: "p_dic_pos p1 \<le> p_dic_buf_size p1" using dec_inv_shape [OF inv] by (simp add: dec_shape_def)
  then have l: "p_dic_pos p1 \<le> fst lim" "fst lim \<le> p_dic_buf_size p1" "fst lim \<le> p_dic_pos p1 + room"
    by (auto simp: lim_def)
  obtain q st r where q: "lzma_dec_decode_to_dic p1 (fst lim) src (snd lim) = Some (q, st, r)" "result_ok p1 (fst lim) (length src) (q, st, r)"
    using decode_to_dic_ok [OF inv l(1,2), of src "snd lim"] by auto
  have qq: "dec_inv q" "same_frame p q" "p_dic_pos p1 \<le> p_dic_pos q" "p_dic_pos q \<le> fst lim"
      "case r of Inl e \<Rightarrow> e = CorruptData | Inr n \<Rightarrow> n \<le> length src"
    using q(2) same_frame_trans [OF frame] by (auto simp: result_ok_def)
  have step: "decode_loop finish p src pos room out = (case r of Inl e \<Rightarrow> Some (q, Inl e) | Inr n \<Rightarrow>
         if length src < n \<or> p_dic_pos q < p_dic_pos p1 then None
         else (case slice (p_dic q) (p_dic_pos p1) (p_dic_pos q) of
           None \<Rightarrow> None
         | Some part \<Rightarrow>
             let cur = p_dic_pos q - p_dic_pos p1 in
             if room < cur then None
             else if cur = 0 \<or> room - cur = 0
             then Some (q, Inr (out @ part, \<lparr>pr_read = pos + n, pr_written = length out + cur, pr_status = st\<rparr>))
             else decode_loop finish q (drop n src) (pos + n) (room - cur) (out @ part)))"
    apply (subst decode_loop.simps)
    unfolding p1_def [symmetric] Let_def lim_def [symmetric]
    using q(1) by (cases lim) (auto split: sum.splits)
  show ?case
  proof (cases r)
    case (Inl e)
    then show ?thesis using step qq by (simp add: decode_ok_def)
  next
    case (Inr n)
    define part where "part = take (p_dic_pos q - p_dic_pos p1) (drop (p_dic_pos p1) (p_dic q))"
    have len: "p_dic_pos q \<le> length (p_dic q)" using dec_inv_shape [OF qq(1)] by (simp add: dec_shape_def)
    have sl: "slice (p_dic q) (p_dic_pos p1) (p_dic_pos q) = Some part"
      using len qq(3) by (simp add: slice_def part_def)
    have pl: "length part = p_dic_pos q - p_dic_pos p1" using len by (simp add: part_def)
    have n: "n \<le> length src" using qq(5) Inr by simp
    have cl: "length part \<le> room" using pl l(3) qq(3,4) by linarith
    note step = step [unfolded Inr sum.case sl option.case Let_def pl [symmetric]]
    show ?thesis
    proof (cases "length part = 0 \<or> room - length part = 0")
      case True
      then show ?thesis
        using step n qq(1,2,3) cl by (auto simp: decode_ok_def)
    next
      case False
      have lt: "room - length part < room" using False by auto
      obtain r' where r': "decode_loop finish q (drop n src) (pos + n) (room - length part) (out @ part) = Some r'"
          "decode_ok q (pos + n + length (drop n src)) (length (out @ part) + (room - length part)) r'"
        using less.IH [OF lt qq(1), of "drop n src" "pos + n" "out @ part"] by blast
      have e: "pos + n + length (drop n src) = pos + length src"
          "length (out @ part) + (room - length part) = length out + room" using n cl by simp_all
      have "decode_ok p (pos + length src) (length out + room) r'"
        using r'(2) same_frame_trans [OF qq(2)] unfolding e by (auto simp: decode_ok_def)
      then show ?thesis
        using step n qq(3) cl False r'(1) by auto
    qed
  qed
qed

end
