(* ===== verification/LzmaProps.thy ===== *)
theory LzmaProps
  imports LzmaTotal
begin

text \<open>
  The properties of the LZMA decoder core: parsing of the properties byte, the branch-free bit
  decoder against the branching one, the fast loop against the decision tree of a symbol and against
  the abstract decoder over a history, its totality and its input margin, the agreement of the dry
  run \<open>lzma_dec_try_dummy\<close> with the real one, and the totality of the decoder's public functions.
\<close>

subsection \<open>A decoder to evaluate the properties on\<close>

text \<open>The smallest decoder the constructors accept, just after its range coder has started.\<close>

definition sample_props :: lzma_props where
  "sample_props = \<lparr>lc = 0, lp = 0, pb = 0, dict_size = 4096\<rparr>"

definition sample_dec :: lzma_dec where
  "sample_dec =
     \<lparr>p_prop = sample_props, p_probs = replicate 2752 1024, p_dic = replicate 4096 0, p_dic_buf_size = 4096,
      p_dic_pos = 0, p_range = 0xFFFFFFFF, p_code = 0, p_processed_pos = 0, p_check_dic_size = 0,
      p_reps = (1, 1, 1, 1), p_state = 0, p_remain_len = 0, p_temp_buf_size = 0,
      p_temp_buf = replicate 20 0, p_force_portable = False\<rparr>"

definition sample_env :: lzenv where "sample_env = real_env sample_dec 100 (replicate 64 0) 44"
definition sample_lz :: lz where "sample_lz = real_locals sample_dec 0"

lemma sample_probs_ok [simp]: "probs_ok (replicate n 1024)"
  by (simp add: list_all_length prob_ok_def)

lemma sample_lz_inv: "lz_inv sample_env 4096 sample_lz"
  by (simp add: lz_inv_def lz_ok_def dist_ok_def env_ok_def rep_ok_def sample_env_def sample_lz_def real_env_def
      real_locals_def sample_dec_def sample_props_def lz_consts)
     (rule exI [of _ 0], simp, rule exI [of _ 0], simp)

lemma sample_margin: "margin (e_inp sample_env) (l_rc sample_lz)"
  by (simp add: margin_def rc_norm_def sample_env_def sample_lz_def real_env_def real_locals_def sample_dec_def)

subsection \<open>Properties byte and dictionary size\<close>

text \<open>C31: Parsing inverts the properties byte: for every triple in range the byte
  \<open>(pb * 5 + lp) * 9 + lc\<close> parses back to the triple, with the dictionary size raised to the minimum,
  and conversely whatever parses is in range; a byte from 225 on is refused.\<close>
theorem props_byte_roundtrip:
  "(\<forall>lc_v < 9. \<forall>lp_v < 5. \<forall>pb_v < 5. props_parse [of_nat ((pb_v * 5 + lp_v) * 9 + lc_v), a, b, c, d] =
      Some (Inr \<lparr>lc = of_nat lc_v, lp = of_nat lp_v, pb = of_nat pb_v,
                 dict_size = max (u32_from_le_bytes a b c d) LZMA_DIC_MIN\<rparr>)) \<and>
   (\<forall>bs props. props_parse bs = Some (Inr props) \<longrightarrow> props_ok props) \<and>
   (\<forall>x. 225 \<le> x \<longrightarrow> props_parse [x, a, b, c, d] = Some (Inl UnsupportedProps))"
  by (intro conjI allI impI props_parse_byte props_parse_ok) (assumption | simp add: props_parse_def get_at_def Let_def)+

theorem props_byte_roundtrip_witness:
  "props_parse [93, 0, 0, 1, 0] = Some (Inr \<lparr>lc = 3, lp = 0, pb = 2, dict_size = 65536\<rparr>)"
proof -
  have "props_parse [of_nat ((2 * 5 + 0) * 9 + 3), 0, 0, 1, 0] =
      Some (Inr \<lparr>lc = of_nat 3, lp = of_nat 0, pb = of_nat 2,
                 dict_size = max (u32_from_le_bytes 0 0 1 0) LZMA_DIC_MIN\<rparr>)"
    by (rule props_byte_roundtrip [of 0 0 1 0, THEN conjunct1, rule_format]) simp_all
  then show ?thesis by (simp add: u32_from_le_bytes_def lz_consts)
qed


subsection \<open>The branch-free bit decoder\<close>

text \<open>C25: The branch-free tree decoder, which updates probabilities through a mask and prefetches both
  children, decodes exactly what the branching coder decodes along the tree, table and coder
  included, on every table whose entries the updates can produce; and it fails only where that one
  runs out of input.\<close>
theorem tree_decode_branching:
  assumes "probs_ok probs" "base + 2 ^ n \<le> length probs" "0 < n" "n \<le> 31"
  shows "tree_decode n inp probs base s =
    map_option (\<lambda>(x, probs', s'). (probs', x, s')) (bp_run inp (tree_prog n base 1) probs s)"
  using assms by (rule tree_decode_eq)

theorem tree_decode_branching_witness:
  "map_option (\<lambda>(_, x, _). x) (tree_decode 3 [7, 7] (replicate 8 1024) 0
     \<lparr>rc_range = 0xFFFFFFFF, rc_code = 0x90000000, rc_buf = 0\<rparr>) = Some 12"
proof -
  let ?s = "\<lparr>rc_range = 0xFFFFFFFF, rc_code = 0x90000000, rc_buf = 0\<rparr>"
  have "tree_decode 3 [7, 7] (replicate 8 1024) 0 ?s =
    map_option (\<lambda>(x, probs', s'). (probs', x, s')) (bp_run [7, 7] (tree_prog 3 0 1) (replicate 8 1024) ?s)"
    by (rule tree_decode_branching) simp_all
  then show ?thesis by (simp only:) code_simp
qed

lemma bound_nat:
  assumes "rc_norm s" "prob_ok p"
  shows "unat (drop_bit K_NUM_BIT_MODEL_TOTAL_BITS (rc_range s) * ucast p) = unat (rc_range s) div 2048 * unat p"
proof -
  have "unat (drop_bit 11 (rc_range s)) = unat (rc_range s) div 2048"
    using unat_drop_bit [of 11 "rc_range s"] by simp
  moreover have "unat (rc_range s) div 2048 * unat p \<le> unat (rc_range s) div 2048 * 2048"
    using assms(2) by (intro mult_le_mono2) (simp add: prob_ok_def)
  from le_trans [OF this div_times_less_eq_dividend] have "unat (rc_range s) div 2048 * unat p < 2 ^ 32"
    using le_less_trans [OF _ unat_u32_lt] by simp
  ultimately show ?thesis by (simp add: unat_word_ariths lz_consts)
qed

text \<open>C26: From a normalized coder both updates of a flag, for a 0 and for a 1, keep every probability
  between 31 and 2017 and leave at least the share \<open>31 * 8191 / 2 ^ 24\<close> of the range, so that one byte
  of normalization restores it: the coder never degenerates.\<close>
theorem bit_step_bounds:
  assumes "rc_norm s" "probs_ok probs" "i < length probs"
  defines "ttt \<equiv> ucast (probs ! i)"
  defines "bound \<equiv> drop_bit K_NUM_BIT_MODEL_TOTAL_BITS (rc_range s) * ttt"
  shows "\<exists>probs0 s0 probs1 s1. update_0 probs i bound ttt s = Some (probs0, s0) \<and> update_1 probs i bound ttt s = Some (probs1, s1) \<and>
    probs_ok probs0 \<and> probs_ok probs1 \<and> rc_live s0 \<and> rc_live s1 \<and>
    unat (rc_range s) * (31 * 8191) \<le> unat (rc_range s0) * 2 ^ 24 \<and>
    unat (rc_range s) * (31 * 8191) \<le> unat (rc_range s1) * 2 ^ 24"
proof -
  let ?p = "probs ! i"
  have p: "prob_ok ?p" using assms(2,3) by (simp add: list_all_length)
  have b: "0 < bound"
    using bound_nat [OF assms(1) p] assms(1) p unfolding bound_def ttt_def
    by (simp add: word_less_nat_alt rc_norm_def prob_ok_def div_greater_zero_iff)
  have n: "rc_norm (s\<lparr>rc_code := c\<rparr>)" for c using assms(1) by (simp add: rc_norm_def)
  have r0: "rc_bit (s\<lparr>rc_code := 0\<rparr>) ?p = (False, s\<lparr>rc_code := 0, rc_range := bound\<rparr>)"
    using b by (simp add: rc_bit_def Let_def bound_def ttt_def)
  have r1: "rc_bit (s\<lparr>rc_code := - 1\<rparr>) ?p = (True, s\<lparr>rc_code := - 1 - bound, rc_range := rc_range s - bound\<rparr>)"
    by (simp add: rc_bit_def Let_def bound_def ttt_def word_n1_ge not_less)
  have "update_0 probs i bound ttt s = Some (probs[i := prob_update ?p False], s\<lparr>rc_range := bound\<rparr>)"
    "update_1 probs i bound ttt s = Some (probs[i := prob_update ?p True], s\<lparr>rc_range := rc_range s - bound, rc_code := rc_code s - bound\<rparr>)"
    using assms(3) by (simp_all add: update_0_def update_1_def set_at_def prob_update_def ttt_def Let_def)
  then show ?thesis
    using rc_bit_range [OF n p r0] rc_bit_range [OF n p r1] assms(2,3) by (simp add: rc_live_def)
qed

theorem bit_step_bounds_witness:
  "\<exists>probs0 s0. update_0 [31] 0 (drop_bit K_NUM_BIT_MODEL_TOTAL_BITS 0x1000000 * ucast (31 :: u16)) (ucast (31 :: u16))
      \<lparr>rc_range = 0x1000000, rc_code = 0, rc_buf = 0\<rparr> = Some (probs0, s0) \<and> rc_live s0"
  using bit_step_bounds [of "\<lparr>rc_range = 0x1000000, rc_code = 0, rc_buf = 0\<rparr>" "[31]" 0]
  by (auto simp: rc_norm_def prob_ok_def)

lemma sample_dec_run: "dec_run sample_dec"
  by (simp add: dec_run_def dec_shape_def dec_tables_def reps_in_def temp_waits_def props_ok_def sample_dec_def
      sample_props_def lzma_props_get_num_probs_def lz_consts)

lemma sample_dec_pos: "p_dic_pos sample_dec = 0" "p_dic_buf_size sample_dec = 4096" "p_prop sample_dec = sample_props"
  by (simp_all add: sample_dec_def)

subsection \<open>One symbol\<close>

text \<open>C24: From a normalized coder, twenty bytes always hold a whole symbol with its last
  normalization: the decision tree never reads further, whatever the bytes and the probabilities.\<close>
theorem symbol_margin:
  assumes "ctx_ok (length probs) c" "probs_ok probs" "rc_norm s" "rc_buf s + 20 \<le> length inp"
  shows "\<exists>sy probs' s1 s2. next_symbol c probs s inp = Some (sy, probs', s1, s2) \<and> rc_norm s2 \<and>
    rc_buf s \<le> rc_buf s2 \<and> rc_buf s2 \<le> rc_buf s + LZMA_REQUIRED_INPUT_MAX"
proof -
  obtain sy probs' s1 s2 where x: "next_symbol c probs s inp = Some (sy, probs', s1, s2)"
    using next_symbol_total [OF assms] by blast
  from next_symbol_bounds [OF this assms(1-3)] x show ?thesis by (auto simp: LZMA_REQUIRED_INPUT_MAX_def)
qed

theorem symbol_margin_witness:
  "\<exists>sy probs' s1 s2. next_symbol (dec_ctx sample_dec) (replicate 2752 1024) (dec_rc sample_dec) (replicate 20 0) = Some (sy, probs', s1, s2) \<and>
     rc_buf s2 \<le> 20"
proof -
  have "ctx_ok (length (replicate 2752 1024)) (dec_ctx sample_dec)"
    using dec_ctx_ok [of sample_dec] sample_dec_run by (simp add: dec_run_def sample_dec_def)
  from symbol_margin [OF this sample_probs_ok, of "dec_rc sample_dec" "replicate 20 0"]
  show ?thesis by (fastforce simp: rc_norm_def dec_rc_def sample_dec_def LZMA_REQUIRED_INPUT_MAX_def)
qed

text \<open>C5: One turn of the fast loop is one run of the symbol's decision tree followed by what the
  symbol does: the inlined branches of the source, literals, matches, repeats and the far distances
  with their direct and align bits, decode the same symbol, leave the same table and coder, and fault
  exactly where the tree runs out of input.\<close>
theorem loop_body_is_tree:
  assumes "lz_ok env l"
  shows "decode_real_body env l =
    run_then (e_inp env) (symbol_prog (sym_ctx env l)) (l_probs l) (l_rc l)
      (\<lambda>sy probs s. apply_symbol env sy (l\<lparr>l_probs := probs, l_rc := s\<rparr>))"
  using assms by (rule decode_real_body_eq)

theorem loop_body_is_tree_witness:
  "decode_real_body sample_env sample_lz =
    run_then (replicate 64 0) (symbol_prog (sym_ctx sample_env sample_lz)) (replicate 2752 1024) (l_rc sample_lz)
      (\<lambda>sy probs s. apply_symbol sample_env sy (sample_lz\<lparr>l_probs := probs, l_rc := s\<rparr>))"
proof -
  have "lz_ok sample_env sample_lz" using sample_lz_inv by (simp add: lz_inv_def)
  from loop_body_is_tree [OF this] show ?thesis
    by (simp add: sample_env_def sample_lz_def sample_dec_def)
qed

text \<open>C3: With the margin its callers keep, the fast loop never faults and always ends: it keeps the
  decoder's invariant, leaves the coder normalizable, and what it put into the dictionary is a run of
  the abstract decoder, which knows only the history, the four distances, the state and the position.\<close>
theorem fast_loop_total:
  assumes "lz_inv env D l" "l_len l = 0" "l_dic_pos l < e_limit env" "margin (e_inp env) (l_rc l)"
    and "e_buf_limit env + LZMA_REQUIRED_INPUT_MAX \<le> length (e_inp env)"
  shows "\<exists>l'. decode_real_loop env l = Some l' \<and> exit_ok env D l' \<and> (\<exists>s. normalize (e_inp env) (l_rc l') = Some s) \<and>
    (\<exists>\<sigma> probs s. decodes env (e_limit env - l_dic_pos l) (lz_abs l) (l_probs l) (l_rc l)
        (e_limit env - l_dic_pos l') \<sigma> probs s \<and> s_win \<sigma> = window (l_dic l') (l_dic_pos l'))"
  using decode_real_loop_total [OF assms(1-4)] assms(5) unfolding loop_post_def LZMA_REQUIRED_INPUT_MAX_def by blast

theorem fast_loop_total_witness:
  "\<exists>l'. decode_real_loop sample_env sample_lz = Some l' \<and> exit_ok sample_env 4096 l'"
  using fast_loop_total [OF sample_lz_inv _ _ sample_margin]
  by (auto simp: sample_env_def sample_lz_def sample_dec_def LZMA_REQUIRED_INPUT_MAX_def)

text \<open>C4: The dry run and the real decoder agree on every input: where the dry run finds a symbol of
  \<open>n\<close> bytes the real decoder takes exactly those, and where it reports the end of input the real one
  would read past the buffer.\<close>
theorem dummy_predicts:
  assumes "dec_shape p" "dec_tables p" "p_dic_pos p < limit" "limit \<le> p_dic_buf_size p" "2 ^ 24 \<le> unat (p_range p)"
  shows "\<exists>kind n. lzma_dec_try_dummy p buf = Some (kind, n) \<and>
    (if kind = InputEof then lzma_dec_decode_real2 p limit buf 0 = None
     else \<exists>q ok. lzma_dec_decode_real2 p limit buf 0 = Some (q, n, ok))"
proof (rule try_dummy_cases [OF assms(1,2), of buf])
  fix pos assume "next_symbol (dec_ctx p) (p_probs p) (dec_rc p) buf = None" "lzma_dec_try_dummy p buf = Some (InputEof, pos)"
  then show ?thesis using real2_eof [OF assms] by simp
next
  fix sy probs' s1 s2
  assume x: "next_symbol (dec_ctx p) (p_probs p) (dec_rc p) buf = Some (sy, probs', s1, s2)"
    "lzma_dec_try_dummy p buf = Some (sym_kind sy, rc_buf s2)"
  from real2_once [OF assms(1,2) _ assms(4,5) x(1)] assms(3) x(2) show ?thesis by fastforce
qed

theorem dummy_predicts_witness:
  "\<exists>kind n. lzma_dec_try_dummy sample_dec [1, 2] = Some (kind, n) \<and>
    (if kind = InputEof then lzma_dec_decode_real2 sample_dec 10 [1, 2] 0 = None
     else \<exists>q ok. lzma_dec_decode_real2 sample_dec 10 [1, 2] 0 = Some (q, n, ok))"
proof -
  have "dec_shape sample_dec" "dec_tables sample_dec" using sample_dec_run by (auto simp: dec_run_def)
  from dummy_predicts [OF this, of 10 "[1, 2]"] show ?thesis by (simp add: sample_dec_def)
qed

subsection \<open>The whole decoder\<close>

text \<open>C1: \<open>LzmaDec_DecodeToDic\<close> is total: on a decoder in its invariant, which a decoder that stopped
  for want of input or on an error still satisfies, it returns for every input and limit, reads at
  most its input, writes the dictionary between the old and the new position only up to the limit,
  and reports no error but corrupt data: the internal-failure paths of the source are unreachable.\<close>
theorem decode_to_dic_total:
  assumes "dec_inv p" "p_dic_pos p \<le> limit" "limit \<le> p_dic_buf_size p"
  shows "\<exists>q st r. lzma_dec_decode_to_dic p limit src mode = Some (q, st, r) \<and> dec_inv q \<and>
    p_dic_pos p \<le> p_dic_pos q \<and> p_dic_pos q \<le> limit \<and> p_dic_buf_size q = p_dic_buf_size p \<and> p_prop q = p_prop p \<and>
    (case r of Inl e \<Rightarrow> e = CorruptData | Inr n \<Rightarrow> n \<le> length src)"
  using decode_to_dic_ok [OF assms, of src mode] by (auto simp: result_ok_def same_frame_def)

theorem decode_to_dic_total_witness:
  "\<exists>q st r. lzma_dec_decode_to_dic sample_dec 100 (replicate 7 0) Any = Some (q, st, r) \<and> dec_inv q"
  using decode_to_dic_total [OF dec_run_inv [OF sample_dec_run], of 100 "replicate 7 0" Any] by (auto simp: sample_dec_pos)

text \<open>C2: A decoder made by \<open>LzmaDecoder::new\<close> from any properties in range, reset or not, decodes any
  input into any output room: \<open>decode\<close> returns, the decoder stays usable for the next call, the bytes
  written fit the room and their number is the one reported, and an error is corrupt data.\<close>
theorem decoder_total:
  assumes "lzma_decoder_new alloc_ok props = Inr p0" "props_ok props"
  shows "dec_inv p0 \<and>
    (\<forall>p. dec_inv p \<longrightarrow> dec_inv (lzma_decoder_reset p) \<and>
      (\<exists>q r. lzma_decoder_decode p input room finish = Some (q, r) \<and> dec_inv q \<and>
        (case r of Inl e \<Rightarrow> e = CorruptData
         | Inr (out, pr) \<Rightarrow> pr_read pr \<le> length input \<and> pr_written pr = length out \<and> length out \<le> room)))"
proof (intro conjI allI impI)
  show "dec_inv p0" using assms by (simp add: lzma_decoder_new_def dec_new_inv)
next
  fix p assume p: "dec_inv p"
  then show "dec_inv (lzma_decoder_reset p)" by (rule reset_inv)
  from decode_loop_total [OF p, of finish input 0 room "[]"]
  show "\<exists>q r. lzma_decoder_decode p input room finish = Some (q, r) \<and> dec_inv q \<and>
        (case r of Inl e \<Rightarrow> e = CorruptData
         | Inr (out, pr) \<Rightarrow> pr_read pr \<le> length input \<and> pr_written pr = length out \<and> length out \<le> room)"
    by (auto simp: lzma_decoder_decode_def decode_ok_def)
qed

theorem decoder_total_witness:
  "\<exists>p q r. lzma_decoder_new (\<lambda>_. True) sample_props = Inr p \<and>
     lzma_decoder_decode p [0, 0, 0, 0, 0, 0, 0] 100 Any = Some (q, r) \<and> dec_inv q"
proof -
  obtain p where p: "lzma_decoder_new (\<lambda>_. True) sample_props = Inr p"
    by (auto simp: lzma_decoder_new_def dec_new_def dec_alloc_def Let_def)
  moreover have "props_ok sample_props" by (simp add: props_ok_def sample_props_def)
  ultimately show ?thesis using decoder_total [of "\<lambda>_. True" sample_props p "[0, 0, 0, 0, 0, 0, 0]" 100 Any] by blast
qed

text \<open>C30: Corruption is final: once \<open>LzmaDec_DecodeToDic\<close> has reported it in the error state, every
  further call reports it again without touching the decoder, until \<open>reset\<close>.\<close>
theorem corruption_sticks:
  assumes "p_remain_len p = K_MATCH_SPEC_LEN_ERROR_DATA"
  shows "lzma_dec_decode_to_dic p limit src mode = Some (p, NotSpecified, Inl CorruptData) \<and>
    p_remain_len (lzma_decoder_reset p) = K_MATCH_SPEC_LEN_START + 2"
  using assms by (simp add: lzma_dec_decode_to_dic_def start_coder_def lzma_decoder_reset_def dec_init_def
      init_dic_and_state_def start_consts)

theorem corruption_sticks_witness:
  "lzma_dec_decode_to_dic (sample_dec\<lparr>p_remain_len := K_MATCH_SPEC_LEN_ERROR_DATA\<rparr>) 5 [1, 2, 3] Any =
     Some (sample_dec\<lparr>p_remain_len := K_MATCH_SPEC_LEN_ERROR_DATA\<rparr>, NotSpecified, Inl CorruptData)"
  using corruption_sticks [of "sample_dec\<lparr>p_remain_len := K_MATCH_SPEC_LEN_ERROR_DATA\<rparr>"] by simp

end
