(* ===== verification/RangeEnc.thy ===== *)
theory RangeEnc
  imports RangeDec Errors
begin

text \<open>
  The range encoder of \<open>src/src/enc/range_enc.rs\<close> with the length coder of \<open>src/src/enc/price.rs\<close>
  and the output interface of \<open>src/src/enc/stream.rs\<close>. A sink is a state \<open>'o\<close> with its \<open>write\<close>
  (\<open>SeqOutStream\<close>), a parameter of every function that may flush; the encoder's state goes with it
  as a pair. Byte counters are naturals. What a sink promises is the locale \<open>seq_out\<close>, interpreted
  on \<open>Vec<u8>\<close>.
\<close>

subsection \<open>State and output\<close>

definition RC_BUF_SIZE :: nat where "RC_BUF_SIZE = 2 ^ 16"
definition K_PROB_INIT_VALUE :: u16 where "K_PROB_INIT_VALUE = ucast (drop_bit 1 K_BIT_MODEL_TOTAL)"

record rcenc =
  re_range :: u32
  re_cache :: u32
  re_low :: u64
  re_cache_size :: nat
  re_buf :: bytes
  re_processed :: nat
  re_res :: "lzma_error option"

type_synonym 'o sink = "bytes \<Rightarrow> 'o \<Rightarrow> lzma_error option \<times> 'o"

definition rcenc_new :: "(nat \<Rightarrow> bool) \<Rightarrow> lzma_error + rcenc" where
  "rcenc_new alloc_ok =
     (if alloc_ok RC_BUF_SIZE
      then Inr \<lparr>re_range = 0xFFFFFFFF, re_cache = 0, re_low = 0, re_cache_size = 0, re_buf = [], re_processed = 0,
                re_res = None\<rparr>
      else Inl Alloc)"

definition rcenc_init :: "rcenc \<Rightarrow> rcenc" where
  "rcenc_init e = e\<lparr>re_range := 0xFFFFFFFF, re_cache := 0, re_low := 0, re_cache_size := 0, re_buf := [],
     re_processed := 0, re_res := None\<rparr>"

definition get_processed :: "rcenc \<Rightarrow> nat" where
  "get_processed e = re_processed e + length (re_buf e) + re_cache_size e"

definition flush_stream :: "'o sink \<Rightarrow> rcenc \<times> 'o \<Rightarrow> rcenc \<times> 'o" where
  "flush_stream wr = (\<lambda>(e, out).
     let num = length (re_buf e);
         (e, out) = (if re_res e = None
           then (case wr (re_buf e) out of (None, out) \<Rightarrow> (e, out) | (Some err, out) \<Rightarrow> (e\<lparr>re_res := Some err\<rparr>, out))
           else (e, out))
     in (e\<lparr>re_processed := re_processed e + num, re_buf := []\<rparr>, out))"

definition rc_push :: "'o sink \<Rightarrow> u8 \<Rightarrow> rcenc \<times> 'o \<Rightarrow> rcenc \<times> 'o" where
  "rc_push wr byte = (\<lambda>(e, out).
     let e = e\<lparr>re_buf := re_buf e @ [byte]\<rparr>
     in if length (re_buf e) = RC_BUF_SIZE then flush_stream wr (e, out) else (e, out))"

text \<open>The loop that releases the pending bytes; it is entered with \<open>cache_size > 0\<close>, and goes on until
  it is 0.\<close>

primrec push_pending :: "nat \<Rightarrow> 'o sink \<Rightarrow> u8 \<Rightarrow> rcenc \<times> 'o \<Rightarrow> rcenc \<times> 'o" where
  "push_pending 0 wr byte st = st"
| "push_pending (Suc n) wr byte st =
     (let (e, out) = rc_push wr byte st; e = e\<lparr>re_cache_size := re_cache_size e - 1\<rparr>
      in if re_cache_size e = 0 then (e, out) else push_pending n wr byte (e, out))"

definition shift_low :: "'o sink \<Rightarrow> rcenc \<times> 'o \<Rightarrow> rcenc \<times> 'o" where
  "shift_low wr = (\<lambda>(e, out).
     let low = (ucast (re_low e) :: u32);
         high = (ucast (drop_bit 32 (re_low e)) :: u32);
         e = e\<lparr>re_low := ucast (push_bit 8 low)\<rparr>
     in if low < 0xFF000000 \<or> high \<noteq> 0
        then (let (e, out) = rc_push wr (ucast (re_cache e + high)) (e, out);
                  e = e\<lparr>re_cache := drop_bit 24 low\<rparr>
              in if re_cache_size e = 0 then (e, out)
                 else push_pending (re_cache_size e) wr (ucast (high + 0xFF)) (e, out))
        else (e\<lparr>re_cache_size := re_cache_size e + 1\<rparr>, out))"

definition flush_data :: "'o sink \<Rightarrow> rcenc \<times> 'o \<Rightarrow> rcenc \<times> 'o" where
  "flush_data wr st = (shift_low wr ^^ 5) st"

subsection \<open>Bits\<close>

text \<open>A bit takes the range of its group and returns the new one, with the probability and the state.\<close>

definition norm_with_range :: "'o sink \<Rightarrow> u32 \<Rightarrow> rcenc \<times> 'o \<Rightarrow> u32 \<times> rcenc \<times> 'o" where
  "norm_with_range wr rng st =
     (if rng < K_TOP_VALUE then (push_bit 8 rng, shift_low wr st) else (rng, st))"

definition encode_bit_with_range :: "'o sink \<Rightarrow> u32 \<Rightarrow> u16 \<Rightarrow> u32 \<Rightarrow> rcenc \<times> 'o \<Rightarrow> u32 \<times> u16 \<times> rcenc \<times> 'o" where
  "encode_bit_with_range wr rng prob bt = (\<lambda>(e, out).
     let ttt = (ucast prob :: u32);
         new_bound = drop_bit K_NUM_BIT_MODEL_TOTAL_BITS rng * ttt;
         mask = 0 - bt;
         rng = (if bt = 0 then new_bound else rng - new_bound);
         e = e\<lparr>re_low := re_low e + ucast (new_bound AND mask)\<rparr>;
         mask = bt - 1;
         mask = mask AND (K_BIT_MODEL_TOTAL - (push_bit K_NUM_MOVE_BITS 1 - 1));
         mask = mask + (push_bit K_NUM_MOVE_BITS 1 - 1);
         ttt = ttt + signed_drop_bit K_NUM_MOVE_BITS (mask - ttt);
         prob = ucast ttt
     in if rng < K_TOP_VALUE then (push_bit 8 rng, prob, shift_low wr (e, out)) else (rng, prob, e, out))"

definition encode_bit_0_base_with_range :: "u32 \<Rightarrow> u16 \<Rightarrow> rcenc \<Rightarrow> u32 \<times> u16 \<times> rcenc" where
  "encode_bit_0_base_with_range rng prob e =
     (let ttt = (ucast prob :: u32); new_bound = drop_bit K_NUM_BIT_MODEL_TOTAL_BITS rng * ttt
      in (new_bound, ucast (ttt + drop_bit K_NUM_MOVE_BITS (K_BIT_MODEL_TOTAL - ttt)), e))"

definition encode_bit_1_base_with_range :: "u32 \<Rightarrow> u16 \<Rightarrow> rcenc \<Rightarrow> u32 \<times> u16 \<times> rcenc" where
  "encode_bit_1_base_with_range rng prob e =
     (let ttt = (ucast prob :: u32); new_bound = drop_bit K_NUM_BIT_MODEL_TOTAL_BITS rng * ttt
      in (rng - new_bound, ucast (ttt - drop_bit K_NUM_MOVE_BITS ttt), e\<lparr>re_low := re_low e + ucast new_bound\<rparr>))"

definition encode_bit_0_with_range :: "'o sink \<Rightarrow> u32 \<Rightarrow> u16 \<Rightarrow> rcenc \<times> 'o \<Rightarrow> u32 \<times> u16 \<times> rcenc \<times> 'o" where
  "encode_bit_0_with_range wr rng prob = (\<lambda>(e, out).
     let (rng, prob, e) = encode_bit_0_base_with_range rng prob e;
         (rng, st) = norm_with_range wr rng (e, out)
     in (rng, prob, st))"

definition encode_bit_1_with_range :: "'o sink \<Rightarrow> u32 \<Rightarrow> u16 \<Rightarrow> rcenc \<times> 'o \<Rightarrow> u32 \<times> u16 \<times> rcenc \<times> 'o" where
  "encode_bit_1_with_range wr rng prob = (\<lambda>(e, out).
     let (rng, prob, e) = encode_bit_1_base_with_range rng prob e;
         (rng, st) = norm_with_range wr rng (e, out)
     in (rng, prob, st))"

definition encode_bit_0 :: "'o sink \<Rightarrow> u16 \<Rightarrow> rcenc \<times> 'o \<Rightarrow> u16 \<times> rcenc \<times> 'o" where
  "encode_bit_0 wr prob = (\<lambda>(e, out).
     let (rng, prob, e, out) = encode_bit_0_with_range wr (re_range e) prob (e, out)
     in (prob, e\<lparr>re_range := rng\<rparr>, out))"

text \<open>\<open>add\<close> is all ones for a 1 and zero for a 0.\<close>

definition encode_direct_bit_with_range :: "'o sink \<Rightarrow> u32 \<Rightarrow> u32 \<Rightarrow> rcenc \<times> 'o \<Rightarrow> u32 \<times> rcenc \<times> 'o" where
  "encode_direct_bit_with_range wr rng add = (\<lambda>(e, out).
     let rng = drop_bit 1 rng; e = e\<lparr>re_low := re_low e + ucast (rng AND add)\<rparr>
     in norm_with_range wr rng (e, out))"

subsection \<open>Trees\<close>

text \<open>An indexed probability is read and written back; an index outside the slice panics.\<close>

definition encode_at :: "'o sink \<Rightarrow> u16 list \<Rightarrow> nat \<Rightarrow> u32 \<Rightarrow> u32 \<Rightarrow> rcenc \<times> 'o \<Rightarrow> (u16 list \<times> u32 \<times> rcenc \<times> 'o) option" where
  "encode_at wr probs i rng bt st = do {
     prob \<leftarrow> get_at probs i;
     let (rng, prob, st) = encode_bit_with_range wr rng prob bt st;
     Some (probs[i := prob], rng, st) }"

partial_function (option) lit_encode_loop ::
  "'o sink \<Rightarrow> u16 list \<Rightarrow> u32 \<Rightarrow> u32 \<Rightarrow> rcenc \<times> 'o \<Rightarrow> (u16 list \<times> u32 \<times> rcenc \<times> 'o) option" where
  [code]: "lit_encode_loop wr probs sy rng st = do {
     let i = unat (drop_bit 8 sy);
     let bt = drop_bit 7 sy AND 1;
     let sy = push_bit 1 sy;
     (probs, rng, st) \<leftarrow> encode_at wr probs i rng bt st;
     if 0x10000 \<le> sy then Some (probs, rng, st) else lit_encode_loop wr probs sy rng st }"

definition lit_encode :: "'o sink \<Rightarrow> u16 list \<Rightarrow> u32 \<Rightarrow> rcenc \<times> 'o \<Rightarrow> (u16 list \<times> rcenc \<times> 'o) option" where
  "lit_encode wr probs sy = (\<lambda>(e, out). do {
     (probs, rng, e, out) \<leftarrow> lit_encode_loop wr probs (sy OR 0x100) (re_range e) (e, out);
     Some (probs, e\<lparr>re_range := rng\<rparr>, out) })"

partial_function (option) lit_matched_loop ::
  "'o sink \<Rightarrow> u16 list \<Rightarrow> u32 \<Rightarrow> u32 \<Rightarrow> u32 \<Rightarrow> u32 \<Rightarrow> rcenc \<times> 'o \<Rightarrow> (u16 list \<times> u32 \<times> rcenc \<times> 'o) option" where
  [code]: "lit_matched_loop wr probs offs sy match_byte rng st = do {
     let match_byte = push_bit 1 match_byte;
     let i = unat (offs + (match_byte AND offs) + drop_bit 8 sy);
     let bt = drop_bit 7 sy AND 1;
     let sy = push_bit 1 sy;
     let offs = offs AND NOT (match_byte XOR sy);
     (probs, rng, st) \<leftarrow> encode_at wr probs i rng bt st;
     if 0x10000 \<le> sy then Some (probs, rng, st) else lit_matched_loop wr probs offs sy match_byte rng st }"

definition lit_encode_matched :: "'o sink \<Rightarrow> u16 list \<Rightarrow> u32 \<Rightarrow> u32 \<Rightarrow> rcenc \<times> 'o \<Rightarrow> (u16 list \<times> rcenc \<times> 'o) option" where
  "lit_encode_matched wr probs sy match_byte = (\<lambda>(e, out). do {
     (probs, rng, e, out) \<leftarrow> lit_matched_loop wr probs 0x100 (sy OR 0x100) match_byte (re_range e) (e, out);
     Some (probs, e\<lparr>re_range := rng\<rparr>, out) })"

primrec reverse_loop :: "nat \<Rightarrow> 'o sink \<Rightarrow> u16 list \<Rightarrow> nat \<Rightarrow> u32 \<Rightarrow> u32 \<Rightarrow> rcenc \<times> 'o \<Rightarrow> (u16 list \<times> u32 \<times> rcenc \<times> 'o) option" where
  "reverse_loop 0 wr probs m sy rng st = Some (probs, rng, st)"
| "reverse_loop (Suc n) wr probs m sy rng st = do {
     let bt = sy AND 1;
     let sy = drop_bit 1 sy;
     (probs, rng, st) \<leftarrow> encode_at wr probs m rng bt st;
     reverse_loop n wr probs (2 * m + unat bt) sy rng st }"

definition rc_tree_reverse_encode :: "'o sink \<Rightarrow> u16 list \<Rightarrow> nat \<Rightarrow> u32 \<Rightarrow> rcenc \<times> 'o \<Rightarrow> (u16 list \<times> rcenc \<times> 'o) option" where
  "rc_tree_reverse_encode wr probs num_bits sy = (\<lambda>(e, out). do {
     (probs, rng, e, out) \<leftarrow> reverse_loop num_bits wr probs 1 sy (re_range e) (e, out);
     Some (probs, e\<lparr>re_range := rng\<rparr>, out) })"

subsection \<open>The length coder\<close>

definition LZMA_NUM_PB_STATES_MAX :: nat where "LZMA_NUM_PB_STATES_MAX = 2 ^ 4"

record len_enc =
  le_low :: "u16 list"
  le_high :: "u16 list"

definition len_enc_new :: len_enc where
  "len_enc_new = \<lparr>le_low = replicate (LZMA_NUM_PB_STATES_MAX * 2 ^ (3 + 1)) K_PROB_INIT_VALUE,
                  le_high = replicate 256 K_PROB_INIT_VALUE\<rparr>"

text \<open>The flag at \<open>base\<close> of the low table, with a plain 1 or 0.\<close>

definition low_flag :: "('o sink \<Rightarrow> u32 \<Rightarrow> u16 \<Rightarrow> rcenc \<times> 'o \<Rightarrow> u32 \<times> u16 \<times> rcenc \<times> 'o) \<Rightarrow>
    'o sink \<Rightarrow> u16 list \<Rightarrow> nat \<Rightarrow> u32 \<Rightarrow> rcenc \<times> 'o \<Rightarrow> (u16 list \<times> u32 \<times> rcenc \<times> 'o) option" where
  "low_flag enc wr probs i rng st = do {
     prob \<leftarrow> get_at probs i;
     let (rng, prob, st) = enc wr rng prob st;
     Some (probs[i := prob], rng, st) }"

definition len_encode :: "'o sink \<Rightarrow> len_enc \<Rightarrow> u32 \<Rightarrow> u32 \<Rightarrow> rcenc \<times> 'o \<Rightarrow> (len_enc \<times> rcenc \<times> 'o) option" where
  "len_encode wr le sy pos_state = (\<lambda>(e, out). do {
     let low = le_low le;
     (low, rng, st, sy, base, done) \<leftarrow>
       (if 8 \<le> sy
        then do {
          (low, rng, st) \<leftarrow> low_flag encode_bit_1_with_range wr low 0 (re_range e) (e, out);
          if 8 * 2 \<le> sy
          then do {
            (low, rng, st) \<leftarrow> low_flag encode_bit_1_with_range wr low 8 rng st;
            Some (low, rng, st, sy, 8, True) }
          else Some (low, rng, st, sy - 8, 8, False) }
        else Some (low, re_range e, (e, out), sy, 0, False));
     if done
     then do {
       let (e, out) = st;
       (high, e, out) \<leftarrow> lit_encode wr (le_high le) (sy - 8 * 2) (e\<lparr>re_range := rng\<rparr>, out);
       Some (le\<lparr>le_low := low, le_high := high\<rparr>, e, out) }
     else do {
       (low, rng, st) \<leftarrow> low_flag encode_bit_0_with_range wr low base rng st;
       let base = base + unat pos_state * 2 ^ (1 + 3);
       let bt = drop_bit 2 sy;
       (low, rng, st) \<leftarrow> encode_at wr low (base + 1) rng bt st;
       let m = 2 + unat bt;
       let bt = drop_bit 1 sy AND 1;
       (low, rng, st) \<leftarrow> encode_at wr low (base + m) rng bt st;
       let m = 2 * m + unat bt;
       let bt = sy AND 1;
       (low, rng, st) \<leftarrow> encode_at wr low (base + m) rng bt st;
       let (e, out) = st;
       Some (le\<lparr>le_low := low\<rparr>, e\<lparr>re_range := rng\<rparr>, out) } })"

subsection \<open>Sinks\<close>

text \<open>\<open>impl SeqOutStream for Vec<u8>\<close>\<close>

definition vec_write :: "(nat \<Rightarrow> bool) \<Rightarrow> bytes sink" where
  "vec_write alloc_ok data out = (if alloc_ok (length data) then (None, out @ data) else (Some Alloc, out))"

locale seq_out =
  fixes wr :: "'o sink" and written :: "'o \<Rightarrow> bytes"
  assumes write_ok: "wr data out = (None, out') \<Longrightarrow> written out' = written out @ data"
begin

text \<open>What has been produced: what the sink holds and what waits in the buffer.\<close>

definition produced :: "rcenc \<times> 'o \<Rightarrow> bytes" where
  "produced st = written (snd st) @ re_buf (fst st)"

text \<open>Two states that differ in what has been output only.\<close>

definition same_coder_state :: "rcenc \<Rightarrow> rcenc \<Rightarrow> bool" where
  "same_coder_state e e' \<longleftrightarrow> re_range e' = re_range e \<and> re_cache e' = re_cache e \<and> re_low e' = re_low e"

lemma flush_stream_ok:
  assumes "flush_stream wr (e, out) = (e', out')"
  shows "same_coder_state e e' \<and> re_cache_size e' = re_cache_size e \<and>
    (re_res e' = None \<longrightarrow> re_res e = None \<and> produced (e', out') = produced (e, out))"
  using assms write_ok [of "re_buf e" out]
  by (auto simp: flush_stream_def Let_def same_coder_state_def produced_def split: if_splits prod.splits option.splits)

lemma rc_push_ok:
  assumes "rc_push wr b (e, out) = (e', out')"
  shows "same_coder_state e e' \<and> re_cache_size e' = re_cache_size e \<and>
    (re_res e' = None \<longrightarrow> re_res e = None \<and> produced (e', out') = produced (e, out) @ [b])"
proof (cases "length (re_buf e @ [b]) = RC_BUF_SIZE")
  case True
  then have "flush_stream wr (e\<lparr>re_buf := re_buf e @ [b]\<rparr>, out) = (e', out')" using assms by (simp add: rc_push_def)
  from flush_stream_ok [OF this] show ?thesis by (simp add: same_coder_state_def produced_def)
next
  case False
  then show ?thesis using assms by (auto simp: rc_push_def same_coder_state_def produced_def)
qed

lemma push_pending_ok:
  assumes "push_pending n wr b (e, out) = (e', out')" "re_cache_size e = n" "0 < n"
  shows "same_coder_state e e' \<and> re_cache_size e' = 0 \<and>
    (re_res e' = None \<longrightarrow> re_res e = None \<and> produced (e', out') = produced (e, out) @ replicate n b)"
  using assms
proof (induction n arbitrary: e out)
  case (Suc n)
  obtain e1 out1 where p: "rc_push wr b (e, out) = (e1, out1)" by fastforce
  note ok = rc_push_ok [OF p]
  let ?e = "e1\<lparr>re_cache_size := re_cache_size e1 - 1\<rparr>"
  have pr: "produced (?e, out1) = produced (e1, out1)" by (simp add: produced_def)
  show ?case
  proof (cases "n = 0")
    case True
    then show ?thesis using Suc.prems p ok pr by (auto simp: same_coder_state_def)
  next
    case False
    then have "push_pending n wr b (?e, out1) = (e', out')" "re_cache_size ?e = n"
      using Suc.prems p ok by auto
    from Suc.IH [OF this] False ok pr show ?thesis
      by (simp add: same_coder_state_def)
  qed
qed simp

end

interpretation vec_out: seq_out "vec_write alloc_ok" id
  by unfold_locales (auto simp: vec_write_def split: if_splits)

subsection \<open>The number the encoder stands for\<close>

fun be_nat :: "bytes \<Rightarrow> nat" where
  "be_nat [] = 0"
| "be_nat (b # bs) = unat b * 256 ^ length bs + be_nat bs"

lemma be_nat_append: "be_nat (xs @ ys) = be_nat xs * 256 ^ length ys + be_nat ys"
  by (induction xs) (simp_all add: power_add algebra_simps)

lemma be_nat_snoc [simp]: "be_nat (xs @ [b]) = 256 * be_nat xs + unat b"
  by (simp add: be_nat_append)

lemma be_nat_ones: "Suc (be_nat (replicate n 0xFF)) = 256 ^ n"
  by (induction n) simp_all

lemma be_nat_zeros: "be_nat (replicate n 0) = 0"
  by (induction n) simp_all

text \<open>The produced bytes, the byte held back, the pending bytes \<open>0xFF\<close>, and the 33 bits of \<open>low\<close> with
  its carry, as one number in units of the last byte.\<close>

definition enc_total :: "bytes \<Rightarrow> rcenc \<Rightarrow> nat" where
  "enc_total E e = ((be_nat E * 256 + unat (re_cache e)) * 256 ^ re_cache_size e + (256 ^ re_cache_size e - 1)) * 2 ^ 32
     + unat (re_low e)"

text \<open>A carry out of \<open>low\<close> never meets a held byte \<open>0xFF\<close>.\<close>

definition enc_inv :: "nat \<Rightarrow> rcenc \<Rightarrow> bool" where
  "enc_inv r e \<longleftrightarrow> 0 < r \<and> unat (re_cache e) \<le> 255 \<and> unat (re_low e) + r < 2 ^ 33 \<and>
     (unat (re_cache e) = 255 \<longrightarrow> unat (re_low e) + r \<le> 2 ^ 32)"

context seq_out
begin

lemma shift_low_ok:
  assumes "shift_low wr (e, out) = (e', out')" "enc_inv r e" "r < 2 ^ 24" "re_res e' = None"
  shows "re_res e = None \<and> re_range e' = re_range e \<and> enc_inv (256 * r) e' \<and>
    enc_total (produced (e', out')) e' = 256 * enc_total (produced (e, out)) e \<and>
    length (produced (e', out')) + re_cache_size e' = length (produced (e, out)) + re_cache_size e + 1 \<and>
    unat (re_low e') = 256 * unat (re_low e) mod 2 ^ 32"
proof -
  define L where "L = unat (re_low e)"
  define c where "c = unat (re_cache e)"
  define low where "low = (ucast (re_low e) :: u32)"
  define high where "high = (ucast (drop_bit 32 (re_low e)) :: u32)"
  define E where "E = produced (e, out)"
  define cs where "cs = re_cache_size e"
  have inv: "0 < r" "c \<le> 255" "L + r < 2 ^ 33" "c = 255 \<Longrightarrow> L + r \<le> 2 ^ 32"
    using assms(2) by (auto simp: enc_inv_def L_def c_def)
  have low: "unat low = L mod 2 ^ 32" by (simp add: low_def L_def unsigned_ucast_eq take_bit_eq_mod)
  have "unat (drop_bit 32 (re_low e)) = L div 2 ^ 32" using unat_drop_bit [of 32 "re_low e"] by (simp add: L_def)
  moreover have "L div 2 ^ 32 < 2" using inv(1,3) by (simp add: less_mult_imp_div_less)
  ultimately have high: "unat high = L div 2 ^ 32" "unat high < 2"
    by (simp_all add: high_def unsigned_ucast_eq take_bit_eq_mod)
  have split: "L = unat high * 2 ^ 32 + unat low" using low high(1) by simp
  have low': "unat (push_bit 8 low) = (unat low mod 2 ^ 24) * 256" 
    using mod_mult_mult2 [of "unat low" 256 "2 ^ 24"] by (simp add: push_bit_eq_mult unat_word_ariths)
  define e1 where "e1 = e\<lparr>re_low := ucast (push_bit 8 low)\<rparr>"
  have e1: "unat (re_low e1) = (unat low mod 2 ^ 24) * 256" "re_cache e1 = re_cache e" "re_cache_size e1 = cs"
      "re_range e1 = re_range e" "re_res e1 = re_res e" "produced (e1, out) = E"
    using low' by (simp_all add: e1_def cs_def E_def produced_def)
  have tot: "enc_total E e = ((be_nat E * 256 + c) * 256 ^ cs + (256 ^ cs - 1)) * 2 ^ 32 + L"
    by (simp add: enc_total_def c_def cs_def L_def)
  have lmod: "256 * L mod 2 ^ 32 = (unat low mod 2 ^ 24) * 256"
    using low low' by (simp add: push_bit_eq_mult unat_word_ariths mult.commute mod_mult_right_eq)
  have q256: "unat low div 2 ^ 24 < 256" by (rule less_mult_imp_div_less) (use unsigned_less [of low] in simp)
  show ?thesis
  proof (cases "low < 0xFF000000 \<or> high \<noteq> 0")
    case True
    obtain e2 out2 where p: "rc_push wr (ucast (re_cache e1 + high)) (e1, out) = (e2, out2)" by fastforce
    note ok2 = rc_push_ok [OF p]
    define e3 where "e3 = e2\<lparr>re_cache := drop_bit 24 low\<rparr>"
    have st: "shift_low wr (e, out) = (if re_cache_size e3 = 0 then (e3, out2)
        else push_pending (re_cache_size e3) wr (ucast (high + 0xFF)) (e3, out2))"
      using True p unfolding shift_low_def Let_def prod.case low_def [symmetric] high_def [symmetric] e1_def [symmetric]
      by (simp add: e3_def)
    have cs3: "re_cache_size e3 = cs" using ok2 e1(3) by (simp add: e3_def)
    have pend: "same_coder_state e3 e' \<and> re_cache_size e' = 0 \<and>
        (re_res e' = None \<longrightarrow> re_res e3 = None \<and> produced (e', out') = produced (e3, out2) @ replicate cs (ucast (high + 0xFF)))"
    proof (cases "cs = 0")
      case True
      then show ?thesis using st assms(1) cs3 by (simp add: same_coder_state_def)
    next
      case False
      then have "push_pending cs wr (ucast (high + 0xFF)) (e3, out2) = (e', out')" using st assms(1) cs3 by simp
      from push_pending_ok [OF this cs3] False show ?thesis by simp
    qed
    have r: "re_res e2 = None" "re_res e = None" using pend assms(4) ok2 e1(5) by (auto simp: e3_def)
    have E': "produced (e', out') = E @ [ucast (re_cache e + high)] @ replicate cs (ucast (high + 0xFF))"
      using pend assms(4) ok2 r(1) e1(2,6) by (simp add: e3_def produced_def)
    have f: "re_range e' = re_range e" "unat (re_low e') = (unat low mod 2 ^ 24) * 256" "unat (re_cache e') = unat low div 2 ^ 24"
      using pend ok2 e1 unat_drop_bit [of 24 low] by (auto simp: same_coder_state_def e3_def)
    have carry: "c + unat high \<le> 255"
    proof (cases "unat high = 0")
      case False
      then have h: "unat high = 1" using high(2) by simp
      then have "c \<noteq> 255" using inv(1,4) split by auto
      then show ?thesis using h inv(2) by simp
    qed (use inv(2) in simp)
    have b1: "unat (ucast (re_cache e + high) :: u8) = c + unat high"
      using carry by (simp add: unsigned_ucast_eq take_bit_eq_mod unat_word_ariths c_def)
    have b2: "be_nat (replicate cs (ucast (high + 0xFF))) + (if unat high = 0 then 0 else 256 ^ cs - 1) = 256 ^ cs - 1"
    proof (cases "unat high = 0")
      case True
      then have "high = 0" by (simp add: unat_eq_0)
      then show ?thesis using be_nat_ones [of cs] by simp
    next
      case False
      then have "high = 1" using high(2) by (intro word_eq_unatI) simp
      then have z: "(ucast (high + 0xFF) :: u8) = 0" by (intro word_eq_unatI) simp
      show ?thesis unfolding z using False be_nat_zeros [of cs] by simp
    qed
    have "be_nat (produced (e', out')) = (be_nat E * 256 + (c + unat high)) * 256 ^ cs + be_nat (replicate cs (ucast (high + 0xFF)))"
    proof -
      have "be_nat (E @ [x] @ replicate cs y) = (be_nat E * 256 + unat x) * 256 ^ cs + be_nat (replicate cs y)" for x y
        by (simp add: be_nat_append algebra_simps)
      then show ?thesis unfolding E' b1 [symmetric] .
    qed
    also have "\<dots> = (be_nat E * 256 + c) * 256 ^ cs + (256 ^ cs - 1) + unat high"
    proof (cases "unat high = 0")
      case False
      have pos: "0 < (256 :: nat) ^ cs" by simp
      have "unat high = 1" using False high(2) by simp
      moreover have "be_nat (replicate cs (ucast (high + 0xFF))) = 0" using b2 False pos by (simp only: if_False)
      ultimately show ?thesis using pos by (simp only: add_mult_distrib)
    qed (use b2 in simp)
    finally have be: "be_nat (produced (e', out')) = (be_nat E * 256 + c) * 256 ^ cs + (256 ^ cs - 1) + unat high" .
    have ll: "unat low = unat low div 2 ^ 24 * 2 ^ 24 + unat low mod 2 ^ 24" by simp
    have "enc_total (produced (e', out')) e' =
        (((be_nat E * 256 + c) * 256 ^ cs + (256 ^ cs - 1) + unat high) * 256 + unat low div 2 ^ 24) * 2 ^ 32 + (unat low mod 2 ^ 24) * 256"
      unfolding enc_total_def f be using pend by simp
    also have "\<dots> = 256 * (((be_nat E * 256 + c) * 256 ^ cs + (256 ^ cs - 1)) * 2 ^ 32 + (unat high * 2 ^ 32 + unat low))"
    proof -
      have ar: "((M + h) * 256 + a) * 2 ^ 32 + b * 256 = 256 * (M * 2 ^ 32 + (h * 2 ^ 32 + (a * 2 ^ 24 + b)))" for M h a b :: nat
        by (simp add: algebra_simps)
      show ?thesis unfolding ar by (simp only: div_mult_mod_eq)
    qed
    finally have total: "enc_total (produced (e', out')) e' = 256 * enc_total E e" using tot split by simp
    have l24: "unat low mod 2 ^ 24 < 2 ^ 24" by simp
    have "unat (re_low e') + 256 * r \<le> 2 ^ 32" if "unat low div 2 ^ 24 = 255"
    proof -
      have ge: "unat low = 255 * 2 ^ 24 + unat low mod 2 ^ 24"
        using div_mult_mod_eq [of "unat low" "2 ^ 24"] unfolding that by simp
      then have "\<not> low < 0xFF000000" by (simp add: word_less_nat_alt)
      then have "unat high = 1" using True high(2) by (auto simp: unat_eq_0 less_2_cases_iff)
      then show ?thesis using ge split inv(3) f(2) by simp
    qed
    moreover note q256
    moreover have "unat (re_low e') + 256 * r < 2 ^ 33" using f(2) l24 assms(3) by simp
    ultimately have "enc_inv (256 * r) e'" using f(3) inv(1) by (simp add: enc_inv_def)
    then show ?thesis
      using total r(2) f(1,2) E' pend cs_def lmod unfolding E_def L_def [symmetric] by simp
  next
    case False
    then have "high = 0" and ge: "255 * 2 ^ 24 \<le> unat low" by (auto simp: word_less_nat_alt)
    then have L: "L = unat low" using split by simp
    have st: "e' = e1\<lparr>re_cache_size := cs + 1\<rparr>" "out' = out"
      using False assms(1) e1(3) unfolding shift_low_def Let_def prod.case low_def [symmetric] high_def [symmetric] e1_def [symmetric]
      by auto
    have q: "unat low div 2 ^ 24 = 255" using div_le_mono [OF ge, of "2 ^ 24"] q256 by simp
    have l: "unat low mod 2 ^ 24 = L - 255 * 2 ^ 24" using q L by (simp add: modulo_nat_def)
    have f: "unat (re_low e') = (L - 255 * 2 ^ 24) * 256" "re_cache e' = re_cache e" "re_cache_size e' = cs + 1" "produced (e', out') = E"
      using st e1 l by (simp_all add: produced_def)
    have "0 < (256 :: nat) ^ cs" by simp
    then obtain k where k: "(256 :: nat) ^ cs = Suc k" using gr0_implies_Suc by blast
    obtain d where d: "L = 255 * 2 ^ 24 + d" using ge L le_Suc_ex by metis
    have dl: "d < 2 ^ 24" using d L unat_u32_lt [of low] by (simp del: unat_u32_lt)
    have ar: "(X * (256 * Suc k) + (256 * Suc k - 1)) * 2 ^ 32 + d * 256 = 256 * ((X * Suc k + (Suc k - 1)) * 2 ^ 32 + (255 * 2 ^ 24 + d))" for X
      by (simp add: algebra_simps)
    have "enc_total (produced (e', out')) e' = 256 * enc_total E e"
      unfolding tot unfolding enc_total_def f c_def [symmetric] using ar [of "be_nat E * 256 + c"] by (simp only: d k power_Suc Suc_eq_plus1 [symmetric] diff_add_inverse)
    moreover have "enc_inv (256 * r) e'"
    proof -
      have "(L - 255 * 2 ^ 24) * 256 + 256 * r < 2 ^ 33" "c = 255 \<Longrightarrow> (L - 255 * 2 ^ 24) * 256 + 256 * r \<le> 2 ^ 32"
        using inv(4) d dl assms(3) by auto
      then show ?thesis using f inv(1,2) by (simp add: enc_inv_def c_def)
    qed
    ultimately show ?thesis using st e1 f(1,3,4) l lmod assms(4) unfolding L_def [symmetric] by (simp add: E_def cs_def)
  qed
qed

end

end
