(* ===== verification/RangeRound.thy ===== *)
theory RangeRound
  imports RangeEnc
begin

text \<open>
  The range coder round trip: what the encoder of \<open>enc/range_enc.rs\<close> produces for the bits along a
  path of a decision tree, the decoder of \<open>lzma/decode.rs\<close> decodes back along the same path, with the
  same adapted probabilities. The encoder's state stands for an interval of numbers; every bit narrows
  it, the finished stream lies in it, and the decoder's \<open>code\<close> is the offset of the stream in it.
\<close>

subsection \<open>Encoding a path of a tree\<close>

primrec enc_prog :: "'o sink \<Rightarrow> 'a bitprog \<Rightarrow> bool list \<Rightarrow> u16 list \<Rightarrow> u32 \<Rightarrow> rcenc \<times> 'o \<Rightarrow>
    ('a \<times> bool list \<times> u16 list \<times> u32 \<times> rcenc \<times> 'o) option" where
  "enc_prog wr (Ret x) bs probs rng st = Some (x, bs, probs, rng, st)"
| "enc_prog wr (Bit i k) bs probs rng st = (case bs of [] \<Rightarrow> None | b # bs \<Rightarrow> do {
     (probs, rng, st) \<leftarrow> encode_at wr probs i rng (of_bool b) st;
     enc_prog wr (k b) bs probs rng st })"
| "enc_prog wr (Direct k) bs probs rng st = (case bs of [] \<Rightarrow> None | b # bs \<Rightarrow>
     (let (rng, st) = encode_direct_bit_with_range wr rng (if b then - 1 else 0) st in enc_prog wr (k b) bs probs rng st))"

lemma enc_prog_bind:
  "enc_prog wr (bp_bind p f) bs probs rng st =
     (case enc_prog wr p bs probs rng st of None \<Rightarrow> None
      | Some (x, bs, probs, rng, st) \<Rightarrow> enc_prog wr (f x) bs probs rng st)"
  by (induction p arbitrary: bs probs rng st)
     (auto split: list.splits option.splits prod.splits bind_splits)

subsection \<open>The branchless update\<close>

lemma enc_prob_update:
  fixes p :: u16 and b :: bool
  assumes "unat p \<le> 2048"
  defines "mk \<equiv> ((of_bool b - 1) AND (K_BIT_MODEL_TOTAL - (push_bit K_NUM_MOVE_BITS 1 - 1))) + (push_bit K_NUM_MOVE_BITS 1 - 1)"
  shows "ucast (ucast p + signed_drop_bit K_NUM_MOVE_BITS (mk - ucast p) :: u32) = prob_update p b"
proof (rule word_eq_unatI)
  define n where "n = unat p"
  define z where "z = (if b then n - n div 32 else n + (2048 - n) div 32)"
  have n: "n \<le> 2048" using assms(1) by (simp add: n_def)
  have p: "(ucast p :: u32) = word_of_int (int n)" by (simp add: n_def)
  have m: "mk = word_of_int (if b then 31 else 2048)" by (simp add: mk_def lz_consts)
  have z: "int z = int n + ((if b then 31 else 2048) - int n) div 32" "z < 65536"
    using n by (auto simp: z_def)
  have "mk - ucast p = word_of_int ((if b then 31 else 2048) - int n)"
    unfolding m p by simp
  moreover have "signed_drop_bit 5 (word_of_int ((if b then 31 else 2048) - int n) :: u32) =
      word_of_int (((if b then 31 else 2048) - int n) div 32)"
    using signed_drop_bit_word_of_int [of "(if b then 31 else 2048) - int n" 5] n by simp
  ultimately have "ucast p + signed_drop_bit K_NUM_MOVE_BITS (mk - ucast p) = (word_of_int (int z) :: u32)"
    unfolding p z(1) by (simp add: lz_consts)
  then show "unat (ucast (ucast p + signed_drop_bit K_NUM_MOVE_BITS (mk - ucast p) :: u32) :: u16) = unat (prob_update p b)"
    using z(2) n by (simp add: unsigned_ucast_eq take_bit_nat_eq_self unat_of_nat_small z_def n_def unat_prob_update)
qed

text \<open>A modelled bit before its normalization.\<close>

definition bit_bound :: "u32 \<Rightarrow> u16 \<Rightarrow> u32" where
  "bit_bound rng p = drop_bit K_NUM_BIT_MODEL_TOTAL_BITS rng * ucast p"

definition add_low :: "u32 \<Rightarrow> rcenc \<Rightarrow> rcenc" where
  "add_low v e = e\<lparr>re_low := re_low e + ucast v\<rparr>"

lemma encode_bit_eq:
  assumes "unat p \<le> 2048"
  shows "encode_bit_with_range wr rng p (of_bool b) (e, out) =
    (let (rng, st) = norm_with_range wr (if b then rng - bit_bound rng p else bit_bound rng p)
           (add_low (if b then bit_bound rng p else 0) e, out)
     in (rng, prob_update p b, st))"
proof -
  have m: "0 - of_bool b = (if b then - 1 else (0 :: u32))" "(of_bool b = (0 :: u32)) = (\<not> b)" by simp_all
  show ?thesis
    unfolding encode_bit_with_range_def Let_def prod.case enc_prob_update [OF assms] bit_bound_def [symmetric]
      norm_with_range_def m add_low_def
    by (cases b) (simp_all add: fun_eq_iff)
qed

subsection \<open>Encoder intervals and decoder offsets\<close>

lemma bound_range:
  assumes "2 ^ 24 \<le> unat rng" "prob_ok p"
  defines "r1 \<equiv> \<lambda>b. if b then rng - bit_bound rng p else bit_bound rng p"
  shows "unat (bit_bound rng p) < unat rng" "2 ^ 16 \<le> unat (r1 b)"
    "unat (r1 True) = unat rng - unat (bit_bound rng p)" "unat (r1 False) = unat (bit_bound rng p)"
proof -
  define q where "q = unat rng div 2048"
  have q: "q * 2048 \<le> unat rng" "unat rng < q * 2048 + 2048" by (simp_all add: q_def mult.commute)
  have p: "31 \<le> unat p" "unat p \<le> 2017" using assms(2) by (simp_all add: prob_ok_def)
  have lo: "q * 31 \<le> q * unat p" and hi: "q * unat p \<le> q * 2017" using p by simp_all
  have r32: "unat rng < 4294967296" by simp
  have "unat (drop_bit 11 rng) = q" using unat_drop_bit [of 11 rng] by (simp add: q_def)
  moreover have "q * unat p < 4294967296" using hi q r32 by linarith
  ultimately have b: "unat (bit_bound rng p) = q * unat p" by (simp add: bit_bound_def unat_word_ariths lz_consts)
  show lt: "unat (bit_bound rng p) < unat rng" 
  proof -
    have "16777216 \<le> unat rng" using assms(1) by simp
    then show ?thesis unfolding b using hi q(1) by linarith
  qed
  have d: "unat (rng - bit_bound rng p) = unat rng - unat (bit_bound rng p)" using lt by (simp add: unat_sub word_le_nat_alt)
  then show "unat (r1 True) = unat rng - unat (bit_bound rng p)" "unat (r1 False) = unat (bit_bound rng p)" by (simp_all add: r1_def)
  have "16777216 \<le> unat rng" using assms(1) by simp
  then have "65536 \<le> unat rng - q * unat p" "65536 \<le> q * unat p" using lo hi q by linarith+
  then show "2 ^ 16 \<le> unat (r1 b)" using d b by (simp add: r1_def)
qed

lemma add_low_simps [simp]:
  "re_cache (add_low v e) = re_cache e" "re_cache_size (add_low v e) = re_cache_size e" "re_buf (add_low v e) = re_buf e"
  "re_res (add_low v e) = re_res e" "re_range (add_low v e) = re_range e"
  by (simp_all add: add_low_def)

lemma add_low_nat: "unat (re_low e) < 2 ^ 33 \<Longrightarrow> unat (re_low (add_low v e)) = unat (re_low e) + unat v"
  using unat_u32_lt [of v] by (simp add: add_low_def unat_word_ariths unsigned_ucast_eq take_bit_nat_eq_self del: unat_u32_lt)

lemma add_low_inv:
  "enc_inv (unat v + r) e \<Longrightarrow> 0 < r \<Longrightarrow> enc_inv r (add_low v e) \<and> enc_total E (add_low v e) = enc_total E e + unat v"
  by (auto simp: enc_inv_def enc_total_def add_low_nat)

lemma enc_inv_mono: "enc_inv r e \<Longrightarrow> 0 < r' \<Longrightarrow> r' \<le> r \<Longrightarrow> enc_inv r' e"
  by (auto simp: enc_inv_def)

lemma bit_31_nat: "bit (w :: u32) 31 \<longleftrightarrow> 2 ^ 31 \<le> unat w"
proof -
  have "unat w div 2 ^ 31 < 2" by (rule less_mult_imp_div_less) (use unsigned_less [of w] in simp)
  then have "odd (unat w div 2 ^ 31) \<longleftrightarrow> unat w div 2 ^ 31 \<noteq> 0" by (cases "unat w div 2 ^ 31" rule: nat.exhaust) auto
  moreover have "bit w 31 \<longleftrightarrow> odd (unat w div 2 ^ 31)" by (metis bit_unat bit_iff_odd)
  ultimately show ?thesis by (simp add: div_eq_0_iff not_less)
qed

context seq_out
begin

definition st_pos :: "rcenc \<times> 'o \<Rightarrow> nat" where
  "st_pos st = length (produced st) + re_cache_size (fst st) + 5"

definition st_total :: "rcenc \<times> 'o \<Rightarrow> nat" where
  "st_total st = enc_total (produced st) (fst st)"

text \<open>The finished stream \<open>F\<close> lies in the interval of the state.\<close>

definition fits :: "bytes \<Rightarrow> rcenc \<times> 'o \<Rightarrow> u32 \<Rightarrow> bool" where
  "fits F st rng \<longleftrightarrow> st_pos st \<le> length F \<and> st_total st \<le> be_nat (take (st_pos st) F) \<and>
     be_nat (take (st_pos st) F) < st_total st + unat rng"

definition dec_state :: "bytes \<Rightarrow> rcenc \<times> 'o \<Rightarrow> u32 \<Rightarrow> rc" where
  "dec_state F st rng =
     \<lparr>rc_range = rng, rc_code = of_nat (be_nat (take (st_pos st) F) - st_total st), rc_buf = st_pos st\<rparr>"

lemma dec_state_code:
  assumes "fits F st rng"
  shows "unat (rc_code (dec_state F st rng)) = be_nat (take (st_pos st) F) - st_total st"
proof -
  have "be_nat (take (st_pos st) F) - st_total st < unat rng" using assms unfolding fits_def by linarith
  then have "be_nat (take (st_pos st) F) - st_total st < 2 ^ 32" using less_trans [OF _ unat_u32_lt [of rng]] by simp
  then show ?thesis by (simp add: dec_state_def unat_of_nat_small)
qed

lemma norm_step:
  assumes "norm_with_range wr rng (e, out) = (rng', e', out')" "enc_inv (unat rng) e" "2 ^ 16 \<le> unat rng" "re_res e' = None"
  shows "re_res e = None \<and> enc_inv (unat rng') e' \<and> 2 ^ 24 \<le> unat rng' \<and> re_range e' = re_range e"
    and "fits F (e', out') rng' \<Longrightarrow> fits F (e, out) rng \<and>
      normalize F (dec_state F (e, out) rng) = Some (dec_state F (e', out') rng')"
proof -
  have "re_res e = None \<and> enc_inv (unat rng') e' \<and> 2 ^ 24 \<le> unat rng' \<and> re_range e' = re_range e \<and>
    (fits F (e', out') rng' \<longrightarrow> fits F (e, out) rng \<and>
      normalize F (dec_state F (e, out) rng) = Some (dec_state F (e', out') rng'))"
  proof (cases "rng < K_TOP_VALUE")
    case False
    then show ?thesis
      using assms by (auto simp: norm_with_range_def normalize_def dec_state_def lz_consts word_less_nat_alt)
  next
    case True
    then have lt: "unat rng < 2 ^ 24" by (simp add: word_less_nat_alt lz_consts)
    have sh: "shift_low wr (e, out) = (e', out')" and r': "rng' = push_bit 8 rng"
      using True assms(1) by (auto simp: norm_with_range_def)
    have r8: "unat rng' = 256 * unat rng" using unat_push_bit [of rng 8] lt by (simp add: r')
    note ok = shift_low_ok [OF sh assms(2) lt assms(4)]
    have pos: "st_pos (e', out') = st_pos (e, out) + 1" and tot: "st_total (e', out') = 256 * st_total (e, out)"
      using ok by (simp_all add: st_pos_def st_total_def)
    have "fits F (e, out) rng \<and> normalize F (dec_state F (e, out) rng) = Some (dec_state F (e', out') rng')"
      if "fits F (e', out') rng'"
    proof -
      define n where "n = st_pos (e, out)"
      have n: "n < length F" using that pos by (simp add: fits_def n_def)
      have tk: "take (n + 1) F = take n F @ [F ! n]" using n by (simp add: take_Suc_conv_app_nth)
      have b: "256 * st_total (e, out) \<le> 256 * be_nat (take n F) + unat (F ! n)"
        "256 * be_nat (take n F) + unat (F ! n) < 256 * st_total (e, out) + 256 * unat rng"
        using that unfolding fits_def pos tot r8 n_def [symmetric] tk by auto
      have f: "fits F (e, out) rng"
      proof -
        have "st_total (e, out) \<le> be_nat (take n F)" using b(1) unat_u8_lt [of "F ! n"] by linarith
        moreover have "be_nat (take n F) < st_total (e, out) + unat rng" using b(2) by linarith
        ultimately show ?thesis using n unfolding fits_def n_def [symmetric] by simp
      qed
      define X where "X = be_nat (take n F) - st_total (e, out)"
      have "X < unat rng" using f unfolding X_def n_def fits_def by linarith
      then have X: "X < 2 ^ 24" using lt by simp
      have "unat (push_bit 8 (of_nat X :: u32) OR ucast (F ! n)) = 256 * X + unat (F ! n)"
        using X unat_or_push_bit [of "ucast (F ! n) :: u32" 8 "of_nat X"] unat_u8_lt [of "F ! n"]
        by (simp add: unat_of_nat_small or.commute)
      moreover have id: "(of_nat (unat w) :: u32) = w" for w :: u32 by simp
      moreover have "256 * X + unat (F ! n) = be_nat (take (n + 1) F) - 256 * st_total (e, out)"
        using f unfolding tk by (simp add: X_def n_def fits_def diff_mult_distrib2)
      ultimately have "push_bit 8 (of_nat X :: u32) OR ucast (F ! n) = of_nat (be_nat (take (n + 1) F) - 256 * st_total (e, out))"
        by (metis id)
      then show ?thesis
        using f True n unfolding normalize_def dec_state_def pos tot r' n_def [symmetric] X_def [symmetric]
        by (simp add: get_at_def)
    qed
    then show ?thesis using ok r8 assms(3) by auto
  qed
  then show "re_res e = None \<and> enc_inv (unat rng') e' \<and> 2 ^ 24 \<le> unat rng' \<and> re_range e' = re_range e"
    and "fits F (e', out') rng' \<Longrightarrow> fits F (e, out) rng \<and>
      normalize F (dec_state F (e, out) rng) = Some (dec_state F (e', out') rng')" by auto
qed

lemma fits_add_low:
  assumes "fits F (add_low v e, out) r1" "enc_inv (unat v + unat r1) e" "0 < unat r1"
  shows "st_total (add_low v e, out) = st_total (e, out) + unat v" "st_pos (add_low v e, out) = st_pos (e, out)"
    and "st_total (e, out) + unat v \<le> be_nat (take (st_pos (e, out)) F)"
    and "be_nat (take (st_pos (e, out)) F) < st_total (e, out) + unat v + unat r1" "st_pos (e, out) \<le> length F"
proof -
  have p: "produced (add_low v e, out) = produced (e, out)" by (simp add: produced_def)
  show pos: "st_pos (add_low v e, out) = st_pos (e, out)" by (simp add: st_pos_def p)
  show tot: "st_total (add_low v e, out) = st_total (e, out) + unat v"
    using add_low_inv [OF assms(2,3)] by (simp add: st_total_def p)
  show "st_total (e, out) + unat v \<le> be_nat (take (st_pos (e, out)) F)"
    "be_nat (take (st_pos (e, out)) F) < st_total (e, out) + unat v + unat r1" "st_pos (e, out) \<le> length F"
    using assms(1) by (simp_all add: fits_def tot pos)
qed

lemma bit_step:
  assumes "encode_bit_with_range wr rng p (of_bool b) (e, out) = (rng', p', e', out')"
    and "prob_ok p" "2 ^ 24 \<le> unat rng" "enc_inv (unat rng) e" "re_res e' = None"
  shows "re_res e = None \<and> enc_inv (unat rng') e' \<and> 2 ^ 24 \<le> unat rng' \<and> re_range e' = re_range e \<and> p' = prob_update p b"
    and "fits F (e', out') rng' \<Longrightarrow> fits F (e, out) rng \<and>
      (\<exists>s1. rc_bit (dec_state F (e, out) rng) p = (b, s1) \<and> normalize F s1 = Some (dec_state F (e', out') rng'))"
proof -
  define bd where "bd = bit_bound rng p"
  define v where "v = (if b then bd else 0)"
  define r1 where "r1 = (if b then rng - bd else bd)"
  note br = bound_range [OF assms(3,2), folded bd_def]
  have r1: "2 ^ 16 \<le> unat r1" "unat v + unat r1 \<le> unat rng" "unat bd < unat rng"
    using br(2) [of b] br(1,3,4) by (auto simp: r1_def v_def)
  have p2048: "unat p \<le> 2048" using assms(2) by (simp add: prob_ok_def)
  have nm: "norm_with_range wr r1 (add_low v e, out) = (rng', e', out')" and p': "p' = prob_update p b"
    using assms(1) unfolding encode_bit_eq [OF p2048] bd_def [symmetric] v_def [symmetric] r1_def [symmetric]
    by (auto split: prod.splits)
  have i: "enc_inv (unat v + unat r1) e" using r1 by (intro enc_inv_mono [OF assms(4)]) auto
  have i1: "enc_inv (unat r1) (add_low v e)" using add_low_inv [OF i] r1(1) by simp
  note ns = norm_step [OF nm i1 r1(1) assms(5)]
  show "re_res e = None \<and> enc_inv (unat rng') e' \<and> 2 ^ 24 \<le> unat rng' \<and> re_range e' = re_range e \<and> p' = prob_update p b"
    using ns(1) p' by simp
  assume "fits F (e', out') rng'"
  from ns(2) [OF this] have f1: "fits F (add_low v e, out) r1"
    and n1: "normalize F (dec_state F (add_low v e, out) r1) = Some (dec_state F (e', out') rng')" by auto
  have r0: "0 < unat r1" using r1(1) by simp
  note fa = fits_add_low [OF f1 i r0]
  have f: "fits F (e, out) rng" using fa(3-5) r1(2) unfolding fits_def by linarith
  define X where "X = be_nat (take (st_pos (e, out)) F) - st_total (e, out)"
  have X: "unat v \<le> X" "X < unat v + unat r1" using fa(3,4) unfolding X_def by linarith+
  have X32: "X < 2 ^ 32" using X(2) r1(2) less_le_trans [OF _ order_less_imp_le [OF unat_u32_lt [of rng]]] by simp
  have code: "rc_code (dec_state F (e, out) rng) = of_nat X" by (simp add: dec_state_def X_def)
  have cX: "unat (of_nat X :: u32) = X" using X32 by (intro unat_of_nat_small) simp
  have lt: "(of_nat X < bd) \<longleftrightarrow> \<not> b"
    using X cX by (auto simp: word_less_nat_alt v_def r1_def)
  have sub: "(of_nat X :: u32) - v = of_nat (X - unat v)"
    using X(1) by (simp add: of_nat_diff)
  have s1: "rc_bit (dec_state F (e, out) rng) p = (b, dec_state F (add_low v e, out) r1)"
  proof -
    have "be_nat (take (st_pos (e, out)) F) - st_total (add_low v e, out) = X - unat v"
      unfolding fa(1) by (simp add: X_def)
    then have "dec_state F (add_low v e, out) r1 = \<lparr>rc_range = r1, rc_code = of_nat X - v, rc_buf = st_pos (e, out)\<rparr>"
      unfolding dec_state_def fa(2) sub by simp
    moreover have "rc_range (dec_state F (e, out) rng) = rng" "rc_buf (dec_state F (e, out) rng) = st_pos (e, out)"
      by (simp_all add: dec_state_def)
    ultimately show ?thesis
      using lt code unfolding rc_bit_def Let_def bit_bound_def [symmetric]
      by (cases "dec_state F (e, out) rng") (auto simp: bd_def [symmetric] bit_bound_def [symmetric] v_def r1_def)
  qed
  show "fits F (e, out) rng \<and>
      (\<exists>s1. rc_bit (dec_state F (e, out) rng) p = (b, s1) \<and> normalize F s1 = Some (dec_state F (e', out') rng'))"
    using f s1 n1 by blast
qed

lemma direct_step:
  assumes "encode_direct_bit_with_range wr rng (if b then - 1 else 0) (e, out) = (rng', e', out')"
    and "2 ^ 24 \<le> unat rng" "enc_inv (unat rng) e" "re_res e' = None"
  shows "re_res e = None \<and> enc_inv (unat rng') e' \<and> 2 ^ 24 \<le> unat rng' \<and> re_range e' = re_range e"
    and "fits F (e', out') rng' \<Longrightarrow> fits F (e, out) rng \<and>
      (\<forall>s. normalize F s = Some (dec_state F (e, out) rng) \<longrightarrow>
        (\<exists>s1. dec_direct F s = Some (b, s1) \<and> normalize F s1 = Some (dec_state F (e', out') rng')))"
proof -
  define r1 where "r1 = drop_bit 1 rng"
  define v where "v = (if b then r1 else 0)"
  have half: "unat r1 = unat rng div 2" using unat_drop_bit [of 1 rng] by (simp add: r1_def)
  have r1: "2 ^ 16 \<le> unat r1" "unat v + unat r1 \<le> unat rng"
    using assms(2) half by (auto simp: v_def)
  have nm: "norm_with_range wr r1 (add_low v e, out) = (rng', e', out')"
    using assms(1) unfolding encode_direct_bit_with_range_def Let_def prod.case r1_def [symmetric] add_low_def v_def
    by (cases b) simp_all
  have i: "enc_inv (unat v + unat r1) e" using r1 by (intro enc_inv_mono [OF assms(3)]) auto
  have i1: "enc_inv (unat r1) (add_low v e)" using add_low_inv [OF i] r1(1) by simp
  note ns = norm_step [OF nm i1 r1(1) assms(4)]
  show "re_res e = None \<and> enc_inv (unat rng') e' \<and> 2 ^ 24 \<le> unat rng' \<and> re_range e' = re_range e"
    using ns(1) by simp
  assume "fits F (e', out') rng'"
  from ns(2) [OF this] have f1: "fits F (add_low v e, out) r1"
    and n1: "normalize F (dec_state F (add_low v e, out) r1) = Some (dec_state F (e', out') rng')" by auto
  have r0: "0 < unat r1" using r1(1) by simp
  note fa = fits_add_low [OF f1 i r0]
  have f: "fits F (e, out) rng" using fa(3-5) r1(2) unfolding fits_def by linarith
  define X where "X = be_nat (take (st_pos (e, out)) F) - st_total (e, out)"
  have X: "unat v \<le> X" "X < unat v + unat r1" using fa(3,4) unfolding X_def by linarith+
  have rlt: "unat r1 < 2 ^ 31" using half unat_u32_lt [of rng] by (simp del: unat_u32_lt)
  have X32: "X < 2 ^ 32" using X(2) r1(2) less_le_trans [OF _ order_less_imp_le [OF unat_u32_lt [of rng]]] by simp
  have cX: "unat (of_nat X :: u32) = X" using X32 by (intro unat_of_nat_small) simp
  have bit: "bit (of_nat X - r1 :: u32) 31 \<longleftrightarrow> \<not> b"
  proof (cases b)
    case True
    then have "unat (of_nat X - r1 :: u32) = X - unat r1" using X(1) cX by (simp add: v_def unat_sub word_le_nat_alt)
    then show ?thesis using True X rlt by (simp add: bit_31_nat v_def)
  next
    case False
    then have "of_nat X < r1" using X(2) cX by (simp add: v_def word_less_nat_alt)
    then have "unat (of_nat X - r1 :: u32) = 2 ^ 32 + X - unat r1"
      using cX X32 by (simp add: unat_sub_if' word_less_nat_alt)
    then show ?thesis using False X rlt by (simp add: bit_31_nat)
  qed
  have sub: "(if b then (of_nat X :: u32) - r1 else of_nat X) = of_nat (X - unat v)"
    using X(1) by (auto simp: of_nat_diff v_def)
  have "be_nat (take (st_pos (e, out)) F) - st_total (add_low v e, out) = X - unat v"
    unfolding fa(1) by (simp add: X_def)
  then have d1: "dec_state F (add_low v e, out) r1 = \<lparr>rc_range = r1, rc_code = (if b then of_nat X - r1 else of_nat X), rc_buf = st_pos (e, out)\<rparr>"
    unfolding dec_state_def fa(2) sub by simp
  have d0: "dec_state F (e, out) rng = \<lparr>rc_range = rng, rc_code = of_nat X, rc_buf = st_pos (e, out)\<rparr>"
    by (simp add: dec_state_def X_def)
  have "dec_direct F s = Some (b, dec_state F (add_low v e, out) r1)" if "normalize F s = Some (dec_state F (e, out) rng)" for s
    using bit unfolding dec_direct_def that d0 d1 bind.bind_lunit Let_def rc.select_convs r1_def [symmetric] by simp
  then show "fits F (e, out) rng \<and>
      (\<forall>s. normalize F s = Some (dec_state F (e, out) rng) \<longrightarrow>
        (\<exists>s1. dec_direct F s = Some (b, s1) \<and> normalize F s1 = Some (dec_state F (e', out') rng')))"
    using f n1 by blast
qed

text \<open>An error of the sink stays.\<close>

lemma shift_low_res:
  assumes "shift_low wr (e, out) = (e', out')" "re_res e' = None"
  shows "re_res e = None"
proof -
  define l where "l = (ucast (re_low e) :: u32)"
  define h where "h = (ucast (drop_bit 32 (re_low e)) :: u32)"
  define e1 where "e1 = e\<lparr>re_low := ucast (push_bit 8 l)\<rparr>"
  show ?thesis
  proof (cases "l < 0xFF000000 \<or> h \<noteq> 0")
    case True
    obtain e2 out2 where p: "rc_push wr (ucast (re_cache e1 + h)) (e1, out) = (e2, out2)" by fastforce
    define e3 where "e3 = e2\<lparr>re_cache := drop_bit 24 l\<rparr>"
    have st: "(e', out') = (if re_cache_size e3 = 0 then (e3, out2)
        else push_pending (re_cache_size e3) wr (ucast (h + 0xFF)) (e3, out2))"
      using True p assms(1) unfolding shift_low_def Let_def prod.case l_def [symmetric] h_def [symmetric] e1_def [symmetric]
      by (auto simp: e3_def split: if_splits)
    have "re_res e3 = None"
    proof (cases "re_cache_size e3 = 0")
      case False
      then have "push_pending (re_cache_size e3) wr (ucast (h + 0xFF)) (e3, out2) = (e', out')" using st by simp
      from push_pending_ok [OF this refl] False assms(2) show ?thesis by simp
    qed (use st assms(2) in simp)
    then show ?thesis using rc_push_ok [OF p] by (simp add: e3_def e1_def)
  next
    case False
    then show ?thesis
      using assms unfolding shift_low_def Let_def prod.case l_def [symmetric] h_def [symmetric] by auto
  qed
qed

lemma norm_res: "norm_with_range wr rng st = (rng', e', out') \<Longrightarrow> re_res e' = None \<Longrightarrow> re_res (fst st) = None"
  using shift_low_res [of "fst st" "snd st" e' out'] by (auto simp: norm_with_range_def split: if_splits)

lemma encode_bit_res:
  assumes "encode_bit_with_range wr rng p b (e, out) = (rng', p', e', out')" "re_res e' = None"
  shows "re_res e = None"
proof -
  define nb where "nb = drop_bit K_NUM_BIT_MODEL_TOTAL_BITS rng * ucast p"
  have "norm_with_range wr (if b = 0 then nb else rng - nb) (add_low (nb AND (0 - b)) e, out) = (rng', e', out')"
    using assms(1) unfolding encode_bit_with_range_def Let_def prod.case nb_def [symmetric] add_low_def norm_with_range_def
    by (auto split: if_splits)
  from norm_res [OF this assms(2)] show ?thesis by simp
qed

lemma encode_at_res:
  "encode_at wr probs i rng b (e, out) = Some (probs', rng', e', out') \<Longrightarrow> re_res e' = None \<Longrightarrow> re_res e = None"
  by (auto simp: encode_at_def split: bind_splits prod.splits dest: encode_bit_res)

lemma direct_res:
  "encode_direct_bit_with_range wr rng a (e, out) = (rng', e', out') \<Longrightarrow> re_res e' = None \<Longrightarrow> re_res e = None"
  unfolding encode_direct_bit_with_range_def Let_def prod.case by (drule norm_res) auto

lemma enc_prog_res:
  "enc_prog wr p bs probs rng (e, out) = Some (x, bs', probs', rng', e', out') \<Longrightarrow> re_res e' = None \<Longrightarrow> re_res e = None"
proof (induction p arbitrary: bs probs rng e out)
  case (Bit i k)
  then show ?case by (fastforce split: list.splits bind_splits dest: encode_at_res)
next
  case (Direct k)
  then show ?case by (fastforce split: list.splits prod.splits dest: direct_res)
qed simp

lemma enc_prog_inv:
  assumes "enc_prog wr p bs probs rng (e, out) = Some (x, bs', probs', rng', e', out')"
    and "probs_ok probs" "2 ^ 24 \<le> unat rng" "enc_inv (unat rng) e" "re_res e' = None"
  shows "probs_ok probs' \<and> length probs' = length probs \<and> 2 ^ 24 \<le> unat rng' \<and> enc_inv (unat rng') e' \<and> re_res e = None \<and>
    re_range e' = re_range e \<and>
    (fits F (e', out') rng' \<longrightarrow> fits F (e, out) rng \<and>
      (\<forall>s. normalize F s = Some (dec_state F (e, out) rng) \<longrightarrow>
        (\<exists>s'. bp_run F p probs s = Some (x, probs', s') \<and> normalize F s' = Some (dec_state F (e', out') rng'))))"
  using assms
proof (induction p arbitrary: bs probs rng e out)
  case (Bit i k)
  obtain b bs1 where bs: "bs = b # bs1" using Bit.prems(1) by (cases bs) auto
  obtain pr1 rng1 e1 out1 where s1: "encode_at wr probs i rng (of_bool b) (e, out) = Some (pr1, rng1, e1, out1)"
    and rest: "enc_prog wr (k b) bs1 pr1 rng1 (e1, out1) = Some (x, bs', probs', rng', e', out')"
    using Bit.prems(1) by (auto simp: bs split: bind_splits)
  obtain p' where i: "i < length probs" and eb: "encode_bit_with_range wr rng (probs ! i) (of_bool b) (e, out) = (rng1, p', e1, out1)"
    and pr1: "pr1 = probs[i := p']"
    using s1 by (auto simp: encode_at_def get_at_def split: bind_splits if_splits prod.splits)
  have ok: "prob_ok (probs ! i)" using Bit.prems(2) i by (simp add: list_all_length)
  have res1: "re_res e1 = None" by (rule enc_prog_res [OF rest Bit.prems(5)])
  note st = bit_step [OF eb ok Bit.prems(3,4) res1]
  have pr: "pr1 = probs[i := prob_update (probs ! i) b]" using st(1) pr1 by simp
  have pok: "probs_ok pr1" unfolding pr by (rule probs_ok_update [OF Bit.prems(2) i])
  note ih = Bit.IH [OF rangeI rest pok _ _ Bit.prems(5)]
  have ihc: "probs_ok probs' \<and> length probs' = length pr1 \<and> 2 ^ 24 \<le> unat rng' \<and> enc_inv (unat rng') e' \<and> re_range e' = re_range e1 \<and>
      (fits F (e', out') rng' \<longrightarrow> fits F (e1, out1) rng1 \<and>
      (\<forall>s. normalize F s = Some (dec_state F (e1, out1) rng1) \<longrightarrow>
        (\<exists>s'. bp_run F (k b) pr1 s = Some (x, probs', s') \<and> normalize F s' = Some (dec_state F (e', out') rng'))))"
    using ih st(1) by simp
  have dec: "\<exists>s'. bp_run F (Bit i k) probs s = Some (x, probs', s') \<and> normalize F s' = Some (dec_state F (e', out') rng')"
    if fin: "fits F (e', out') rng'" and s: "normalize F s = Some (dec_state F (e, out) rng)" for s
  proof -
    obtain s1 where s1: "rc_bit (dec_state F (e, out) rng) (probs ! i) = (b, s1)" "normalize F s1 = Some (dec_state F (e1, out1) rng1)"
      using st(2) ihc fin by blast
    have "dec_bit F probs i s = Some (b, pr1, s1)" using i s s1(1) by (simp add: dec_bit_eq pr)
    then show ?thesis using ihc fin s1(2) by simp
  qed
  show ?case using ihc st dec pr by auto
next
  case (Direct k)
  obtain b bs1 where bs: "bs = b # bs1" using Direct.prems(1) by (cases bs) auto
  obtain rng1 e1 out1 where s1: "encode_direct_bit_with_range wr rng (if b then - 1 else 0) (e, out) = (rng1, e1, out1)"
    and rest: "enc_prog wr (k b) bs1 probs rng1 (e1, out1) = Some (x, bs', probs', rng', e', out')"
    using Direct.prems(1) by (auto simp: bs split: prod.splits)
  have res1: "re_res e1 = None" by (rule enc_prog_res [OF rest Direct.prems(5)])
  note st = direct_step [OF s1 Direct.prems(3,4) res1]
  have ihc: "probs_ok probs' \<and> length probs' = length probs \<and> 2 ^ 24 \<le> unat rng' \<and> enc_inv (unat rng') e' \<and> re_range e' = re_range e1 \<and>
      (fits F (e', out') rng' \<longrightarrow> fits F (e1, out1) rng1 \<and>
      (\<forall>s. normalize F s = Some (dec_state F (e1, out1) rng1) \<longrightarrow>
        (\<exists>s'. bp_run F (k b) probs s = Some (x, probs', s') \<and> normalize F s' = Some (dec_state F (e', out') rng'))))"
    using Direct.IH [OF rangeI rest Direct.prems(2) _ _ Direct.prems(5)] st(1) by simp
  have dec: "\<exists>s'. bp_run F (Direct k) probs s = Some (x, probs', s') \<and> normalize F s' = Some (dec_state F (e', out') rng')"
    if fin: "fits F (e', out') rng'" and s: "normalize F s = Some (dec_state F (e, out) rng)" for s
  proof -
    obtain s1 where s1: "dec_direct F s = Some (b, s1)" "normalize F s1 = Some (dec_state F (e1, out1) rng1)"
      using st(2) ihc fin s by blast
    then show ?thesis using ihc fin by simp
  qed
  show ?case using ihc st dec by auto
qed auto

subsection \<open>Flushing\<close>

lemma shift_low_zero:
  assumes "shift_low wr (e, out) = (e', out')" "re_low e = 0"
  shows "re_low e' = 0 \<and> re_cache e' = 0 \<and> re_cache_size e' = 0"
proof -
  obtain e2 out2 where p: "rc_push wr (ucast (re_cache e)) (e\<lparr>re_low := 0\<rparr>, out) = (e2, out2)" by fastforce
  define e3 where "e3 = e2\<lparr>re_cache := 0\<rparr>"
  have st: "(e', out') = (if re_cache_size e3 = 0 then (e3, out2) else push_pending (re_cache_size e3) wr (ucast (0xFF :: u32)) (e3, out2))"
    using p assms unfolding shift_low_def Let_def prod.case by (auto simp: e3_def split: if_splits)
  have e3: "re_low e3 = 0" "re_cache e3 = 0" using rc_push_ok [OF p] by (simp_all add: e3_def same_coder_state_def)
  show ?thesis
  proof (cases "re_cache_size e3 = 0")
    case False
    then have "push_pending (re_cache_size e3) wr (ucast (0xFF :: u32)) (e3, out2) = (e', out')" using st by simp
    from push_pending_ok [OF this refl] False e3 show ?thesis by (simp add: same_coder_state_def)
  qed (use st e3 in simp)
qed

lemma shift_low_times:
  assumes "(shift_low wr ^^ n) (e, out) = (e', out')" "enc_inv 1 e" "re_res e' = None"
  shows "re_res e = None \<and> enc_inv 1 e' \<and> st_total (e', out') = 256 ^ n * st_total (e, out) \<and> st_pos (e', out') = st_pos (e, out) + n \<and>
    (0 < n \<longrightarrow> unat (re_low e') = 256 ^ n * unat (re_low e) mod 2 ^ 32)"
  using assms(1,3)
proof (induction n arbitrary: e' out')
  case 0
  then show ?case using assms(2) by simp
next
  case (Suc n)
  obtain e1 out1 where n: "(shift_low wr ^^ n) (e, out) = (e1, out1)" by fastforce
  then have sh: "shift_low wr (e1, out1) = (e', out')" using Suc.prems(1) by simp
  note ih = Suc.IH [OF n shift_low_res [OF sh Suc.prems(2)]]
  have i1: "enc_inv 1 e1" using ih by blast
  have "(1 :: nat) < 2 ^ 24" by simp
  note ok = shift_low_ok [OF sh i1 this Suc.prems(2)]
  have "enc_inv (256 * 1) e'" using ok by blast
  then have inv: "enc_inv 1 e'" by (rule enc_inv_mono) simp_all
  have res: "re_res e = None" using ih by blast
  have l1: "unat (re_low e') = 256 * unat (re_low e1) mod 2 ^ 32" using ok by blast
  have low: "unat (re_low e') = 256 ^ Suc n * unat (re_low e) mod 2 ^ 32"
  proof (cases "n = 0")
    case True
    then show ?thesis using n l1 by simp
  next
    case False
    then have "unat (re_low e1) = 256 ^ n * unat (re_low e) mod 2 ^ 32" using ih by blast
    then show ?thesis unfolding l1 power_Suc mult.assoc by (simp only: mod_mult_right_eq)
  qed
  have "st_total (e', out') = 256 * st_total (e1, out1)" "st_pos (e', out') = st_pos (e1, out1) + 1"
    using ok unfolding st_total_def st_pos_def by simp_all
  moreover have "st_total (e1, out1) = 256 ^ n * st_total (e, out)" "st_pos (e1, out1) = st_pos (e, out) + n"
    using ih by blast+
  ultimately have "st_total (e', out') = 256 ^ Suc n * st_total (e, out)" "st_pos (e', out') = st_pos (e, out) + Suc n" by simp_all
  then show ?case using res inv low by blast
qed

text \<open>Five shifts empty the encoder: the stream is the number it stood for.\<close>

lemma flush_data_ok:
  assumes "flush_data wr (e, out) = (e', out')" "enc_inv r e" "re_res e' = None" "0 < unat rng"
  shows "be_nat (produced (e', out')) = st_total (e, out) \<and> length (produced (e', out')) = st_pos (e, out) \<and>
    fits (produced (e', out')) (e, out) rng \<and>
    dec_state (produced (e', out')) (e, out) rng = \<lparr>rc_range = rng, rc_code = 0, rc_buf = length (produced (e', out'))\<rparr>"
proof -
  obtain e4 out4 where n4: "(shift_low wr ^^ 4) (e, out) = (e4, out4)" by fastforce
  have "flush_data wr (e, out) = shift_low wr ((shift_low wr ^^ 4) (e, out))"
    unfolding flush_data_def using funpow.simps(2) [of 4 "shift_low wr"] by simp
  then have sh: "shift_low wr (e4, out4) = (e', out')" using assms(1) n4 by simp
  have inv: "enc_inv 1 e" using assms(2) by (intro enc_inv_mono [OF assms(2)]) (auto simp: enc_inv_def)
  note t4 = shift_low_times [OF n4 inv shift_low_res [OF sh assms(3)]]
  have "unat (re_low e4) = 256 ^ 4 * unat (re_low e) mod 2 ^ 32" using t4 by (elim conjE) (drule mp, simp, assumption)
  also have "\<dots> = 0" by simp
  finally have "re_low e4 = 0" by (simp only: unat_eq_0)
  note z = shift_low_zero [OF sh this]
  have i4: "enc_inv 1 e4" and t4': "st_total (e4, out4) = 256 ^ 4 * st_total (e, out)" "st_pos (e4, out4) = st_pos (e, out) + 4"
    using t4 by blast+
  have ok: "st_total (e', out') = 256 * st_total (e4, out4)" "st_pos (e', out') = st_pos (e4, out4) + 1"
    using shift_low_ok [OF sh i4 _ assms(3)] by (simp_all add: st_total_def st_pos_def)
  have "be_nat (produced (e', out')) * 2 ^ 40 = st_total (e, out) * 2 ^ 40"
    using ok(1) z unfolding t4' st_total_def [of "(e', out')"] enc_total_def by simp
  then have be: "be_nat (produced (e', out')) = st_total (e, out)" by simp
  have len: "length (produced (e', out')) = st_pos (e, out)" using ok(2) z unfolding t4' by (simp add: st_pos_def)
  show ?thesis using be len assms(4) by (simp add: fits_def dec_state_def)
qed

end

end
