(* ===== verification/RangeTrees.thy ===== *)
theory RangeTrees
  imports RangeRound LzmaSymbol
begin

text \<open>
  The encoder's tree routines (\<open>LitEnc_Encode\<close>, \<open>LitEnc_EncodeMatched\<close>, \<open>LenEnc_Encode\<close>) encode the
  path of their symbol in the decision tree the decoder walks, and the round trips this gives.
\<close>

subsection \<open>Paths\<close>

definition path_bits :: "nat \<Rightarrow> nat \<Rightarrow> bool list" where
  "path_bits k v = map (\<lambda>i. bit v (k - 1 - i)) [0..<k]"

lemma path_bits_0 [simp]: "path_bits 0 v = []"
  by (simp add: path_bits_def)

lemma path_bits_Suc [simp]: "path_bits (Suc k) v = bit v k # path_bits k v"
proof -
  have "[0..<Suc k] = 0 # map Suc [0..<k]" by (simp add: upt_conv_Cons map_Suc_upt del: upt_Suc)
  then show ?thesis by (simp add: path_bits_def del: upt_Suc)
qed

lemma path_bits_mod: "path_bits k (v mod 2 ^ k) = path_bits k v"
  unfolding path_bits_def take_bit_eq_mod [symmetric] by (auto simp: bit_take_bit_iff)

abbreviation enc_res :: "('a \<times> bool list \<times> u16 list \<times> u32 \<times> rcenc \<times> 'o) option \<Rightarrow> (u16 list \<times> u32 \<times> rcenc \<times> 'o) option" where
  "enc_res \<equiv> map_option (\<lambda>(x, bs, r). r)"

lemma div_pow_Suc: "v div 2 ^ k = 2 * (v div 2 ^ Suc k) + of_bool (bit v k)" for v :: nat
proof -
  have "v div 2 ^ k = 2 * (v div 2 ^ k div 2) + of_bool (odd (v div 2 ^ k))"
    by (cases "odd (v div 2 ^ k)") (auto elim: oddE evenE)
  then show ?thesis by (simp only: bit_iff_odd power_Suc2 div_mult2_eq)
qed

lemma lit_indices:
  assumes "v < 0x200" "1 \<le> k" "k \<le> 8"
  shows "unat (drop_bit 8 (of_nat (v * 2 ^ (8 - k)) :: u32)) = v div 2 ^ k"
    and "drop_bit 7 (of_nat (v * 2 ^ (8 - k)) :: u32) AND 1 = of_bool (bit v (k - 1))"
    and "push_bit 1 (of_nat (v * 2 ^ (8 - k)) :: u32) = of_nat (v * 2 ^ (8 - (k - 1)))"
proof -
  have le: "v * 2 ^ (8 - k) < 2 ^ 17"
  proof -
    have "(2::nat) ^ (8 - k) \<le> 2 ^ 7" using assms(2) by (intro power_increasing) auto
    then have "v * 2 ^ (8 - k) \<le> v * 2 ^ 7" by (rule mult_le_mono2)
    also have "\<dots> < 2 ^ 17" using assms(1) by simp
    finally show ?thesis .
  qed
  then have u: "unat (of_nat (v * 2 ^ (8 - k)) :: u32) = v * 2 ^ (8 - k)" by (intro unat_of_nat_small) simp
  have p8: "(2::nat) ^ 8 = 2 ^ (8 - k) * 2 ^ k" using assms(3) by (simp add: power_add [symmetric])
  show "unat (drop_bit 8 (of_nat (v * 2 ^ (8 - k)) :: u32)) = v div 2 ^ k"
    unfolding unat_drop_bit u p8 by simp
  have p7: "(2::nat) ^ 7 = 2 ^ (8 - k) * 2 ^ (k - 1)" using assms(2,3) by (simp add: power_add [symmetric])
  have "bit (of_nat (v * 2 ^ (8 - k)) :: u32) 7 \<longleftrightarrow> odd (v * 2 ^ (8 - k) div 2 ^ 7)"
    by (metis bit_unat bit_iff_odd u)
  also have "\<dots> \<longleftrightarrow> bit v (k - 1)" unfolding p7 by (simp add: bit_iff_odd)
  finally show "drop_bit 7 (of_nat (v * 2 ^ (8 - k)) :: u32) AND 1 = of_bool (bit v (k - 1))"
    by (simp add: and_one_eq mod_2_eq_odd bit_iff_odd_drop_bit)
  have "8 - (k - 1) = Suc (8 - k)" using assms(2,3) by simp
  then show "push_bit 1 (of_nat (v * 2 ^ (8 - k)) :: u32) = of_nat (v * 2 ^ (8 - (k - 1)))"
    by (simp add: push_bit_eq_mult)
qed

lemma lit_stop:
  assumes "0x100 \<le> v" "v < 0x200"
  shows "0x10000 \<le> (of_nat (v * 2 ^ (8 - k)) :: u32) \<longleftrightarrow> k = 0"
proof (cases "k = 0")
  case False
  then have "(2::nat) ^ (8 - k) \<le> 2 ^ 7" by (intro power_increasing) auto
  then have "v * 2 ^ (8 - k) \<le> v * 2 ^ 7" by (rule mult_le_mono2)
  also have "v * 2 ^ 7 < 2 ^ 16" using assms(2) by simp
  finally have "v * 2 ^ (8 - k) < 2 ^ 16" .
  then have "unat (of_nat (v * 2 ^ (8 - k)) :: u32) = v * 2 ^ (8 - k)" by (intro unat_of_nat_small) simp
  then show ?thesis using \<open>v * 2 ^ (8 - k) < 2 ^ 16\<close> False unfolding word_le_nat_alt by simp
next
  case True
  then have "unat (of_nat (v * 2 ^ (8 - k)) :: u32) = v * 256" using assms(2) by (subst unat_of_nat_small) simp_all
  then show ?thesis using True assms(1) unfolding word_le_nat_alt by simp
qed

lemma lit_loop_path:
  assumes "0x100 \<le> v" "v < 0x200" "1 \<le> k" "k \<le> 8"
  shows "lit_encode_loop wr probs (of_nat (v * 2 ^ (8 - k))) rng st =
    enc_res (enc_prog wr (tree_prog k 0 (of_nat (v div 2 ^ k))) (path_bits k v) probs rng st)"
  using assms(3,4)
proof (induction k arbitrary: probs rng st)
  case (Suc k)
  note ix = lit_indices [OF assms(2) Suc.prems]
  have node: "(of_nat (v div 2 ^ Suc k) :: u32) + of_nat (v div 2 ^ Suc k) + of_bool (bit v k) = of_nat (v div 2 ^ k)"
    unfolding div_pow_Suc [of v k] by simp
  have nlt: "v div 2 ^ Suc k < 2 ^ 32" using le_less_trans [OF div_le_dividend [of v "2 ^ Suc k"] assms(2)] by simp
  then have un: "unat (of_nat (v div 2 ^ Suc k) :: u32) = v div 2 ^ Suc k" by (intro unat_of_nat_small) simp
  note stop = lit_stop [OF assms(1,2)]
  define w where "w = (of_nat (v * 2 ^ (8 - Suc k)) :: u32)"
  define x where "x = (of_nat (v div 2 ^ Suc k) :: u32)"
  have w: "unat (drop_bit 8 w) = v div 2 ^ Suc k" "drop_bit 7 w AND 1 = of_bool (bit v k)" "push_bit 1 w = of_nat (v * 2 ^ (8 - k))"
    using ix unfolding w_def diff_Suc_1 by blast+
  have x: "unat x = v div 2 ^ Suc k" "x + x + of_bool (bit v k) = of_nat (v div 2 ^ k)" using un node by (simp_all only: x_def)
  have step: "(if k = 0 then Some (pr, rg, s) else lit_encode_loop wr pr (of_nat (v * 2 ^ (8 - k))) rg s) =
      enc_res (enc_prog wr (tree_prog k 0 (of_nat (v div 2 ^ k))) (path_bits k v) pr rg s)" for pr rg s
    using Suc.IH [of pr rg s] Suc.prems(2) by (cases "k = 0") (auto simp: path_bits_0)
  show ?case
    unfolding w_def [symmetric] x_def [symmetric] path_bits_Suc tree_prog.simps enc_prog.simps list.case
    by (subst lit_encode_loop.simps)
       (auto simp only: Let_def w x stop step add_0 split: bind_splits)
qed simp

lemma unat_or_0x100: "unat sy < 256 \<Longrightarrow> unat (sy OR 0x100) = unat sy + 256" for sy :: u32
proof -
  assume a: "unat sy < 256"
  then have s: "take_bit 8 sy = sy" by (intro word_eq_unatI) (simp add: unsigned_take_bit_eq take_bit_nat_eq_self)
  have "sy AND 0x100 = 0"
  proof (rule bit_word_eqI)
    fix n
    have "bit sy n \<Longrightarrow> n < 8" by (metis s bit_take_bit_iff)
    moreover have "bit (0x100 :: u32) n \<Longrightarrow> n = 8" using bit_exp_iff [of 8 n, where 'a = "32 word"] by simp
    ultimately show "bit (sy AND 0x100) n = bit (0 :: u32) n" by (auto simp: bit_and_iff)
  qed
  then have "sy OR 0x100 = sy + 0x100" by (rule disjunctive_add_eq_or [symmetric])
  then show ?thesis using a by (simp add: unat_word_ariths)
qed

lemma lit_encode_path:
  assumes "unat sy < 256"
  shows "lit_encode wr probs sy (e, out) = map_option (\<lambda>(x, bs, probs, rng, e, out). (probs, e\<lparr>re_range := rng\<rparr>, out))
    (enc_prog wr (tree_prog 8 0 1) (path_bits 8 (unat sy)) probs (re_range e) (e, out))"
proof -
  have u: "sy OR 0x100 = of_nat (unat sy + 256)" unfolding unat_or_0x100 [OF assms, symmetric] by simp
  have d: "(unat sy + 256) div 2 ^ 8 = 1" using assms by simp
  have b: "path_bits 8 (unat sy + 256) = path_bits 8 (unat sy)"
    using path_bits_mod [of 8 "unat sy + 256"] assms by simp
  show ?thesis
    using lit_loop_path [of "unat sy + 256" 8 wr probs "re_range e" "(e, out)"] assms
    unfolding lit_encode_def prod.case u d b
    by (cases "enc_prog wr (tree_prog 8 0 1) (path_bits 8 (unat sy)) probs (re_range e) (e, out)") (auto simp: d)
qed

subsection \<open>Matched literals\<close>

lemma matched_offs:
  fixes offs mb y :: u32
  assumes "offs = 0 \<or> offs = 0x100" "bit y 8 = b"
  shows "offs AND NOT (mb XOR y) = (if b then offs AND mb else (offs AND mb) XOR offs)"
proof (cases "offs = 0x100")
  case True
  have "bit (NOT (mb XOR y)) 8 \<longleftrightarrow> (bit mb 8 = b)"
    unfolding bit_not_iff bit_xor_iff assms(2) by auto
  then show ?thesis
    unfolding True and_0x100 by (cases "bit mb 8"; cases b) (simp_all only: if_True if_False xor_self_eq simp_thms xor.left_neutral)
next
  case False
  then have "offs = 0" using assms(1) by blast
  then show ?thesis by simp
qed

lemma matched_loop_path:
  assumes "0x100 \<le> v" "v < 0x200" "1 \<le> k" "k \<le> 8" "offs = 0 \<or> offs = 0x100"
  shows "lit_matched_loop wr probs offs (of_nat (v * 2 ^ (8 - k))) mb rng st =
    enc_res (enc_prog wr (matched_prog k 0 (of_nat (v div 2 ^ k)) mb offs) (path_bits k v) probs rng st)"
  using assms(3-5)
proof (induction k arbitrary: probs rng st mb offs)
  case (Suc k)
  note ix = lit_indices [OF assms(2) Suc.prems(1,2)]
  define w where "w = (of_nat (v * 2 ^ (8 - Suc k)) :: u32)"
  define x where "x = (of_nat (v div 2 ^ Suc k) :: u32)"
  have "unat x = v div 2 ^ Suc k"
    unfolding x_def by (intro unat_of_nat_small le_less_trans [OF div_le_dividend [of v "2 ^ Suc k"]]) (use assms(2) in simp)
  then have x: "x = drop_bit 8 w" using ix(1) unfolding w_def by (metis word_eq_unatI)
  have node: "x + x + of_bool (bit v k) = of_nat (v div 2 ^ k)"
    unfolding div_pow_Suc [of v k] by (simp add: x_def)
  have w: "drop_bit 7 w AND 1 = of_bool (bit v k)" "push_bit 1 w = of_nat (v * 2 ^ (8 - k))"
    using ix unfolding w_def diff_Suc_1 by blast+
  have b8: "bit (of_nat (v * 2 ^ (8 - k)) :: u32) 8 = bit v k"
  proof -
    have "bit w 7 = bit v k"
      using arg_cong [OF w(1), of "\<lambda>z. z = 0"] by (simp add: and_one_eq mod_2_eq_odd bit_iff_odd_drop_bit split: if_splits)
    then show ?thesis unfolding w(2) [symmetric] bit_push_bit_iff by simp
  qed
  define mb2 where "mb2 = mb + mb"
  define offs2 where "offs2 = (if bit v k then offs AND mb2 else (offs AND mb2) XOR offs)"
  have offs: "offs AND NOT (mb2 XOR of_nat (v * 2 ^ (8 - k))) = offs2" "offs2 = 0 \<or> offs2 = 0x100"
    using matched_offs [OF Suc.prems(3) b8, of mb2] Suc.prems(3)
    by (cases "bit mb2 8"; auto simp: offs2_def and_0x100)+
  have step: "(if k = 0 then Some (pr, rg, s) else lit_matched_loop wr pr offs2 (of_nat (v * 2 ^ (8 - k))) mb2 rg s) =
      enc_res (enc_prog wr (matched_prog k 0 (of_nat (v div 2 ^ k)) mb2 offs2) (path_bits k v) pr rg s)" for pr rg s
    using Suc.IH [of offs2 pr mb2 rg s] Suc.prems(2) offs(2) by (cases "k = 0") (auto simp: path_bits_0)
  have i: "offs + (mb2 AND offs) + x = (offs AND mb2) + offs + x" by (simp add: and.commute add.commute)
  have p: "push_bit 1 mb = mb2" by (simp add: mb2_def)
  show ?case
    unfolding w_def [symmetric] x_def [symmetric] path_bits_Suc matched_prog.simps enc_prog.simps list.case mb2_def [symmetric]
      offs2_def [symmetric] node
    by (subst lit_matched_loop.simps)
       (auto simp only: Let_def w p x [symmetric] i lit_stop [OF assms(1,2)] offs step add_0 split: bind_splits)
qed simp

lemma lit_encode_matched_path:
  assumes "unat sy < 256"
  shows "lit_encode_matched wr probs sy mb (e, out) = map_option (\<lambda>(x, bs, probs, rng, e, out). (probs, e\<lparr>re_range := rng\<rparr>, out))
    (enc_prog wr (matched_prog 8 0 1 mb 0x100) (path_bits 8 (unat sy)) probs (re_range e) (e, out))"
proof -
  have u: "sy OR 0x100 = of_nat (unat sy + 256)" unfolding unat_or_0x100 [OF assms, symmetric] by simp
  have d: "(unat sy + 256) div 2 ^ 8 = 1" using assms by simp
  have b: "path_bits 8 (unat sy + 256) = path_bits 8 (unat sy)"
    using path_bits_mod [of 8 "unat sy + 256"] assms by simp
  show ?thesis
    using matched_loop_path [of "unat sy + 256" 8 "0x100" wr probs mb "re_range e" "(e, out)"] assms
    unfolding lit_encode_matched_def prod.case u d b
    by (cases "enc_prog wr (matched_prog 8 0 1 mb 0x100) (path_bits 8 (unat sy)) probs (re_range e) (e, out)") (auto simp: d)
qed

subsection \<open>The symbol at the end of a path\<close>

lemma enc_tree_result:
  assumes "enc_prog wr (tree_prog k base y) (path_bits k v) probs rng st = Some (x, bs, r)"
  shows "x = y * 2 ^ k + of_nat (v mod 2 ^ k) \<and> bs = []"
  using assms
proof (induction k arbitrary: y probs rng st)
  case (Suc k)
  have "x = (y + y + of_bool (bit v k)) * 2 ^ k + of_nat (v mod 2 ^ k) \<and> bs = []"
    using Suc.prems by (auto split: bind_splits dest!: Suc.IH)
  moreover have "v mod 2 ^ Suc k = of_bool (bit v k) * 2 ^ k + v mod 2 ^ k"
    using mod_mult2_eq [of v "2 ^ k" 2] by (simp only: power_Suc2) (simp add: bit_iff_odd mod_2_eq_odd)
  ultimately show ?case by (simp add: algebra_simps)
qed simp

lemma enc_matched_result:
  assumes "enc_prog wr (matched_prog k base y mb offs) (path_bits k v) probs rng st = Some (x, bs, r)"
  shows "x = y * 2 ^ k + of_nat (v mod 2 ^ k) \<and> bs = []"
  using assms
proof (induction k arbitrary: y mb offs probs rng st)
  case (Suc k)
  have "x = (y + y + of_bool (bit v k)) * 2 ^ k + of_nat (v mod 2 ^ k) \<and> bs = []"
    using Suc.prems by (auto split: bind_splits dest!: Suc.IH)
  moreover have "v mod 2 ^ Suc k = of_bool (bit v k) * 2 ^ k + v mod 2 ^ k"
    using mod_mult2_eq [of v "2 ^ k" 2] by (simp only: power_Suc2) (simp add: bit_iff_odd mod_2_eq_odd)
  ultimately show ?case by (simp add: algebra_simps)
qed simp

lemma encode_at_probs:
  assumes "encode_at wr probs i rng (of_bool b) st = Some (probs', r)" "probs_ok probs"
  shows "probs_ok probs'"
proof -
  obtain e out where st: "st = (e, out)" by fastforce
  have i: "i < length probs" using assms(1) by (auto simp: encode_at_def get_at_def split: bind_splits if_splits)
  show ?thesis
    using assms(1) i probs_ok_update [OF assms(2) i, of b] encode_bit_eq [OF prob_ok_2048 [OF assms(2) i], of wr rng b e out]
    unfolding st by (auto simp: encode_at_def get_at_def split: prod.splits)
qed

lemma map_bind: "map_option f (x \<bind> g) = x \<bind> (\<lambda>y. map_option f (g y))"
  by (cases x) simp_all

subsection \<open>The range kept in the coder\<close>

text \<open>A group of bits runs on a local range; the one in the coder is only stored at its end.\<close>

abbreviation with_range :: "u32 \<Rightarrow> rcenc \<times> 'o \<Rightarrow> rcenc \<times> 'o" where
  "with_range r \<equiv> apfst (\<lambda>e. e\<lparr>re_range := r\<rparr>)"

lemma update_re_range:
  "e\<lparr>re_range := r, re_low := x\<rparr> = e\<lparr>re_low := x, re_range := r\<rparr>"
  "e\<lparr>re_range := r, re_buf := y\<rparr> = e\<lparr>re_buf := y, re_range := r\<rparr>"
  "e\<lparr>re_range := r, re_res := z\<rparr> = e\<lparr>re_res := z, re_range := r\<rparr>"
  "e\<lparr>re_range := r, re_cache := c\<rparr> = e\<lparr>re_cache := c, re_range := r\<rparr>"
  "e\<lparr>re_range := r, re_cache_size := n\<rparr> = e\<lparr>re_cache_size := n, re_range := r\<rparr>"
  "e\<lparr>re_range := r, re_processed := n\<rparr> = e\<lparr>re_processed := n, re_range := r\<rparr>"
  by simp_all

lemma flush_stream_range: "flush_stream wr (with_range r st) = with_range r (flush_stream wr st)"
  by (cases st) (auto simp: flush_stream_def Let_def split: option.splits prod.splits)

lemma rc_push_range: "rc_push wr b (with_range r st) = with_range r (rc_push wr b st)"
proof (cases st)
  case (Pair e out)
  show ?thesis
    using flush_stream_range [of wr r "(e\<lparr>re_buf := re_buf e @ [b]\<rparr>, out)"]
    by (simp add: Pair rc_push_def Let_def update_re_range del: rcenc.update_convs)
qed

lemma push_pending_range: "push_pending n wr b (with_range r st) = with_range r (push_pending n wr b st)"
proof (induction n arbitrary: st)
  case (Suc n)
  obtain e out where p: "rc_push wr b st = (e, out)" by fastforce
  show ?case
    using Suc.IH [of "(e\<lparr>re_cache_size := re_cache_size e - 1\<rparr>, out)"]
    by (cases e) (simp add: rc_push_range p Let_def)
qed simp

lemma shift_low_range: "shift_low wr (with_range r st) = with_range r (shift_low wr st)"
proof -
  obtain e out where st: "st = (e, out)" by fastforce
  define l where "l = (ucast (re_low e) :: u32)"
  define h where "h = (ucast (drop_bit 32 (re_low e)) :: u32)"
  define e1 where "e1 = e\<lparr>re_low := ucast (push_bit 8 l)\<rparr>"
  obtain e2 out2 where p: "rc_push wr (ucast (re_cache e + h)) (e1, out) = (e2, out2)" by fastforce
  have p': "rc_push wr (ucast (re_cache e + h)) (e1\<lparr>re_range := r\<rparr>, out) = (e2\<lparr>re_range := r\<rparr>, out2)"
    using rc_push_range [of wr _ r "(e1, out)"] p by simp
  have e: "re_low (e\<lparr>re_range := r\<rparr>) = re_low e" "re_cache (e1\<lparr>re_range := r\<rparr>) = re_cache e" "re_cache e1 = re_cache e"
    "e\<lparr>re_range := r, re_low := ucast (push_bit 8 l)\<rparr> = e1\<lparr>re_range := r\<rparr>"
    "e1\<lparr>re_range := r, re_cache_size := re_cache_size (e1\<lparr>re_range := r\<rparr>) + 1\<rparr> = e1\<lparr>re_cache_size := re_cache_size e1 + 1, re_range := r\<rparr>"
    "re_cache_size (e2\<lparr>re_range := r, re_cache := drop_bit 24 l\<rparr>) = re_cache_size e2"
    "re_cache_size (e2\<lparr>re_cache := drop_bit 24 l\<rparr>) = re_cache_size e2"
    "re_cache_size (e2\<lparr>re_cache := drop_bit 24 l, re_range := r\<rparr>) = re_cache_size e2"
    "e2\<lparr>re_range := r, re_cache := drop_bit 24 l\<rparr> = e2\<lparr>re_cache := drop_bit 24 l, re_range := r\<rparr>"
    by (simp_all add: e1_def)
  have pp: "push_pending (re_cache_size e2) wr (ucast (h + 0xFF)) (e2\<lparr>re_cache := drop_bit 24 l, re_range := r\<rparr>, out2) =
      with_range r (push_pending (re_cache_size e2) wr (ucast (h + 0xFF)) (e2\<lparr>re_cache := drop_bit 24 l\<rparr>, out2))"
    using push_pending_range [of "re_cache_size e2" wr "ucast (h + 0xFF)" r "(e2\<lparr>re_cache := drop_bit 24 l\<rparr>, out2)"]
    by (simp only: apfst_conv)
  show ?thesis
    unfolding st apfst_conv shift_low_def prod.case Let_def e(1) l_def [symmetric] h_def [symmetric] e1_def [symmetric] e(2-4) p p' e(5-) pp
    by (simp only: if_distrib [of "with_range r"] apfst_conv e(5-) pp)
qed

lemma norm_range:
  "norm_with_range wr rng (with_range r st) = apsnd (with_range r) (norm_with_range wr rng st)"
  by (simp add: norm_with_range_def shift_low_range)

lemma add_low_range: "add_low v (e\<lparr>re_range := r\<rparr>) = (add_low v e)\<lparr>re_range := r\<rparr>"
  by (simp add: add_low_def)

lemma encode_at_range:
  assumes "probs_ok probs"
  shows "encode_at wr probs i rng (of_bool b) (with_range r st) =
    map_option (apsnd (apsnd (with_range r))) (encode_at wr probs i rng (of_bool b) st)"
proof -
  obtain e out where st: "st = (e, out)" by fastforce
  show ?thesis
    unfolding st apfst_conv encode_at_def get_at_def
    using norm_range [of wr _ r "(add_low _ e, out)"]
    by (simp add: encode_bit_eq prob_ok_2048 [OF assms] add_low_range split_def Let_def apsnd_def map_prod_def del: of_bool_eq_iff)
qed

lemma direct_range:
  "encode_direct_bit_with_range wr rng a (with_range r st) = apsnd (with_range r) (encode_direct_bit_with_range wr rng a st)"
proof -
  obtain e out where st: "st = (e, out)" by fastforce
  show ?thesis
    using norm_range [of wr "drop_bit 1 rng" r "(add_low (drop_bit 1 rng AND a) e, out)"]
    unfolding st apfst_conv encode_direct_bit_with_range_def Let_def prod.case add_low_def [symmetric] by (simp add: add_low_range)
qed

lemma enc_prog_range:
  "probs_ok probs \<Longrightarrow> enc_prog wr p bs probs rng (with_range r st) =
    map_option (\<lambda>(x, bs, probs, rng, st). (x, bs, probs, rng, with_range r st)) (enc_prog wr p bs probs rng st)"
proof (induction p arbitrary: bs probs rng st)
  case (Bit i k)
  show ?case
  proof (cases bs)
    case (Cons b bs1)
    show ?thesis
    proof (cases "encode_at wr probs i rng (of_bool b) st")
      case None
      then show ?thesis by (simp only: Cons enc_prog.simps list.case encode_at_range [OF Bit.prems] option.map bind.bind_lzero)
    next
      case (Some q)
      obtain probs1 rng1 st1 where q: "q = (probs1, rng1, st1)" by (cases q) auto
      show ?thesis
        using Bit.IH [OF rangeI encode_at_probs [OF Some [unfolded q] Bit.prems]]
        by (simp only: Cons enc_prog.simps list.case encode_at_range [OF Bit.prems] Some q option.map bind.bind_lunit prod.case apsnd_conv)
    qed
  qed simp
next
  case (Direct k)
  then show ?case by (simp add: direct_range split_def Let_def split: list.splits)
qed simp

subsection \<open>The length coder\<close>

lemma encode_at_append: "i < length A \<Longrightarrow> encode_at wr (A @ B) i rng b st =
    map_option (\<lambda>(A', r). (A' @ B, r)) (encode_at wr A i rng b st)"
  by (auto simp: encode_at_def get_at_def nth_append list_update_append1 split: prod.splits)

lemma encode_at_prepend: "encode_at wr (A @ B) (length A + i) rng b st =
    map_option (\<lambda>(B', r). (A @ B', r)) (encode_at wr B i rng b st)"
  by (auto simp: encode_at_def get_at_def list_update_append split: prod.splits)

lemma encode_at_length: "encode_at wr probs i rng b st = Some (probs', r) \<Longrightarrow> length probs' = length probs"
  by (auto simp: encode_at_def split: bind_splits prod.splits)

lemma enc_prog_append:
  "bp_in {..<length A} p \<Longrightarrow> enc_prog wr p bs (A @ B) rng st =
    map_option (\<lambda>(x, bs, A', r). (x, bs, A' @ B, r)) (enc_prog wr p bs A rng st)"
proof (induction p arbitrary: bs A rng st)
  case (Bit i k)
  show ?case
    using Bit.prems Bit.IH [OF rangeI]
    by (auto simp: encode_at_append encode_at_length split: list.splits option.splits bind_splits)
next
  case (Direct k)
  then show ?case by (auto split: list.splits prod.splits)
qed simp

lemma enc_prog_length: "enc_prog wr p bs probs rng st = Some (x, bs', probs', r) \<Longrightarrow> length probs' = length probs"
proof (induction p arbitrary: bs probs rng st)
  case (Bit i k)
  then show ?case by (fastforce split: list.splits bind_splits dest: encode_at_length)
next
  case (Direct k)
  then show ?case by (fastforce split: list.splits prod.splits)
qed simp

lemma enc_prog_bind_Ret: "enc_prog wr (bp_bind p (\<lambda>x. Ret (f x))) bs probs rng st =
    map_option (\<lambda>(x, r). (f x, r)) (enc_prog wr p bs probs rng st)"
  by (simp add: enc_prog_bind map_option_case split_def split: option.splits)

lemma enc_tree_prepend:
  "enc_prog wr (tree_prog n (length A) y) bs (A @ B) rng st =
    map_option (\<lambda>(x, bs, B', r). (x, bs, A @ B', r)) (enc_prog wr (tree_prog n 0 y) bs B rng st)"
  by (induction n arbitrary: y bs B rng st) (auto simp: encode_at_prepend split: list.splits bind_splits)

lemma encode_bit_const:
  assumes "unat p \<le> 2048"
  shows "encode_bit_1_with_range wr rng p st = encode_bit_with_range wr rng p 1 st"
    and "encode_bit_0_with_range wr rng p st = encode_bit_with_range wr rng p 0 st"
proof -
  obtain e out where st: "st = (e, out)" by fastforce
  show "encode_bit_1_with_range wr rng p st = encode_bit_with_range wr rng p 1 st"
    using encode_bit_eq [OF assms, of wr rng True e out]
    unfolding st encode_bit_1_with_range_def encode_bit_1_base_with_range_def bit_bound_def add_low_def prob_update_def Let_def
    by (simp only: of_bool_eq if_True prod.case)
  show "encode_bit_0_with_range wr rng p st = encode_bit_with_range wr rng p 0 st"
    using encode_bit_eq [OF assms, of wr rng False e out]
    unfolding st encode_bit_0_with_range_def encode_bit_0_base_with_range_def bit_bound_def add_low_def prob_update_def Let_def
    by (simp only: of_bool_eq if_False prod.case) simp
qed

lemma low_flag_eq:
  assumes "probs_ok probs"
  shows "low_flag encode_bit_1_with_range wr probs i rng st = encode_at wr probs i rng 1 st"
    and "low_flag encode_bit_0_with_range wr probs i rng st = encode_at wr probs i rng 0 st"
  using prob_ok_2048 [OF assms, of i] by (auto simp: low_flag_def encode_at_def get_at_def encode_bit_const)

text \<open>The three bits of a low or middle length, unrolled.\<close>

definition low_tree :: "'o sink \<Rightarrow> u16 list \<Rightarrow> nat \<Rightarrow> u32 \<Rightarrow> u32 \<Rightarrow> rcenc \<times> 'o \<Rightarrow> (u16 list \<times> u32 \<times> rcenc \<times> 'o) option" where
  "low_tree wr low base sy rng st = do {
     let bt = drop_bit 2 sy;
     (low, rng, st) \<leftarrow> encode_at wr low (base + 1) rng bt st;
     let m = 2 + unat bt;
     let bt = drop_bit 1 sy AND 1;
     (low, rng, st) \<leftarrow> encode_at wr low (base + m) rng bt st;
     let m = 2 * m + unat bt;
     let bt = sy AND 1;
     (low, rng, st) \<leftarrow> encode_at wr low (base + m) rng bt st;
     Some (low, rng, st) }"

lemma tree_prog_3:
  "enc_prog wr (tree_prog 3 base 1) [b2, b1, b0] low rng st =
    encode_at wr low (base + 1) rng (of_bool b2) st \<bind> (\<lambda>(low, rng, st).
    encode_at wr low (base + (2 + of_bool b2)) rng (of_bool b1) st \<bind> (\<lambda>(low, rng, st).
    encode_at wr low (base + (2 * (2 + of_bool b2) + of_bool b1)) rng (of_bool b0) st \<bind> (\<lambda>(low, rng, st).
    Some (1 + 1 + of_bool b2 + (1 + 1 + of_bool b2) + of_bool b1 + (1 + 1 + of_bool b2 + (1 + 1 + of_bool b2) + of_bool b1) + of_bool b0,
      [], low, rng, st))))"
  unfolding numeral_3_eq_3 tree_prog.simps enc_prog.simps list.case
  by (cases b2; cases b1; cases b0) simp_all

lemma low_tree_path:
  assumes "unat sy < 8"
  shows "low_tree wr low base sy rng st = enc_res (enc_prog wr (tree_prog 3 base 1) (path_bits 3 (unat sy)) low rng st)"
proof -
  have b: "drop_bit n sy AND 1 = of_bool (bit (unat sy) n)" for n
    by (simp add: and_one_eq mod_2_eq_odd bit_iff_odd_drop_bit [symmetric])
  have "unat (drop_bit 2 sy) < 2"
    unfolding unat_drop_bit using assms by (intro less_mult_imp_div_less) simp
  then have "unat (drop_bit 2 sy) = 0 \<or> unat (drop_bit 2 sy) = 1" by linarith
  then have "drop_bit 2 sy = 0 \<or> drop_bit 2 sy = 1" by (metis unat_0 unat_1 word_eq_unatI)
  then have "drop_bit 2 sy AND 1 = drop_bit 2 sy" by auto
  then have b2: "drop_bit 2 sy = of_bool (bit (unat sy) 2)" using b [of 2] by simp
  have p: "path_bits 3 (unat sy) = [bit (unat sy) 2, bit (unat sy) 1, bit (unat sy) 0]"
    by (simp add: numeral_3_eq_3 numeral_2_eq_2)
  have u: "unat (of_bool c :: u32) = of_bool c" for c by simp
  show ?thesis
    unfolding low_tree_def Let_def p tree_prog_3 b2 b b [of 0, simplified] u
    by (simp add: map_bind split_def)
qed

lemma len_encode_eq:
  "len_encode wr le sy ps (e, out) =
    (if sy < 8 then low_flag encode_bit_0_with_range wr (le_low le) 0 (re_range e) (e, out) \<bind>
         (\<lambda>(low, rng, st). low_tree wr low (16 * unat ps) sy rng st \<bind>
         (\<lambda>(low, rng, e, out). Some (le\<lparr>le_low := low\<rparr>, e\<lparr>re_range := rng\<rparr>, out)))
     else low_flag encode_bit_1_with_range wr (le_low le) 0 (re_range e) (e, out) \<bind> (\<lambda>(low, rng, st).
       if sy < 16 then low_flag encode_bit_0_with_range wr low 8 rng st \<bind>
         (\<lambda>(low, rng, st). low_tree wr low (8 + 16 * unat ps) (sy - 8) rng st \<bind>
         (\<lambda>(low, rng, e, out). Some (le\<lparr>le_low := low\<rparr>, e\<lparr>re_range := rng\<rparr>, out)))
       else low_flag encode_bit_1_with_range wr low 8 rng st \<bind> (\<lambda>(low, rng, e, out).
         lit_encode wr (le_high le) (sy - 16) (e\<lparr>re_range := rng\<rparr>, out) \<bind>
         (\<lambda>(high, e, out). Some (le\<lparr>le_low := low, le_high := high\<rparr>, e, out)))))"
proof -
  consider "(8 \<le> sy) = False" "(sy < 8) = True" | "(8 \<le> sy) = True" "(sy < 8) = False" "(sy < 16) = True" "(16 \<le> sy) = False"
    | "(8 \<le> sy) = True" "(sy < 8) = False" "(sy < 16) = False" "(16 \<le> sy) = True"
    by (meson leD leI)
  then show ?thesis
    by cases (simp_all (no_asm_simp) add: len_encode_def low_tree_def Let_def split_def bind_assoc ac_simps)
qed

definition len_bits :: "nat \<Rightarrow> bool list" where
  "len_bits n = (if n < 8 then False # path_bits 3 n else if n < 16 then True # False # path_bits 3 n
     else True # True # path_bits 8 (n - 16))"



lemma low_part_path:
  assumes "unat sy < 8" "probs_ok low" "base + 8 \<le> length low"
  shows "low_tree wr low base sy rng st \<bind> (\<lambda>(low, rng, e, out). Some (le\<lparr>le_low := low, le_high := high\<rparr>, e\<lparr>re_range := rng\<rparr>, out)) =
    map_option (\<lambda>(x, bs, probs, rng, e, out).
        (le\<lparr>le_low := take (length low) probs, le_high := drop (length low) probs\<rparr>, e\<lparr>re_range := rng\<rparr>, out))
      (enc_prog wr (tree_prog 3 base 1) (path_bits 3 (unat sy)) (low @ high) rng st)"
proof -
  have "bp_in {base + 1..<base + 2 * 2 ^ 3 div 2} (tree_prog 3 base 1)" using tree_prog_in [of 1 3 base] by simp
  then have "bp_in {..<length low} (tree_prog 3 base 1)" by (rule bp_in_mono) (use assms(3) in auto)
  note ap = enc_prog_append [OF this, of wr "path_bits 3 (unat sy)" high rng st]
  show ?thesis
    unfolding ap low_tree_path [OF assms(1)]
    by (auto simp: map_option_case bind_eq_Some_conv split: option.splits dest!: enc_prog_length)
qed

lemma len_encode_path:
  assumes "unat sy < 272" "unat ps < 16" "length (le_low le) = 256" "length (le_high le) = 256"
    and "probs_ok (le_low le)" "probs_ok (le_high le)"
  shows "len_encode wr le sy ps (e, out) =
    map_option (\<lambda>(x, bs, probs, rng, e, out).
        (le\<lparr>le_low := take 256 probs, le_high := drop 256 probs\<rparr>, e\<lparr>re_range := rng\<rparr>, out))
      (enc_prog wr (len_prog 0 (16 * ps)) (len_bits (unat sy)) (le_low le @ le_high le) (re_range e) (e, out))"
proof -
  have ps: "unat (16 * ps) = 16 * unat ps" using assms(2) by (simp add: unat_word_ariths)
  have hi: "le\<lparr>le_low := low\<rparr> = le\<lparr>le_low := low, le_high := le_high le\<rparr>" for low by simp
  note first = low_flag_eq [OF assms(5)]
  have ap: "encode_at wr (low @ le_high le) i rng b st = map_option (\<lambda>(A, r). (A @ le_high le, r)) (encode_at wr low i rng b st)"
    if "length low = 256" "i < 256" for low i rng b st
    using that by (simp add: encode_at_append)
  have ok1: "probs_ok low \<and> length low = 256"
    if "encode_at wr (le_low le) 0 (re_range e) (of_bool b) (e, out) = Some (low, r)" for b low r
    using encode_at_probs [OF that assms(5)] encode_at_length [OF that] assms(3) by simp
  consider "unat sy < 8" | "8 \<le> unat sy" "unat sy < 16" | "16 \<le> unat sy" by linarith
  then show ?thesis
  proof cases
    case 1
    then have w: "sy < 8" by (simp add: word_less_nat_alt)
    have rhs: "enc_prog wr (len_prog 0 (16 * ps)) (len_bits (unat sy)) (le_low le @ le_high le) (re_range e) (e, out) =
        encode_at wr (le_low le) 0 (re_range e) 0 (e, out) \<bind> (\<lambda>(low, rng, st).
        map_option (\<lambda>(x, r). (x - 8, r)) (enc_prog wr (tree_prog 3 (16 * unat ps) 1) (path_bits 3 (unat sy)) (low @ le_high le) rng st))"
      using 1 assms(3) unfolding len_prog_def len_bits_def
      by (simp add: lz_consts ps ap enc_prog_bind_Ret map_bind bind_map_option comp_def split_def)
    show ?thesis
    proof (cases "encode_at wr (le_low le) 0 (re_range e) 0 (e, out)")
      case (Some r)
      obtain low rng e1 out1 where r: "r = (low, rng, e1, out1)" by (cases r) auto
      have ok: "probs_ok low" "length low = 256" using ok1 [of False] Some r by auto
      show ?thesis
        using low_part_path [OF 1 ok(1), where base = "16 * unat ps" and wr = wr and rng = rng and st = "(e1, out1)" and le = le and high = "le_high le"] assms(2) ok(2)
        unfolding len_encode_eq rhs first if_P [OF w] Some r hi [symmetric] bind.bind_lunit prod.case
        by (simp only: option.map_comp comp_def split_def fst_conv snd_conv prod.collapse)
    qed (simp add: len_encode_eq rhs first w)
  next
    case 2
    have w: "sy < 8 \<longleftrightarrow> False" "sy < 16 \<longleftrightarrow> True" using 2 by (simp_all add: word_less_nat_alt)
    have s8: "unat (sy - 8) = unat sy - 8" using 2 by (simp add: unat_sub word_le_nat_alt)
    have pb: "path_bits 3 (unat sy) = path_bits 3 (unat (sy - 8))"
    proof -
      have "unat sy mod 2 ^ 3 = unat sy - 8" using 2 le_mod_geq [of 8 "unat sy"] by simp
      then show ?thesis unfolding s8 by (metis path_bits_mod)
    qed
    have rhs: "enc_prog wr (len_prog 0 (16 * ps)) (len_bits (unat sy)) (le_low le @ le_high le) (re_range e) (e, out) =
        encode_at wr (le_low le) 0 (re_range e) 1 (e, out) \<bind> (\<lambda>(low, rng, st).
        encode_at wr (low @ le_high le) 8 rng 0 st \<bind> (\<lambda>(probs, rng, st).
        enc_prog wr (tree_prog 3 (8 + 16 * unat ps) 1) (path_bits 3 (unat (sy - 8))) probs rng st))"
      using 2 assms(3) unfolding len_prog_def len_bits_def pb
      by (simp add: lz_consts ps ap enc_prog_bind_Ret map_bind bind_map_option comp_def split_def add.commute)
    show ?thesis
    proof (cases "encode_at wr (le_low le) 0 (re_range e) 1 (e, out)")
      case (Some r)
      obtain low rng st1 where r: "r = (low, rng, st1)" by (cases r) auto
      have ok: "probs_ok low" "length low = 256" using ok1 [of True] Some r by auto
      note second = low_flag_eq(2) [OF ok(1)]
      have ap2: "encode_at wr (low @ le_high le) 8 rng 0 st1 = map_option (\<lambda>(A, r). (A @ le_high le, r)) (encode_at wr low 8 rng 0 st1)"
        using ap [OF ok(2)] by simp
      show ?thesis
      proof (cases "encode_at wr low 8 rng 0 st1")
        case None
        then show ?thesis unfolding len_encode_eq rhs first w if_True if_False Some r by (simp add: second ap2)
      next
        case (Some r2)
        obtain low2 rng2 e2 out2 where r2: "r2 = (low2, rng2, e2, out2)" by (cases r2) auto
        have ok2: "probs_ok low2" "length low2 = 256"
          using encode_at_probs [of wr low 8 rng False] encode_at_length [OF Some [unfolded r2]] ok Some r2 by auto
        have s8l: "unat (sy - 8) < 8" using s8 2 by linarith
        note part = low_part_path [OF s8l ok2(1), where base = "8 + 16 * unat ps" and wr = wr and rng = rng2 and st = "(e2, out2)" and le = le and high = "le_high le"]
        show ?thesis
          using part assms(2) ok2(2)
          unfolding len_encode_eq rhs first w if_True if_False \<open>encode_at wr (le_low le) 0 _ 1 _ = _\<close> r bind.bind_lunit prod.case
            second ap2 Some r2 hi [symmetric] option.map
          by (simp only: option.map_comp comp_def split_def fst_conv snd_conv prod.collapse)
      qed
    qed (simp add: len_encode_eq rhs first w)
  next
    case 3
    have w: "sy < 8 \<longleftrightarrow> False" "sy < 16 \<longleftrightarrow> False" using 3 by (simp_all add: word_less_nat_alt)
    have s16: "unat (sy - 16) = unat sy - 16" using 3 by (simp add: unat_sub word_le_nat_alt)
    have rhs: "enc_prog wr (len_prog 0 (16 * ps)) (len_bits (unat sy)) (le_low le @ le_high le) (re_range e) (e, out) =
        encode_at wr (le_low le) 0 (re_range e) 1 (e, out) \<bind> (\<lambda>(low, rng, st).
        encode_at wr (low @ le_high le) 8 rng 1 st \<bind> (\<lambda>(probs, rng, st).
        map_option (\<lambda>(x, r). (x - 256 + 16, r)) (enc_prog wr (tree_prog 8 256 1) (path_bits 8 (unat (sy - 16))) probs rng st)))"
      using 3 assms(3) unfolding len_prog_def len_bits_def s16
      by (simp add: lz_consts ps ap enc_prog_bind_Ret map_bind bind_map_option comp_def split_def add.commute)
    show ?thesis
    proof (cases "encode_at wr (le_low le) 0 (re_range e) 1 (e, out)")
      case (Some r)
      obtain low rng st1 where r: "r = (low, rng, st1)" by (cases r) auto
      have ok: "probs_ok low" "length low = 256" using ok1 [of True] Some r by auto
      note second = low_flag_eq(1) [OF ok(1)]
      have ap2: "encode_at wr (low @ le_high le) 8 rng 1 st1 = map_option (\<lambda>(A, r). (A @ le_high le, r)) (encode_at wr low 8 rng 1 st1)"
        using ap [OF ok(2)] by simp
      show ?thesis
      proof (cases "encode_at wr low 8 rng 1 st1")
        case None
        then show ?thesis unfolding len_encode_eq rhs first w if_True if_False Some r by (simp add: second ap2)
      next
        case (Some r2)
        obtain low2 rng2 e2 out2 where r2: "r2 = (low2, rng2, e2, out2)" by (cases r2) auto
        have len2: "length low2 = 256" using encode_at_length [OF Some [unfolded r2]] ok by simp
        have s16l: "unat (sy - 16) < 256" using s16 assms(1) by linarith
        show ?thesis
          using enc_tree_prepend [of wr 8 low2 1 _ "le_high le" rng2] len2
            enc_prog_range [OF assms(6), of wr "tree_prog 8 0 1" _ rng2 rng2 "(e2, out2)"]
          unfolding len_encode_eq rhs first w if_True if_False \<open>encode_at wr (le_low le) 0 _ 1 _ = _\<close> r bind.bind_lunit prod.case
            second ap2 Some r2 option.map lit_encode_path [OF s16l]
          by (cases "enc_prog wr (tree_prog 8 0 1) (path_bits 8 (unat (sy - 16))) (le_high le) rng2 (e2, out2)") auto
      qed
    qed (simp add: len_encode_eq rhs first w)
  qed
qed

end
