(* ===== verification/RangeTrip.thy ===== *)
theory RangeTrip
  imports RangeTrees
begin

text \<open>
  Round trips of the range coder from the first byte of a stream to its end: a sequence of decisions,
  of literals and of lengths encoded from a new encoder and flushed is what the decoder reads back.
\<close>

subsection \<open>Sequences of groups\<close>

text \<open>Each group runs on a local range and stores it at its end.\<close>

primrec enc_progs :: "'o sink \<Rightarrow> ('a bitprog \<times> bool list) list \<Rightarrow> u16 list \<Rightarrow> rcenc \<times> 'o \<Rightarrow>
    ('a list \<times> u16 list \<times> rcenc \<times> 'o) option" where
  "enc_progs wr [] probs st = Some ([], probs, st)"
| "enc_progs wr (g # gs) probs st = do {
     (x, _, probs, rng, e, out) \<leftarrow> enc_prog wr (fst g) (snd g) probs (re_range (fst st)) st;
     (xs, probs, st) \<leftarrow> enc_progs wr gs probs (e\<lparr>re_range := rng\<rparr>, out);
     Some (x # xs, probs, st) }"

primrec dec_progs :: "bytes \<Rightarrow> 'a bitprog list \<Rightarrow> u16 list \<Rightarrow> rc \<Rightarrow> ('a list \<times> u16 list \<times> rc) option" where
  "dec_progs inp [] probs s = Some ([], probs, s)"
| "dec_progs inp (p # ps) probs s = do {
     (x, probs, s) \<leftarrow> bp_run inp p probs s;
     (xs, probs, s) \<leftarrow> dec_progs inp ps probs s;
     Some (x # xs, probs, s) }"

context seq_out
begin

lemma range_irrelevant:
  "st_pos (e\<lparr>re_range := r\<rparr>, out) = st_pos (e, out)" "st_total (e\<lparr>re_range := r\<rparr>, out) = st_total (e, out)"
  "enc_inv n (e\<lparr>re_range := r\<rparr>) = enc_inv n e" "fits F (e\<lparr>re_range := r\<rparr>, out) rng = fits F (e, out) rng"
  "dec_state F (e\<lparr>re_range := r\<rparr>, out) rng = dec_state F (e, out) rng"
  by (simp_all add: st_pos_def st_total_def enc_total_def produced_def enc_inv_def fits_def dec_state_def)

lemma enc_progs_res:
  "enc_progs wr gs probs (e, out) = Some (xs, probs', e', out') \<Longrightarrow> re_res e' = None \<Longrightarrow> re_res e = None"
proof (induction gs arbitrary: probs e out xs)
  case (Cons g gs)
  obtain x bs1 probs1 rng1 e1 out1 xs1
    where g: "enc_prog wr (fst g) (snd g) probs (re_range e) (e, out) = Some (x, bs1, probs1, rng1, e1, out1)"
      and gs: "enc_progs wr gs probs1 (e1\<lparr>re_range := rng1\<rparr>, out1) = Some (xs1, probs', e', out')"
    using Cons.prems(1) by (auto split: bind_splits)
  have "re_res e1 = None" using Cons.IH [OF gs Cons.prems(2)] by simp
  then show ?case by (rule enc_prog_res [OF g])
qed simp

lemma enc_progs_inv:
  assumes "enc_progs wr gs probs (e, out) = Some (xs, probs', e', out')"
    and "probs_ok probs" "2 ^ 24 \<le> unat (re_range e)" "enc_inv (unat (re_range e)) e" "re_res e' = None"
  shows "probs_ok probs' \<and> length probs' = length probs \<and> 2 ^ 24 \<le> unat (re_range e') \<and> enc_inv (unat (re_range e')) e' \<and> re_res e = None \<and>
    (fits F (e', out') (re_range e') \<longrightarrow> fits F (e, out) (re_range e) \<and>
      (\<forall>s. normalize F s = Some (dec_state F (e, out) (re_range e)) \<longrightarrow>
        (\<exists>s'. dec_progs F (map fst gs) probs s = Some (xs, probs', s') \<and>
          normalize F s' = Some (dec_state F (e', out') (re_range e')))))"
  using assms
proof (induction gs arbitrary: probs e out xs)
  case (Cons g gs)
  obtain x bs1 probs1 rng1 e1 out1 xs1
    where g: "enc_prog wr (fst g) (snd g) probs (re_range e) (e, out) = Some (x, bs1, probs1, rng1, e1, out1)"
      and gs: "enc_progs wr gs probs1 (e1\<lparr>re_range := rng1\<rparr>, out1) = Some (xs1, probs', e', out')" and xs: "xs = x # xs1"
    using Cons.prems(1) by (auto split: bind_splits)
  have res1: "re_res e1 = None" using enc_progs_res [OF gs Cons.prems(5)] by simp
  note one = enc_prog_inv [OF g Cons.prems(2-4) res1, of F]
  note ih = Cons.IH [OF gs _ _ _ Cons.prems(5), unfolded range_irrelevant, simplified]
  show ?case
    using one ih unfolding xs by fastforce
qed auto


lemma shift_low_times_res: "(shift_low wr ^^ n) (e, out) = (e', out') \<Longrightarrow> re_res e' = None \<Longrightarrow> re_res e = None"
proof (induction n arbitrary: e' out')
  case (Suc n)
  obtain e1 out1 where n: "(shift_low wr ^^ n) (e, out) = (e1, out1)" by fastforce
  then have "shift_low wr (e1, out1) = (e', out')" using Suc.prems(1) by simp
  from shift_low_res [OF this Suc.prems(2)] show ?case by (rule Suc.IH [OF n])
qed simp

text \<open>A sink that always accepts raises no error.\<close>

lemma no_error:
  assumes ok: "\<And>d out. fst (wr d out) = None"
  shows "re_res (fst (flush_stream wr st)) = re_res (fst st)"
    and "re_res (fst (rc_push wr b st)) = re_res (fst st)"
    and "re_res (fst (push_pending n wr b st)) = re_res (fst st)"
    and "re_res (fst (shift_low wr st)) = re_res (fst st)"
    and "re_res (fst (flush_data wr st)) = re_res (fst st)"
proof -
  have fs: "re_res (fst (flush_stream wr st)) = re_res (fst st)" for st
    using ok [of "re_buf (fst st)" "snd st"] by (cases st) (auto simp: flush_stream_def Let_def split: option.splits prod.splits)
  have rp: "re_res (fst (rc_push wr b st)) = re_res (fst st)" for b st
    by (cases st) (simp add: rc_push_def Let_def fs)
  have pp: "re_res (fst (push_pending n wr b st)) = re_res (fst st)" for n b st
  proof (induction n arbitrary: st)
    case (Suc n)
    show ?case using rp [of b st] by (simp add: split_def Let_def Suc.IH)
  qed simp
  have sl: "re_res (fst (shift_low wr st)) = re_res (fst st)" for st
    by (cases st) (simp add: shift_low_def Let_def split_def pp rp)
  have fd: "re_res (fst ((shift_low wr ^^ n) st)) = re_res (fst st)" for n st
    by (induction n) (simp_all add: sl)
  show "re_res (fst (flush_stream wr st)) = re_res (fst st)" "re_res (fst (rc_push wr b st)) = re_res (fst st)"
    "re_res (fst (push_pending n wr b st)) = re_res (fst st)" "re_res (fst (shift_low wr st)) = re_res (fst st)"
    "re_res (fst (flush_data wr st)) = re_res (fst st)"
    by (simp_all only: fs rp pp sl fd flush_data_def)
qed

lemma encode_no_error:
  assumes ok: "\<And>d out. fst (wr d out) = None"
  shows "encode_at wr probs i rng b st = Some (probs', rng', st') \<Longrightarrow> re_res (fst st') = re_res (fst st)"
    and "encode_direct_bit_with_range wr rng c st = (rng', st') \<Longrightarrow> re_res (fst st') = re_res (fst st)"
proof -
  have n: "re_res (fst (snd (norm_with_range wr rng st))) = re_res (fst st)" for rng st
    by (simp add: norm_with_range_def no_error [OF ok])
  have d: "re_res (fst (snd (encode_direct_bit_with_range wr rng c st))) = re_res (fst st)"
    by (cases st) (simp add: encode_direct_bit_with_range_def Let_def n)
  then show "encode_direct_bit_with_range wr rng c st = (rng', st') \<Longrightarrow> re_res (fst st') = re_res (fst st)" by (metis snd_conv)
  have e: "re_res (fst (snd (snd (encode_bit_with_range wr rng p b st)))) = re_res (fst st)" for p
    unfolding encode_bit_with_range_def Let_def split_def
    by (simp only: if_distrib [of fst] if_distrib [of snd] if_distrib [of re_res] fst_conv snd_conv no_error(4) [OF ok] if_cancel) simp
  assume "encode_at wr probs i rng b st = Some (probs', rng', st')"
  then have "st' = snd (snd (encode_bit_with_range wr rng (probs ! i) b st))"
    by (auto simp: encode_at_def get_at_def split_def Let_def split: if_splits)
  then show "re_res (fst st') = re_res (fst st)" by (simp only: e)
qed

lemma enc_prog_no_error:
  assumes ok: "\<And>d out. fst (wr d out) = None"
  shows "enc_prog wr p bs probs rng st = Some (x, bs', probs', rng', st') \<Longrightarrow> re_res (fst st') = re_res (fst st)"
proof (induction p arbitrary: bs probs rng st)
  case (Bit i k)
  obtain b bs1 probs1 rng1 st1 where 1: "encode_at wr probs i rng (of_bool b) st = Some (probs1, rng1, st1)"
    and 2: "enc_prog wr (k b) bs1 probs1 rng1 st1 = Some (x, bs', probs', rng', st')"
    using Bit.prems by (cases bs) (auto split: bind_splits)
  show ?case using Bit.IH [OF rangeI 2] encode_no_error(1) [OF ok 1] by simp
next
  case (Direct k)
  obtain b bs1 rng1 st1 where 1: "encode_direct_bit_with_range wr rng (if b then - 1 else 0) st = (rng1, st1)"
    and 2: "enc_prog wr (k b) bs1 probs rng1 st1 = Some (x, bs', probs', rng', st')"
    using Direct.prems by (cases bs) (auto split: prod.splits)
  show ?case using Direct.IH [OF rangeI 2] encode_no_error(2) [OF ok 1] by simp
qed simp

lemma enc_progs_no_error:
  assumes ok: "\<And>d out. fst (wr d out) = None"
  shows "enc_progs wr gs probs st = Some (xs, probs', st') \<Longrightarrow> re_res (fst st') = re_res (fst st)"
proof (induction gs arbitrary: probs st xs)
  case (Cons g gs)
  obtain x bs1 probs1 rng1 e1 out1 xs1
    where g: "enc_prog wr (fst g) (snd g) probs (re_range (fst st)) st = Some (x, bs1, probs1, rng1, e1, out1)"
      and gs: "enc_progs wr gs probs1 (e1\<lparr>re_range := rng1\<rparr>, out1) = Some (xs1, probs', st')"
    using Cons.prems by (auto split: bind_splits)
  show ?case using Cons.IH [OF gs] enc_prog_no_error [OF ok g] by simp
qed simp

text \<open>The whole stream of an encoder that starts fresh.\<close>

lemma stream_round_trip:
  assumes start: "re_range e0 = 0xFFFFFFFF" "re_cache e0 = 0" "re_low e0 = 0" "re_cache_size e0 = 0" "produced (e0, out0) = []"
    and enc: "enc_progs wr gs probs (e0, out0) = Some (xs, probs', st1)"
    and fin: "flush_stream wr (flush_data wr st1) = (e3, out3)" "re_res e3 = None"
    and ok: "probs_ok probs"
  defines "F \<equiv> written out3"
  shows "5 \<le> length F \<and> be_nat (take 5 F) < 2 ^ 32 \<and>
    (\<exists>s'. dec_progs F (map fst gs) probs \<lparr>rc_range = 0xFFFFFFFF, rc_code = of_nat (be_nat (take 5 F)), rc_buf = 5\<rparr> =
        Some (xs, probs', s') \<and>
      normalize F s' = Some \<lparr>rc_range = re_range (fst st1), rc_code = 0, rc_buf = length F\<rparr>)"
proof -
  obtain e1 out1 where st1: "st1 = (e1, out1)" by fastforce
  obtain e2 out2 where d: "flush_data wr (e1, out1) = (e2, out2)" by fastforce
  have fs: "flush_stream wr (e2, out2) = (e3, out3)" using fin(1) by (simp add: st1 d)
  have res2: "re_res e2 = None" and pr: "produced (e2, out2) = produced (e3, out3)"
    using flush_stream_ok [OF fs] fin(2) by auto
  have "re_buf e3 = []" using fs by (auto simp: flush_stream_def Let_def split: prod.splits)
  then have F: "produced (e2, out2) = F" using pr by (simp add: F_def produced_def)
  have inv0: "enc_inv (unat (re_range e0)) e0" using start by (simp add: enc_inv_def)
  have r0: "2 ^ 24 \<le> unat (re_range e0)" using start by simp
  have res1: "re_res e1 = None" using d res2 unfolding flush_data_def by (rule shift_low_times_res)
  note inv = enc_progs_inv [OF enc [unfolded st1] ok r0 inv0 res1, of F]
  have r1: "enc_inv (unat (re_range e1)) e1" "0 < unat (re_range e1)" using inv by (simp_all add: enc_inv_def)
  note fl = flush_data_ok [OF d r1(1) res2 r1(2), unfolded F]
  have fits0: "fits F (e0, out0) 0xFFFFFFFF" using inv fl start(1) by auto
  have p0: "st_pos (e0, out0) = 5" "st_total (e0, out0) = 0"
    using start by (simp_all add: st_pos_def st_total_def enc_total_def)
  have d0: "dec_state F (e0, out0) 0xFFFFFFFF = \<lparr>rc_range = 0xFFFFFFFF, rc_code = of_nat (be_nat (take 5 F)), rc_buf = 5\<rparr>"
    by (simp add: dec_state_def p0)
  have "normalize F (dec_state F (e0, out0) 0xFFFFFFFF) = Some (dec_state F (e0, out0) 0xFFFFFFFF)"
    by (simp add: normalize_def d0 lz_consts)
  then show ?thesis
    using inv fl fits0 unfolding start(1) d0 st1 by (auto simp: fits_def p0)
qed

end

subsection \<open>The decoder's start\<close>

text \<open>The first byte is 0, the next four are the code, as \<open>start_coder\<close> reads them.\<close>

definition rc_start :: "bytes \<Rightarrow> rc" where
  "rc_start F = \<lparr>rc_range = 0xFFFFFFFF,
     rc_code = push_bit 24 (ucast (F ! 1)) OR push_bit 16 (ucast (F ! 2)) OR push_bit 8 (ucast (F ! 3)) OR ucast (F ! 4), rc_buf = 5\<rparr>"

lemma be32_eq: "push_bit 24 (ucast a) OR push_bit 16 (ucast b) OR push_bit 8 (ucast c) OR ucast (d :: u8) =
    (of_nat (be_nat [a, b, c :: u8, d]) :: u32)"
proof -
  have lt: "unat (x :: u8) < 256" for x using unsigned_less [of x] by simp
  define w1 where "w1 = (ucast d :: u32) OR push_bit 8 (ucast c)"
  define w2 where "w2 = w1 OR push_bit 16 (ucast b)"
  have b1: "unat d + unat c * 256 < 65536" using lt [of c] lt [of d] by linarith
  have b2: "unat d + unat c * 256 + unat b * 65536 < 16777216" using b1 lt [of b] by linarith
  have b3: "unat d + unat c * 256 + unat b * 65536 + unat a * 16777216 < 4294967296" using b2 lt [of a] by linarith
  have w1: "unat w1 = unat d + unat c * 2 ^ 8"
    unfolding w1_def by (subst unat_or_push_bit) (use b1 b2 in \<open>simp_all add: lt\<close>)
  have w2: "unat w2 = unat d + unat c * 2 ^ 8 + unat b * 2 ^ 16"
    unfolding w2_def by (subst unat_or_push_bit; (simp add: w1)?) (use b1 b2 b3 in simp_all)
  have w3: "unat (w2 OR push_bit 24 (ucast a)) = be_nat [a, b, c, d]"
    by (subst unat_or_push_bit; (simp add: w2)?) (use b2 b3 in simp_all)
  have "push_bit 24 (ucast a) OR push_bit 16 (ucast b) OR push_bit 8 (ucast c) OR ucast d = w2 OR push_bit 24 (ucast a)"
    by (simp add: w2_def w1_def ac_simps)
  then show ?thesis using arg_cong [OF w3, of "of_nat :: nat \<Rightarrow> u32"] by simp
qed

lemma list5: "length xs = 5 \<Longrightarrow> \<exists>a b c d e. xs = [a, b, c, d, e]"
  by (auto simp: length_Suc_conv numeral_eq_Suc)

lemma rc_start_eq:
  assumes "5 \<le> length F" "be_nat (take 5 F) < 2 ^ 32"
  shows "F ! 0 = 0" "rc_start F = \<lparr>rc_range = 0xFFFFFFFF, rc_code = of_nat (be_nat (take 5 F)), rc_buf = 5\<rparr>"
proof -
  obtain a b c d e where t: "take 5 F = [a, b, c, d, e]"
    using list5 [of "take 5 F"] assms(1) by auto
  have n: "F ! 0 = a" "F ! 1 = b" "F ! 2 = c" "F ! 3 = d" "F ! 4 = e"
    using nth_take [of 0 5 F] nth_take [of 1 5 F] nth_take [of 2 5 F] nth_take [of 3 5 F] nth_take [of 4 5 F] by (simp_all add: t)
  have be: "be_nat [a, b, c, d, e] = unat a * 2 ^ 32 + be_nat [b, c, d, e]" by simp
  then have "unat a = 0" using assms(2) unfolding t be by (cases "unat a") simp_all
  then have a: "a = 0" by (simp only: unat_eq_0)
  show "F ! 0 = 0" "rc_start F = \<lparr>rc_range = 0xFFFFFFFF, rc_code = of_nat (be_nat (take 5 F)), rc_buf = 5\<rparr>"
    unfolding rc_start_def n be32_eq t be by (simp_all add: a del: be_nat.simps)
qed

subsection \<open>Literals\<close>

text \<open>A literal byte with the match byte it is coded against, if any; the decoder is given the latter.\<close>

primrec enc_literals :: "'o sink \<Rightarrow> (u8 \<times> u8 option) list \<Rightarrow> u16 list \<Rightarrow> rcenc \<times> 'o \<Rightarrow> (u16 list \<times> rcenc \<times> 'o) option" where
  "enc_literals wr [] probs st = Some (probs, st)"
| "enc_literals wr (op # ops) probs st = do {
     (probs, st) \<leftarrow> (case snd op of
         None \<Rightarrow> lit_encode wr probs (ucast (fst op)) st
       | Some m \<Rightarrow> lit_encode_matched wr probs (ucast (fst op)) (ucast m) st);
     enc_literals wr ops probs st }"

primrec dec_literals :: "bytes \<Rightarrow> u8 option list \<Rightarrow> u16 list \<Rightarrow> rc \<Rightarrow> (bytes \<times> u16 list \<times> rc) option" where
  "dec_literals inp [] probs s = Some ([], probs, s)"
| "dec_literals inp (m # ms) probs s = do {
     (probs, symbol, s) \<leftarrow> (case m of
         None \<Rightarrow> tree_decode 8 inp probs 0 s
       | Some m \<Rightarrow> do {
           (probs, symbol, _, _, s) \<leftarrow> matched_liter_times 8 inp 0 (probs, 1, ucast m, 0x100, s);
           Some (probs, symbol, s) });
     (bs, probs, s) \<leftarrow> dec_literals inp ms probs s;
     Some (ucast symbol # bs, probs, s) }"

definition lit_group :: "u8 \<times> u8 option \<Rightarrow> u32 bitprog \<times> bool list" where
  "lit_group op = ((case snd op of None \<Rightarrow> tree_prog 8 0 1 | Some m \<Rightarrow> matched_prog 8 0 1 (ucast m) 0x100),
                   path_bits 8 (unat (fst op)))"

lemma lit_group_encode:
  "(case snd op of None \<Rightarrow> lit_encode wr probs (ucast (fst op)) st
    | Some m \<Rightarrow> lit_encode_matched wr probs (ucast (fst op)) (ucast m) st) =
   map_option (\<lambda>(x, bs, probs, rng, e, out). (probs, e\<lparr>re_range := rng\<rparr>, out))
     (enc_prog wr (fst (lit_group op)) (snd (lit_group op)) probs (re_range (fst st)) st)"
proof -
  obtain e out where st: "st = (e, out)" by fastforce
  have u: "unat (ucast (fst op) :: u32) = unat (fst op)" by simp
  moreover have "unat (fst op) < 256" using unsigned_less [of "fst op"] by simp
  ultimately have lt: "unat (ucast (fst op) :: u32) < 256" by (simp only:)
  show ?thesis
    using lit_encode_path [OF lt, of wr probs e out] lit_encode_matched_path [OF lt, of wr probs _ e out]
    by (cases "snd op") (simp_all add: lit_group_def st u)
qed

lemma lit_group_result:
  assumes "enc_prog wr (fst (lit_group op)) (snd (lit_group op)) probs rng st = Some (x, bs, r)"
  shows "ucast x = fst op"
proof -
  have b: "unat (fst op) < 256" using unsigned_less [of "fst op"] by simp
  have "x = 1 * 2 ^ 8 + of_nat (unat (fst op) mod 2 ^ 8)"
  proof (cases "snd op")
    case None
    then have "enc_prog wr (tree_prog 8 0 1) (path_bits 8 (unat (fst op))) probs rng st = Some (x, bs, r)"
      using assms by (simp only: lit_group_def option.case fst_conv snd_conv)
    from enc_tree_result [OF this] show ?thesis ..
  next
    case (Some m)
    then have "enc_prog wr (matched_prog 8 0 1 (ucast m) 0x100) (path_bits 8 (unat (fst op))) probs rng st = Some (x, bs, r)"
      using assms by (simp only: lit_group_def option.case fst_conv snd_conv)
    from enc_matched_result [OF this] show ?thesis ..
  qed
  also have "\<dots> = of_nat (256 + unat (fst op))" using b by simp
  finally have x: "x = of_nat (256 + unat (fst op))" .
  have "unat x = 256 + unat (fst op)" unfolding x by (rule unat_of_nat_small) (rule less_trans [of _ 512], use b in simp_all)
  then show ?thesis
    using b by (intro word_eq_unatI) (simp add: unsigned_ucast_eq take_bit_eq_mod)
qed

lemma enc_literals_progs:
  "enc_literals wr ops probs st = Some (probs', st') \<Longrightarrow>
    \<exists>xs. enc_progs wr (map lit_group ops) probs st = Some (xs, probs', st') \<and> map ucast xs = map fst ops"
proof (induction ops arbitrary: probs st)
  case (Cons op ops)
  obtain x bs probs1 rng e out
    where x: "enc_prog wr (fst (lit_group op)) (snd (lit_group op)) probs (re_range (fst st)) st = Some (x, bs, probs1, rng, e, out)"
      and rest: "enc_literals wr ops probs1 (e\<lparr>re_range := rng\<rparr>, out) = Some (probs', st')"
    using Cons.prems unfolding enc_literals.simps lit_group_encode by (auto split: bind_splits)
  show ?case using Cons.IH [OF rest] x lit_group_result [OF x] by auto
qed simp

lemma dec_literals_progs:
  assumes "dec_progs inp (map (fst \<circ> lit_group) ops) probs s = Some (xs, probs', s')" "probs_ok probs" "0x300 \<le> length probs"
  shows "dec_literals inp (map snd ops) probs s = Some (map ucast xs, probs', s')"
  using assms
proof (induction ops arbitrary: probs s xs)
  case (Cons op ops)
  obtain x probs1 s1 xs1 where x: "bp_run inp (fst (lit_group op)) probs s = Some (x, probs1, s1)"
    and xs1: "dec_progs inp (map (fst \<circ> lit_group) ops) probs1 s1 = Some (xs1, probs', s')" and xs: "xs = x # xs1"
    using Cons.prems(1) by (auto simp: comp_def split: bind_splits)
  have ok1: "probs_ok probs1" "length probs1 = length probs" using bp_run_probs [OF x Cons.prems(2)] by auto
  note ih = Cons.IH [OF xs1 ok1(1)]
  show ?case
  proof (cases "snd op")
    case None
    then show ?thesis
      using ih ok1 x Cons.prems tree_decode_eq [OF Cons.prems(2), of 0 8 inp s] by (simp add: lit_group_def xs)
  next
    case (Some m)
    then have "map_option (\<lambda>(probs', x, _, _, s'). (probs', x, s')) (matched_liter_times 8 inp 0 (probs, 1, ucast m, 0x100, s)) = Some (probs1, x, s1)"
      using x matched_liter_times_eq [OF Cons.prems(2), of 8 inp 0 1 "ucast m" "0x100" s] by (simp add: lit_group_def)
    then show ?thesis
      using ih ok1 Some Cons.prems by (auto simp: xs)
  qed
qed simp

text \<open>The table holds every index the literals use.\<close>

primrec path_ok :: "'a bitprog \<Rightarrow> bool list \<Rightarrow> bool" where
  "path_ok (Ret x) bs = True"
| "path_ok (Bit i k) bs = (bs \<noteq> [] \<and> path_ok (k (hd bs)) (tl bs))"
| "path_ok (Direct k) bs = (bs \<noteq> [] \<and> path_ok (k (hd bs)) (tl bs))"

lemma path_ok_tree: "path_ok (tree_prog n base y) (path_bits n v)"
  by (induction n arbitrary: y) auto

lemma path_ok_matched: "path_ok (matched_prog n base y mb offs) (path_bits n v)"
  by (induction n arbitrary: y mb offs) auto

lemma enc_prog_total:
  "bp_in {..<length probs} p \<Longrightarrow> path_ok p bs \<Longrightarrow> \<exists>r. enc_prog wr p bs probs rng st = Some r"
proof (induction p arbitrary: bs probs rng st)
  case (Bit i k)
  obtain b bs1 where bs: "bs = b # bs1" using Bit.prems(2) by (cases bs) auto
  have "i < length probs" using Bit.prems(1) by simp
  then obtain q where q: "encode_at wr probs i rng (of_bool b) st = Some q"
    by (simp add: encode_at_def get_at_def split_def Let_def)
  obtain probs1 rng1 st1 where q1: "q = (probs1, rng1, st1)" by (cases q) auto
  have "bp_in {..<length probs1} (k b)" using Bit.prems(1) encode_at_length [OF q [unfolded q1]] by (cases b) auto
  then show ?case using Bit.IH [OF rangeI, of probs1 b bs1 rng1 st1] Bit.prems(2) q by (simp add: bs q1)
next
  case (Direct k)
  obtain b bs1 where bs: "bs = b # bs1" using Direct.prems(2) by (cases bs) auto
  have "bp_in {..<length probs} (k b)" using Direct.prems(1) by (cases b) auto
  then show ?case using Direct.IH [OF rangeI, of probs b bs1] Direct.prems(2) by (simp add: bs split_def Let_def)
qed simp

lemma lit_group_in: "bp_in {..<0x300} (fst (lit_group op))"
proof -
  have "bp_in {0 + unat (1 :: u32)..<0 + (unat (1 :: u32) + 1) * 2 ^ 8 div 2} (tree_prog 8 0 1)" by (rule tree_prog_in) simp_all
  moreover have "bp_in {0..<0 + 0x300} (matched_prog 8 0 1 mb 0x100)" for mb
    using matched_prog_range [of "0x100" 1 8 0 mb] by simp
  ultimately show ?thesis
    by (auto simp: lit_group_def atLeast0LessThan elim!: bp_in_mono split: option.splits)
qed

lemma enc_literals_total:
  "0x300 \<le> length probs \<Longrightarrow> \<exists>r. enc_literals wr ops probs st = Some r"
proof (induction ops arbitrary: probs st)
  case (Cons op ops)
  have "bp_in {..<length probs} (fst (lit_group op))" by (rule bp_in_mono [OF lit_group_in]) (use Cons.prems in auto)
  moreover have "path_ok (fst (lit_group op)) (snd (lit_group op))"
    by (simp add: lit_group_def path_ok_tree path_ok_matched split: option.splits)
  ultimately obtain q where q: "enc_prog wr (fst (lit_group op)) (snd (lit_group op)) probs (re_range (fst st)) st = Some q"
    using enc_prog_total by blast
  obtain x bs probs1 rng e out where q1: "q = (x, bs, probs1, rng, e, out)" by (cases q) auto
  have "0x300 \<le> length probs1" using Cons.prems enc_prog_length [OF q [unfolded q1]] by simp
  from Cons.IH [OF this] show ?case unfolding enc_literals.simps lit_group_encode by (simp add: q q1)
qed simp

subsection \<open>Lengths\<close>

text \<open>A length symbol with its position state.\<close>

primrec enc_lengths :: "'o sink \<Rightarrow> (u32 \<times> u32) list \<Rightarrow> len_enc \<Rightarrow> rcenc \<times> 'o \<Rightarrow> (len_enc \<times> rcenc \<times> 'o) option" where
  "enc_lengths wr [] le st = Some (le, st)"
| "enc_lengths wr (op # ops) le st = do {
     (le, st) \<leftarrow> len_encode wr le (fst op) (snd op) st;
     enc_lengths wr ops le st }"

primrec dec_lengths :: "bytes \<Rightarrow> u32 list \<Rightarrow> u16 list \<Rightarrow> rc \<Rightarrow> (u32 list \<times> u16 list \<times> rc) option" where
  "dec_lengths inp [] probs s = Some ([], probs, s)"
| "dec_lengths inp (ps # pss) probs s = do {
     (probs, len, s) \<leftarrow> decode_len inp 0 (16 * ps) probs s;
     (lens, probs, s) \<leftarrow> dec_lengths inp pss probs s;
     Some (len # lens, probs, s) }"

definition len_table :: "len_enc \<Rightarrow> u16 list" where "len_table le = le_low le @ le_high le"

definition len_enc_ok :: "len_enc \<Rightarrow> bool" where
  "len_enc_ok le \<longleftrightarrow> length (le_low le) = 256 \<and> length (le_high le) = 256 \<and> probs_ok (le_low le) \<and> probs_ok (le_high le)"

lemma len_enc_new_ok: "len_enc_ok len_enc_new"
  by (simp add: len_enc_ok_def len_enc_new_def LZMA_NUM_PB_STATES_MAX_def K_PROB_INIT_VALUE_def list_all_length prob_ok_def lz_consts)

lemma enc_prog_probs:
  "enc_prog wr p bs probs rng st = Some (x, bs', probs', rng', st') \<Longrightarrow> probs_ok probs \<Longrightarrow> probs_ok probs'"
proof (induction p arbitrary: bs probs rng st)
  case (Bit i k)
  obtain b bs1 probs1 rng1 st1 where 1: "encode_at wr probs i rng (of_bool b) st = Some (probs1, rng1, st1)"
    and 2: "enc_prog wr (k b) bs1 probs1 rng1 st1 = Some (x, bs', probs', rng', st')"
    using Bit.prems by (cases bs) (auto split: bind_splits)
  show ?case by (rule Bit.IH [OF rangeI 2 encode_at_probs [OF 1 Bit.prems(2)]])
next
  case (Direct k)
  obtain b bs1 rng1 st1 where 2: "enc_prog wr (k b) bs1 probs rng1 st1 = Some (x, bs', probs', rng', st')"
    using Direct.prems by (cases bs) (auto split: prod.splits)
  show ?case by (rule Direct.IH [OF rangeI 2 Direct.prems(2)])
qed simp

definition len_group :: "u32 \<times> u32 \<Rightarrow> u32 bitprog \<times> bool list" where
  "len_group op = (len_prog 0 (16 * snd op), len_bits (unat (fst op)))"

lemma len_group_encode:
  assumes "unat (fst op) < 272" "unat (snd op) < 16" "len_enc_ok le"
    and "len_encode wr le (fst op) (snd op) st = Some (le1, st1)"
  shows "\<exists>x bs rng e out. enc_prog wr (fst (len_group op)) (snd (len_group op)) (len_table le) (re_range (fst st)) st =
      Some (x, bs, len_table le1, rng, e, out) \<and> st1 = (e\<lparr>re_range := rng\<rparr>, out) \<and> len_enc_ok le1"
proof -
  obtain e out where st: "st = (e, out)" by fastforce
  obtain x bs probs rng e1 out1
    where p: "enc_prog wr (len_prog 0 (16 * snd op)) (len_bits (unat (fst op))) (len_table le) (re_range e) (e, out) = Some (x, bs, probs, rng, e1, out1)"
      and r: "le1 = le\<lparr>le_low := take 256 probs, le_high := drop 256 probs\<rparr>" "st1 = (e1\<lparr>re_range := rng\<rparr>, out1)"
    using assms(4) len_encode_path [of "fst op" "snd op" le wr e out] assms(1-3) unfolding st len_enc_ok_def len_table_def by auto
  have "length probs = 512" "probs_ok probs"
    using enc_prog_length [OF p] enc_prog_probs [OF p] assms(3) by (simp_all add: len_table_def len_enc_ok_def)
  moreover have "list_all prob_ok (take 256 probs @ drop 256 probs)" using \<open>probs_ok probs\<close> by simp
  ultimately have "len_enc_ok le1" "len_table le1 = probs"
    unfolding list_all_append by (simp_all add: r len_table_def len_enc_ok_def)
  then show ?thesis using p r(2) by (auto simp: st len_group_def)
qed

lemma len_group_result:
  assumes "enc_prog wr (fst (len_group op)) (snd (len_group op)) probs rng st = Some (x, bs, r)" "unat (fst op) < 272"
  shows "x = fst op"
proof -
  define n where "n = unat (fst op)"
  have n: "n < 272" "fst op = of_nat n" using assms(2) by (simp_all add: n_def)
  have "x = of_nat n"
  proof -
    consider "n < 8" | "8 \<le> n" "n < 16" | "16 \<le> n" by linarith
    then show ?thesis
    proof cases
      case 1
      then show ?thesis using assms(1)
        by (auto simp: len_group_def len_prog_def len_bits_def n_def [symmetric] enc_prog_bind_Ret dest!: enc_tree_result split: bind_splits)
    next
      case 2
      then have "n mod 8 = n - 8" using le_mod_geq [of 8 n] by simp
      then show ?thesis using assms(1) 2
        by (auto simp: len_group_def len_prog_def len_bits_def n_def [symmetric] of_nat_diff dest!: enc_tree_result split: bind_splits)
    next
      case 3
      then have "(n - 16) mod 256 = n - 16" using n(1) by simp
      then show ?thesis using assms(1) 3
        by (auto simp: len_group_def len_prog_def len_bits_def n_def [symmetric] of_nat_diff enc_prog_bind_Ret lz_consts
            dest!: enc_tree_result split: bind_splits)
    qed
  qed
  then show ?thesis using n(2) by simp
qed

definition len_op_ok :: "u32 \<times> u32 \<Rightarrow> bool" where
  "len_op_ok op \<longleftrightarrow> unat (fst op) < 272 \<and> unat (snd op) < 16"

lemma enc_lengths_progs:
  "enc_lengths wr ops le st = Some (le', st') \<Longrightarrow> list_all len_op_ok ops \<Longrightarrow> len_enc_ok le \<Longrightarrow>
    enc_progs wr (map len_group ops) (len_table le) st = Some (map fst ops, len_table le', st')"
proof (induction ops arbitrary: le st)
  case (Cons op ops)
  obtain le1 st1 where 1: "len_encode wr le (fst op) (snd op) st = Some (le1, st1)" and rest: "enc_lengths wr ops le1 st1 = Some (le', st')"
    using Cons.prems(1) by (auto split: bind_splits)
  have op: "unat (fst op) < 272" "unat (snd op) < 16" using Cons.prems(2) by (simp_all add: len_op_ok_def)
  obtain x bs rng e out where g: "enc_prog wr (fst (len_group op)) (snd (len_group op)) (len_table le) (re_range (fst st)) st =
      Some (x, bs, len_table le1, rng, e, out)" and st1: "st1 = (e\<lparr>re_range := rng\<rparr>, out)" and ok1: "len_enc_ok le1"
    using len_group_encode [OF op Cons.prems(3) 1] by blast
  have "list_all len_op_ok ops" using Cons.prems(2) by simp
  from Cons.IH [OF rest this ok1] show ?case using g len_group_result [OF g op(1)] by (simp add: st1)
qed simp

lemma dec_lengths_progs:
  assumes "dec_progs inp (map (fst \<circ> len_group) ops) probs s = Some (xs, probs', s')" "probs_ok probs" "512 \<le> length probs"
    and "list_all len_op_ok ops"
  shows "dec_lengths inp (map snd ops) probs s = Some (xs, probs', s')"
  using assms
proof (induction ops arbitrary: probs s xs)
  case (Cons op ops)
  obtain x probs1 s1 xs1 where x: "bp_run inp (fst (len_group op)) probs s = Some (x, probs1, s1)"
    and xs1: "dec_progs inp (map (fst \<circ> len_group) ops) probs1 s1 = Some (xs1, probs', s')" and xs: "xs = x # xs1"
    using Cons.prems(1) by (auto simp: comp_def split: bind_splits)
  have ok1: "probs_ok probs1" "length probs1 = length probs" using bp_run_probs [OF x Cons.prems(2)] by auto
  have "unat (16 * snd op) = 16 * unat (snd op)" "unat (snd op) < 16"
    using Cons.prems(4) by (simp_all add: len_op_ok_def unat_word_ariths)
  then have "\<exists>k < 16. unat (16 * snd op) = 16 * k" by blast
  from decode_len_run [OF Cons.prems(2) _ this, of 0 inp s "\<lambda>x p s. Some (p, x, s)"] Cons.prems(3) x
  have "decode_len inp 0 (16 * snd op) probs s = Some (probs1, x, s1)"
    by (cases "decode_len inp 0 (16 * snd op) probs s") (auto simp: len_group_def)
  then show ?case using Cons.IH [OF xs1 ok1(1)] ok1(2) Cons.prems(3,4) by (simp add: xs)
qed simp


lemma path_ok_bind_Ret: "path_ok (bp_bind p (\<lambda>x. Ret (f x))) bs = path_ok p bs"
  by (induction p arbitrary: bs) auto

lemma path_ok_len: "path_ok (len_prog base ps) (len_bits n)"
  by (simp add: len_prog_def len_bits_def path_ok_bind_Ret path_ok_tree lz_consts)

lemma enc_lengths_total:
  "len_enc_ok le \<Longrightarrow> list_all len_op_ok ops \<Longrightarrow> \<exists>r. enc_lengths wr ops le st = Some r"
proof (induction ops arbitrary: le st)
  case (Cons op ops)
  obtain e out where st: "st = (e, out)" by fastforce
  have op: "unat (fst op) < 272" "unat (snd op) < 16" using Cons.prems(2) by (simp_all add: len_op_ok_def)
  have "unat (16 * snd op) = 16 * unat (snd op)" using op by (simp add: unat_word_ariths)
  then have "\<exists>k < 16. unat (16 * snd op) = 16 * k" using op(2) by blast
  then have "bp_in {0..<0 + 512} (len_prog 0 (16 * snd op))" by (rule len_prog_range(2))
  then have "bp_in {..<length (le_low le @ le_high le)} (len_prog 0 (16 * snd op))"
    by (rule bp_in_mono) (use Cons.prems(1) in \<open>auto simp: len_enc_ok_def\<close>)
  from enc_prog_total [OF this path_ok_len [of _ _ "unat (fst op)"], where wr = wr and rng = "re_range e" and st = "(e, out)"]
  obtain le1 st1 where 1: "len_encode wr le (fst op) (snd op) st = Some (le1, st1)"
    using len_encode_path [of "fst op" "snd op" le wr e out] op Cons.prems(1) by (auto simp: st len_enc_ok_def)
  have "len_enc_ok le1" using len_group_encode [OF op Cons.prems(1) 1] by blast
  then show ?case using Cons.IH [of le1 st1] Cons.prems(2) by (simp add: 1)
qed simp

end
