(* ===== verification/RangeProps.thy ===== *)
theory RangeProps
  imports RangeTrip
begin

text \<open>
  The properties of the range encoder: what it encodes its decoder decodes, for any decisions, for
  literals and for lengths, and what \<open>shift_low\<close> keeps.
\<close>

subsection \<open>Streams\<close>

text \<open>A new encoder, a body, then \<open>flush_data\<close> and \<open>flush_stream\<close>, into a \<open>Vec<u8>\<close>.\<close>

definition range_stream :: "(nat \<Rightarrow> bool) \<Rightarrow> (rcenc \<times> bytes \<Rightarrow> ('r \<times> rcenc \<times> bytes) option) \<Rightarrow> (lzma_error + 'r \<times> bytes) option" where
  "range_stream alloc_ok body =
     (case rcenc_new alloc_ok of Inl err \<Rightarrow> Some (Inl err)
      | Inr e \<Rightarrow> do {
          (r, st) \<leftarrow> body (e, []);
          let (e, out) = flush_stream (vec_write alloc_ok) (flush_data (vec_write alloc_ok) st);
          Some (case re_res e of None \<Rightarrow> Inr (r, out) | Some err \<Rightarrow> Inl err) })"

definition literal_stream :: "(nat \<Rightarrow> bool) \<Rightarrow> (u8 \<times> u8 option) list \<Rightarrow> u16 list \<Rightarrow> (lzma_error + u16 list \<times> bytes) option" where
  "literal_stream alloc_ok ops probs = range_stream alloc_ok (enc_literals (vec_write alloc_ok) ops probs)"

definition length_stream :: "(nat \<Rightarrow> bool) \<Rightarrow> (u32 \<times> u32) list \<Rightarrow> len_enc \<Rightarrow> (lzma_error + len_enc \<times> bytes) option" where
  "length_stream alloc_ok ops le = range_stream alloc_ok (enc_lengths (vec_write alloc_ok) ops le)"

text \<open>The decoder at the end of the stream: every byte read, nothing left of the code.\<close>

definition at_end :: "bytes \<Rightarrow> rc \<Rightarrow> bool" where
  "at_end F s \<longleftrightarrow> (\<exists>s'. normalize F s = Some s' \<and> rc_code s' = 0 \<and> rc_buf s' = length F)"

lemma range_stream_progs:
  assumes body: "\<And>e r st. body (e, []) = Some (r, st) \<Longrightarrow>
      \<exists>xs. enc_progs (vec_write alloc_ok) gs probs (e, []) = Some (xs, T r, st) \<and> P r xs"
    and run: "range_stream alloc_ok body = Some (Inr (r, F))" and ok: "probs_ok probs"
  shows "5 \<le> length F \<and> F ! 0 = 0 \<and>
    (\<exists>xs s. P r xs \<and> dec_progs F (map fst gs) probs (rc_start F) = Some (xs, T r, s) \<and> at_end F s)"
proof -
  obtain e0 where new: "rcenc_new alloc_ok = Inr e0"
    using run by (cases "rcenc_new alloc_ok") (auto simp: range_stream_def)
  obtain st where b: "body (e0, []) = Some (r, st)"
    using run by (auto simp: range_stream_def new Let_def split: bind_splits prod.splits option.splits)
  obtain e3 out3 where f: "flush_stream (vec_write alloc_ok) (flush_data (vec_write alloc_ok) st) = (e3, out3)" by fastforce
  have res: "re_res e3 = None" "out3 = F"
    using run by (simp_all add: range_stream_def new b f split: option.splits)
  obtain xs where p: "enc_progs (vec_write alloc_ok) gs probs (e0, []) = Some (xs, T r, st)" and P: "P r xs" using body [OF b] by blast
  have e0: "re_range e0 = 0xFFFFFFFF" "re_cache e0 = 0" "re_low e0 = 0" "re_cache_size e0 = 0"
    "vec_out.produced (e0, []) = []"
    using new by (auto simp: rcenc_new_def vec_out.produced_def split: if_splits)
  note rt = vec_out.stream_round_trip [OF e0 p f res(1) ok, unfolded res(2), simplified id_apply]
  have l: "5 \<le> length F" "be_nat (take 5 F) < 2 ^ 32" using rt by simp_all
  show ?thesis
    using rt P unfolding rc_start_eq(2) [OF l] at_end_def by (auto simp: rc_start_eq(1) [OF l])
qed

lemma range_stream_total:
  assumes "\<And>e. \<exists>r st. body (e, []) = Some (r, st)"
  shows "\<exists>z. range_stream alloc_ok body = Some z"
proof (cases "rcenc_new alloc_ok")
  case (Inr e)
  then show ?thesis using assms [of e] by (auto simp: range_stream_def split_def Let_def)
qed (simp add: range_stream_def)

lemma range_stream_no_error:
  assumes body: "\<And>e r st. body (e, []) = Some (r, st) \<Longrightarrow>
      \<exists>xs. enc_progs (vec_write alloc_ok) gs probs (e, []) = Some (xs, T r, st) \<and> P r xs"
    and ok: "\<And>n. alloc_ok n" and run: "range_stream alloc_ok body = Some z"
  shows "\<exists>r F. z = Inr (r, F)"
proof -
  obtain e0 where new: "rcenc_new alloc_ok = Inr e0" and res0: "re_res e0 = None" using ok by (simp add: rcenc_new_def)
  have w: "fst (vec_write alloc_ok d out) = None" for d out using ok by (simp add: vec_write_def)
  obtain r st where b: "body (e0, []) = Some (r, st)"
    using run by (auto simp: range_stream_def new Let_def split: bind_splits prod.splits option.splits)
  obtain xs where p: "enc_progs (vec_write alloc_ok) gs probs (e0, []) = Some (xs, T r, st)" using body [OF b] by blast
  obtain e3 out3 where f: "flush_stream (vec_write alloc_ok) (flush_data (vec_write alloc_ok) st) = (e3, out3)" by fastforce
  have "re_res e3 = None"
    using vec_out.no_error(1,5) [OF w] vec_out.enc_progs_no_error [OF w p] res0 f by (metis fst_conv)
  then show ?thesis using run by (auto simp: range_stream_def new b f)
qed

subsection \<open>Round trips\<close>

text \<open>C22: Whatever the range encoder produces for a sequence of groups of adaptive and direct bits, the
  range decoder, started on it as \<open>start_coder\<close> does, decodes back: the same values, the same adapted
  probabilities, every byte consumed and a final code of 0; the stream starts with the byte 0.\<close>
theorem range_coder_roundtrip:
  assumes "range_stream alloc_ok (\<lambda>st. map_option (\<lambda>(xs, probs, st). ((xs, probs), st))
      (enc_progs (vec_write alloc_ok) gs probs st)) = Some (Inr ((xs, probs'), F))"
    and "probs_ok probs"
  shows "5 \<le> length F \<and> F ! 0 = 0 \<and>
    (\<exists>s. dec_progs F (map fst gs) probs (rc_start F) = Some (xs, probs', s) \<and> at_end F s)"
  using range_stream_progs [where T = snd and P = "\<lambda>r xs. fst r = xs", OF _ assms] by auto

theorem range_coder_roundtrip_witness:
  "\<exists>xs probs' F s. range_stream (\<lambda>_. True) (\<lambda>st. map_option (\<lambda>(xs, probs, st). ((xs, probs), st))
      (enc_progs (vec_write (\<lambda>_. True)) [(Bit 0 (\<lambda>b. Direct (\<lambda>c. Ret (b, c))), [True, False])] [1024] st)) = Some (Inr ((xs, probs'), F)) \<and>
    dec_progs F [Bit 0 (\<lambda>b. Direct (\<lambda>c. Ret (b, c)))] [1024] (rc_start F) = Some (xs, probs', s) \<and> at_end F s"
proof -
  let ?gs = "[(Bit 0 (\<lambda>b. Direct (\<lambda>c. Ret (b, c))), [True, False])]"
  let ?W = "vec_write (\<lambda>_. True)"
  let ?body = "\<lambda>st. map_option (\<lambda>(xs, probs, st). ((xs, probs), st)) (enc_progs ?W ?gs [1024 :: u16] st)"
  have tot: "\<exists>r st. ?body (e, []) = Some (r, st)" for e
    by (simp add: encode_at_def get_at_def split_def Let_def)
  obtain z where z: "range_stream (\<lambda>_. True) ?body = Some z"
    using range_stream_total [of ?body "\<lambda>_. True", OF tot] by blast
  obtain r F where "z = Inr (r, F)"
    using range_stream_no_error [where body = ?body and gs = ?gs and probs = "[1024]" and alloc_ok = "\<lambda>_. True"
        and T = snd and P = "\<lambda>r xs. True", OF _ _ z] by auto
  then obtain xs probs' where run: "range_stream (\<lambda>_. True) ?body = Some (Inr ((xs, probs'), F))"
    using z by (cases r) auto
  have "probs_ok [1024]" by (simp add: prob_ok_def)
  from range_coder_roundtrip [OF run this] run show ?thesis by auto
qed

text \<open>C20: Literals round-trip: a table with room for a literal coder encodes every sequence of bytes,
  plain or against match bytes, and the literal decoders read the same bytes back and leave the
  table as the encoder left it; with memory at hand the encoder reports no error.\<close>
theorem literal_roundtrip:
  assumes "probs_ok probs" "0x300 \<le> length probs"
  shows "\<exists>z. literal_stream alloc_ok ops probs = Some z \<and> ((\<forall>n. alloc_ok n) \<longrightarrow> (\<exists>probs' F. z = Inr (probs', F))) \<and>
    (\<forall>probs' F. z = Inr (probs', F) \<longrightarrow> F ! 0 = 0 \<and>
      (\<exists>s. dec_literals F (map snd ops) probs (rc_start F) = Some (map fst ops, probs', s) \<and> at_end F s))"
proof -
  have body: "\<exists>xs. enc_progs (vec_write alloc_ok) (map lit_group ops) probs (e, []) = Some (xs, id r, st) \<and> (\<lambda>_ xs. map ucast xs = map fst ops) r xs"
    if "enc_literals (vec_write alloc_ok) ops probs (e, []) = Some (r, st)" for e r st
    using enc_literals_progs [OF that] by simp
  obtain z where z: "literal_stream alloc_ok ops probs = Some z"
    using range_stream_total [of "enc_literals (vec_write alloc_ok) ops probs" alloc_ok] enc_literals_total [OF assms(2)]
    unfolding literal_stream_def by fastforce
  have "F ! 0 = 0 \<and> (\<exists>s. dec_literals F (map snd ops) probs (rc_start F) = Some (map fst ops, probs', s) \<and> at_end F s)"
    if "z = Inr (probs', F)" for probs' F
    using range_stream_progs [where T = id and P = "\<lambda>_ xs. map ucast xs = map fst ops", OF body z [unfolded literal_stream_def that] assms(1)]
      dec_literals_progs [OF _ assms] by fastforce
  then show ?thesis
    using z range_stream_no_error [where T = id and P = "\<lambda>_ xs. map ucast xs = map fst ops", OF body _ z [unfolded literal_stream_def]] by blast
qed

theorem literal_roundtrip_witness:
  "\<exists>probs' F s. literal_stream (\<lambda>_. True) [(65, None), (255, Some 65), (0, None)] (replicate 0x300 1024) = Some (Inr (probs', F)) \<and>
    dec_literals F [None, Some 65, None] (replicate 0x300 1024) (rc_start F) = Some ([65, 255, 0], probs', s) \<and> at_end F s"
  using literal_roundtrip [of "replicate 0x300 1024" "\<lambda>_. True" "[(65, None), (255, Some 65), (0, None)]"]
  by (auto simp: list_all_length prob_ok_def)

text \<open>C21: Lengths round-trip: a length coder in a valid state encodes every sequence of symbols below 272
  with position states below 16, and \<open>decode_len\<close> reads the same symbols back from the coder's two
  tables laid out one after the other, leaving them as the encoder did.\<close>
theorem length_roundtrip:
  assumes "len_enc_ok le" "list_all len_op_ok ops"
  shows "\<exists>z. length_stream alloc_ok ops le = Some z \<and> ((\<forall>n. alloc_ok n) \<longrightarrow> (\<exists>le' F. z = Inr (le', F))) \<and>
    (\<forall>le' F. z = Inr (le', F) \<longrightarrow> F ! 0 = 0 \<and>
      (\<exists>s. dec_lengths F (map snd ops) (len_table le) (rc_start F) = Some (map fst ops, len_table le', s) \<and> at_end F s))"
proof -
  have body: "\<exists>xs. enc_progs (vec_write alloc_ok) (map len_group ops) (len_table le) (e, []) = Some (xs, len_table r, st) \<and>
      (\<lambda>_ xs. xs = map fst ops) r xs"
    if "enc_lengths (vec_write alloc_ok) ops le (e, []) = Some (r, st)" for e r st
    using enc_lengths_progs [OF that assms(2,1)] by simp
  obtain z where z: "length_stream alloc_ok ops le = Some z"
    using range_stream_total [of "enc_lengths (vec_write alloc_ok) ops le" alloc_ok] enc_lengths_total [OF assms]
    unfolding length_stream_def by fastforce
  have t: "probs_ok (len_table le)" "512 \<le> length (len_table le)" using assms(1) by (simp_all add: len_enc_ok_def len_table_def)
  have "F ! 0 = 0 \<and> (\<exists>s. dec_lengths F (map snd ops) (len_table le) (rc_start F) = Some (map fst ops, len_table le', s) \<and> at_end F s)"
    if "z = Inr (le', F)" for le' F
    using range_stream_progs [where T = len_table and P = "\<lambda>_ xs. xs = map fst ops", OF body z [unfolded length_stream_def that] t(1)]
      dec_lengths_progs [OF _ t assms(2)] by fastforce
  then show ?thesis
    using z range_stream_no_error [where T = len_table and P = "\<lambda>_ xs. xs = map fst ops", OF body _ z [unfolded length_stream_def]] by blast
qed

theorem length_roundtrip_witness:
  "\<exists>le' F s. length_stream (\<lambda>_. True) [(0, 0), (13, 2), (271, 15)] len_enc_new = Some (Inr (le', F)) \<and>
    dec_lengths F [0, 2, 15] (len_table len_enc_new) (rc_start F) = Some ([0, 13, 271], len_table le', s) \<and> at_end F s"
  using length_roundtrip [of len_enc_new "[(0, 0), (13, 2), (271, 15)]" "\<lambda>_. True"]
  by (auto simp: len_enc_new_ok len_op_ok_def)

subsection \<open>The carry\<close>

text \<open>C23: \<open>shift_low\<close> keeps the number the encoder stands for: as long as it reports no error, the bytes in the
  sink and the buffer, the held byte, the pending bytes and \<open>low\<close> with its carry are, read as one
  number, exactly 256 times what they were, and one more byte is accounted for; a carry is never lost.\<close>
theorem shift_low_carry:
  assumes "shift_low (vec_write alloc_ok) (e, out) = (e', out')" "enc_inv r e" "r < 2 ^ 24" "re_res e' = None"
  shows "enc_total (out' @ re_buf e') e' = 256 * enc_total (out @ re_buf e) e \<and>
    length (out' @ re_buf e') + re_cache_size e' = length (out @ re_buf e) + re_cache_size e + 1 \<and> enc_inv (256 * r) e'"
  using vec_out.shift_low_ok [OF assms] by (simp add: vec_out.produced_def)

definition carry_enc :: rcenc where
  "carry_enc = \<lparr>re_range = 0x100, re_cache = 7, re_low = 0x100000005, re_cache_size = Suc (Suc 0), re_buf = [], re_processed = 0, re_res = None\<rparr>"

theorem shift_low_carry_witness:
  "\<exists>e. shift_low (vec_write (\<lambda>_. True)) (carry_enc, []) = (e, []) \<and> re_buf e = [8, 0, 0] \<and>
     enc_total ([] @ re_buf e) e = 256 * enc_total ([] @ re_buf carry_enc) carry_enc"
proof -
  define e where "e = carry_enc\<lparr>re_cache := 0, re_low := 0x500, re_cache_size := 0, re_buf := [8, 0, 0]\<rparr>"
  have run: "shift_low (vec_write (\<lambda>_. True)) (carry_enc, []) = (e, [])"
    by (simp add: e_def carry_enc_def shift_low_def rc_push_def RC_BUF_SIZE_def Let_def)
  have "enc_inv 1 carry_enc" by (simp add: enc_inv_def carry_enc_def)
  moreover have "re_res e = None" by (simp add: e_def carry_enc_def)
  moreover have "(1 :: nat) < 2 ^ 24" by simp
  ultimately have "enc_total ([] @ re_buf e) e = 256 * enc_total ([] @ re_buf carry_enc) carry_enc"
    using shift_low_carry [OF run, of 1] by blast
  moreover have "re_buf e = [8, 0, 0]" by (simp add: e_def)
  ultimately show ?thesis using run by blast
qed

end
