(* ===== verification/LzBytes.thy ===== *)
theory LzBytes
  imports LzPrelude
begin

text \<open>
  \<open>to_le_bytes\<close> and \<open>from_le_bytes\<close> of the standard library, and that they are inverse. Everything goes
  through the number a byte string stands for (\<open>le_nat\<close>).
\<close>

definition le_bytes :: "u32 \<Rightarrow> bytes" where
  "le_bytes v = [ucast v, ucast (drop_bit 8 v), ucast (drop_bit 16 v), ucast (drop_bit 24 v)]"

definition u64_from_le_bytes :: "bytes \<Rightarrow> u64" where
  "u64_from_le_bytes bs = of_nat (le_nat bs)"

definition u64_to_le_bytes :: "u64 \<Rightarrow> bytes" where
  "u64_to_le_bytes v = map (\<lambda>i. ucast (drop_bit (8 * i) v)) [0..<8]"

lemma length_le_bytes [simp]: "length (le_bytes v) = 4"
  by (simp add: le_bytes_def)

lemma length_u64_to_le_bytes [simp]: "length (u64_to_le_bytes v) = 8"
  by (simp add: u64_to_le_bytes_def)

lemma byte_lt: "unat (b :: u8) < 256"
  using unsigned_less [of b] by simp

lemma le_nat_less: "le_nat bs < 256 ^ length bs"
proof (induction bs)
  case (Cons b bs)
  have "unat b + 256 * le_nat bs < 256 * Suc (le_nat bs)" using byte_lt [of b] by simp
  also have "\<dots> \<le> 256 * 256 ^ length bs" using Cons.IH by (intro mult_le_mono2) simp
  finally show ?case by simp
qed simp

lemma le_nat_append: "le_nat (xs @ ys) = le_nat xs + 256 ^ length xs * le_nat ys"
  by (induction xs) (simp_all add: algebra_simps)

lemma unat_u32_from_le_bytes: "unat (u32_from_le_bytes a b c d) = le_nat [a, b, c, d]"
proof -
  define w1 where "w1 = (ucast a :: u32) OR push_bit 8 (ucast b)"
  define w2 where "w2 = w1 OR push_bit 16 (ucast c)"
  have b1: "unat a + unat b * 256 < 65536" using byte_lt [of a] byte_lt [of b] by linarith
  have b2: "unat a + unat b * 256 + unat c * 65536 < 16777216" using b1 byte_lt [of c] by linarith
  have b3: "unat a + unat b * 256 + unat c * 65536 + unat d * 16777216 < 4294967296" using b2 byte_lt [of d] by linarith
  have a: "unat a < 256" using byte_lt .
  have w1: "unat w1 = unat a + unat b * 2 ^ 8"
    unfolding w1_def by (subst unat_or_push_bit) (use b1 a in simp_all)
  have w2: "unat w2 = unat a + unat b * 2 ^ 8 + unat c * 2 ^ 16"
    unfolding w2_def by (subst unat_or_push_bit; (simp add: w1)?) (use b1 b2 in simp_all)
  have "unat (w2 OR push_bit 24 (ucast d)) = le_nat [a, b, c, d]"
    by (subst unat_or_push_bit; (simp add: w2)?) (use b2 b3 in simp_all)
  then show ?thesis by (simp add: u32_from_le_bytes_def w2_def w1_def or.assoc)
qed

lemma le_nat_shift: "unat (ucast (drop_bit k (v :: 'a::len word)) :: u8) = unat v div 2 ^ k mod 256"
  by (simp add: unsigned_ucast_eq take_bit_eq_mod unat_drop_bit)

lemma le_nat_bytes:
  "le_nat (map (\<lambda>i. ucast (drop_bit (8 * i) (v :: 'a::len word)) :: u8) [0..<k]) = unat v mod 256 ^ k"
proof (induction k)
  case (Suc k)
  have "unat (ucast (drop_bit (8 * k) v) :: u8) = unat v div 256 ^ k mod 256"
    unfolding le_nat_shift by (simp add: power_mult)
  then show ?case
    using Suc.IH mod_mult2_eq [of "unat v" "256 ^ k" 256] by (simp add: le_nat_append mult.commute)
qed simp

lemma le_bytes_nat [simp]: "le_nat (le_bytes w) = unat w"
proof -
  have "le_bytes w = map (\<lambda>i. ucast (drop_bit (8 * i) w)) [0..<4]" by (simp add: le_bytes_def upt_rec numeral_eq_Suc)
  moreover have "unat w < 256 ^ 4" using unsigned_less [of w] by simp
  ultimately show ?thesis by (simp only: le_nat_bytes) simp
qed

lemma le_bytes_inverse:
  assumes "le_bytes w = [a, b, c, d]"
  shows "u32_from_le_bytes a b c d = w"
  by (rule word_eq_unatI) (simp only: unat_u32_from_le_bytes assms [symmetric] le_bytes_nat)

lemma le_bytes_nth: "u32_from_le_bytes (le_bytes w ! 0) (le_bytes w ! 1) (le_bytes w ! 2) (le_bytes w ! 3) = w"
  by (rule le_bytes_inverse) (simp add: le_bytes_def)

lemma u64_le_inverse [simp]: "u64_from_le_bytes (u64_to_le_bytes v) = v"
proof -
  have "unat v < 256 ^ 8" using unsigned_less [of v] by simp
  then show ?thesis by (simp add: u64_from_le_bytes_def u64_to_le_bytes_def le_nat_bytes del: upt_Suc)
qed

lemma le_nat_inj: "length xs = length ys \<Longrightarrow> le_nat xs = le_nat ys \<Longrightarrow> xs = ys"
proof (induction xs ys rule: list_induct2)
  case (Cons x xs y ys)
  have e: "unat x + 256 * le_nat xs = unat y + 256 * le_nat ys" using Cons.prems by simp
  have "unat x = unat y" using arg_cong [OF e, of "\<lambda>n. n mod 256"] byte_lt [of x] byte_lt [of y] by simp
  then show ?case using e Cons.IH by (simp add: word_eq_unatI)
qed simp

lemma le_bytes_of_bytes [simp]: "le_bytes (u32_from_le_bytes a b c d) = [a, b, c, d]"
  by (rule le_nat_inj) (simp_all add: unat_u32_from_le_bytes)

end
