(* ===== verification/XzStream.thy ===== *)
theory XzStream
  imports Errors LzBytes LzmaState
begin

text \<open>
  \<open>src/src/xz/stream.rs\<close>, \<open>xz/error.rs\<close> and \<open>lzma_alone.rs\<close>: the stream header and footer of an xz file,
  the check they name, and the header of a \<open>.lzma\<close> file; with the writer of the header and the
  footer in \<open>enc/xz_enc.rs\<close>. The CRC-32, a third-party function, is the parameter \<open>crc\<close>. A fixed-size
  array \<open>[u8; n]\<close> is a list whose length is \<open>n\<close>, which its type promises.
\<close>

subsection \<open>Located errors\<close>

record xz_error =
  xe_kind :: xz_error_kind
  xe_stream :: u64
  xe_block :: "u64 option"
  xe_offset :: u64

definition xz_error_at :: "xz_error_kind \<Rightarrow> u64 \<Rightarrow> u64 \<Rightarrow> xz_error" where
  "xz_error_at kind stream offset = \<lparr>xe_kind = kind, xe_stream = stream, xe_block = None, xe_offset = offset\<rparr>"

definition xz_error_in_block :: "xz_error_kind \<Rightarrow> u64 \<Rightarrow> u64 \<Rightarrow> u64 \<Rightarrow> xz_error" where
  "xz_error_in_block kind stream block offset =
     \<lparr>xe_kind = kind, xe_stream = stream, xe_block = Some block, xe_offset = offset\<rparr>"

subsection \<open>Checks\<close>

definition XZ_MAGIC :: bytes where "XZ_MAGIC = [0xFD, 0x37, 0x7A, 0x58, 0x5A, 0x00]"
definition XZ_FOOTER_MAGIC :: bytes where "XZ_FOOTER_MAGIC = [0x59, 0x5A]"
definition STREAM_HEADER_SIZE :: nat where "STREAM_HEADER_SIZE = 12"
definition STREAM_FOOTER_SIZE :: nat where "STREAM_FOOTER_SIZE = 12"

datatype check_type = CheckNone | CheckCrc32 | CheckCrc64 | CheckSha256 | CheckReserved u8

definition check_from_id :: "u8 \<Rightarrow> xz_error_kind + check_type" where
  "check_from_id i =
     (if i = 0x00 then Inr CheckNone
      else if i = 0x01 then Inr CheckCrc32
      else if i = 0x04 then Inr CheckCrc64
      else if i = 0x0A then Inr CheckSha256
      else if i \<in> {0x02, 0x03} \<or> 0x05 \<le> i \<and> i \<le> 0x09 \<or> 0x0B \<le> i \<and> i \<le> 0x0F then Inr (CheckReserved i)
      else Inl BadStreamFlags)"

fun check_id :: "check_type \<Rightarrow> u8" where
  "check_id CheckNone = 0x00"
| "check_id CheckCrc32 = 0x01"
| "check_id CheckCrc64 = 0x04"
| "check_id CheckSha256 = 0x0A"
| "check_id (CheckReserved i) = i"

definition check_size :: "check_type \<Rightarrow> nat" where
  "check_size c = (let i = check_id c in if i = 0 then 0 else 4 * 2 ^ unat ((i - 1) div 3))"

text \<open>\<open>crypto\<close> says whether a build has a SHA-256.\<close>

fun is_verifiable :: "bool \<Rightarrow> check_type \<Rightarrow> bool" where
  "is_verifiable crypto (CheckReserved _) = False"
| "is_verifiable crypto CheckSha256 = crypto"
| "is_verifiable crypto _ = True"

subsection \<open>Flags, header, footer\<close>

record stream_flags =
  sf_check :: check_type
  sf_raw :: "u8 \<times> u8"

definition flags_parse :: "u8 \<times> u8 \<Rightarrow> xz_error_kind + stream_flags" where
  "flags_parse raw =
     (if fst raw \<noteq> 0 \<or> snd raw AND 0xF0 \<noteq> 0 then Inl BadStreamFlags
      else case check_from_id (snd raw AND 0x0F) of Inl e \<Rightarrow> Inl e
        | Inr c \<Rightarrow> Inr \<lparr>sf_check = c, sf_raw = raw\<rparr>)"

record stream_header =
  sh_flags :: stream_flags

type_synonym crc = "bytes \<Rightarrow> u32"

definition header_parse :: "crc \<Rightarrow> bytes \<Rightarrow> xz_error_kind + stream_header" where
  "header_parse crc buf =
     (if take 6 buf \<noteq> XZ_MAGIC then Inl BadMagic
      else if crc (take 2 (drop 6 buf)) \<noteq> u32_from_le_bytes (buf ! 8) (buf ! 9) (buf ! 10) (buf ! 11) then Inl HeaderCrc
      else case flags_parse (buf ! 6, buf ! 7) of Inl e \<Rightarrow> Inl e | Inr f \<Rightarrow> Inr \<lparr>sh_flags = f\<rparr>)"

record stream_footer =
  st_flags :: stream_flags
  st_index_size :: u64

definition footer_parse :: "crc \<Rightarrow> bytes \<Rightarrow> xz_error_kind + stream_footer" where
  "footer_parse crc buf =
     (if take 2 (drop 10 buf) \<noteq> XZ_FOOTER_MAGIC then Inl BadFooterMagic
      else if crc (take 6 (drop 4 buf)) \<noteq> u32_from_le_bytes (buf ! 0) (buf ! 1) (buf ! 2) (buf ! 3) then Inl HeaderCrc
      else let backward = (ucast (u32_from_le_bytes (buf ! 4) (buf ! 5) (buf ! 6) (buf ! 7)) :: u64)
        in case flags_parse (buf ! 8, buf ! 9) of Inl e \<Rightarrow> Inl e
          | Inr f \<Rightarrow> Inr \<lparr>st_flags = f, st_index_size = (backward + 1) * 4\<rparr>)"

definition probe :: "crc \<Rightarrow> bytes \<Rightarrow> stream_header option" where
  "probe crc data =
     (if STREAM_HEADER_SIZE \<le> length data
      then (case header_parse crc (take STREAM_HEADER_SIZE data) of Inl _ \<Rightarrow> None | Inr h \<Rightarrow> Some h)
      else None)"

definition footer_at :: "crc \<Rightarrow> bytes \<Rightarrow> nat \<Rightarrow> xz_error + stream_footer" where
  "footer_at crc data pos =
     (if pos + STREAM_FOOTER_SIZE \<le> length data
      then (case footer_parse crc (take STREAM_FOOTER_SIZE (drop pos data)) of
          Inl k \<Rightarrow> Inl (xz_error_at k 0 (of_nat pos)) | Inr f \<Rightarrow> Inr f)
      else Inl (xz_error_at TruncatedInput 0 (of_nat pos)))"

subsection \<open>The writer\<close>

definition stream_flag_bytes :: "check_type \<Rightarrow> bytes" where
  "stream_flag_bytes c = [0, check_id c]"

definition write_stream_header :: "crc \<Rightarrow> check_type \<Rightarrow> bytes \<Rightarrow> bytes" where
  "write_stream_header crc c out =
     (let flags = stream_flag_bytes c in out @ XZ_MAGIC @ flags @ le_bytes (crc flags))"

text \<open>\<open>None\<close> is the underflow of \<open>index_size / 4 - 1\<close>, which an index of at least 8 bytes excludes.\<close>

definition write_footer :: "crc \<Rightarrow> check_type \<Rightarrow> u64 \<Rightarrow> bytes \<Rightarrow> bytes option" where
  "write_footer crc c index_size out =
     (if index_size div 4 = 0 then None
      else let backward = (ucast (index_size div 4 - 1) :: u32);
               fields = le_bytes backward @ stream_flag_bytes c
           in Some (out @ le_bytes (crc fields) @ fields @ XZ_FOOTER_MAGIC))"

subsection \<open>The \<open>.lzma\<close> header\<close>

definition LZMA_ALONE_HEADER_SIZE :: nat where "LZMA_ALONE_HEADER_SIZE = LZMA_PROPS_SIZE + 8"

record alone_header =
  ah_props :: lzma_props
  ah_size :: "u64 option"

definition alone_parse :: "bytes \<Rightarrow> (lzma_error + alone_header) option" where
  "alone_parse header = do {
     r \<leftarrow> props_parse (take LZMA_PROPS_SIZE header);
     Some (case r of Inl e \<Rightarrow> Inl e
       | Inr props \<Rightarrow>
           let raw = u64_from_le_bytes (drop LZMA_PROPS_SIZE header)
           in Inr \<lparr>ah_props = props, ah_size = (if raw = - 1 then None else Some raw)\<rparr>) }"

subsection \<open>What the writer writes the parser reads\<close>

definition check_ok :: "check_type \<Rightarrow> bool" where
  "check_ok c \<longleftrightarrow> check_from_id (check_id c) = Inr c"

lemma check_from_id_Inr: "check_from_id i = Inr c \<Longrightarrow> check_id c = i \<and> i \<le> 15 \<and> check_ok c"
  by (auto simp: check_from_id_def check_ok_def intro: order_trans split: if_splits)

lemma check_ok_id: "check_ok c \<Longrightarrow> check_id c \<le> 15"
  using check_from_id_Inr [of "check_id c" c] by (simp add: check_ok_def)

lemma and_F0: "i AND 0xF0 = 0 \<longleftrightarrow> i \<le> 15" and and_0F: "i \<le> 15 \<Longrightarrow> i AND 0x0F = i" for i :: u8
proof -
  have m: "i AND 0x0F = take_bit 4 i" by (simp add: take_bit_eq_mask mask_eq_exp_minus_1)
  have n: "0xF0 = (NOT (mask 4) :: u8)" by (simp add: mask_eq_exp_minus_1)
  have u: "unat (take_bit 4 i) = unat i mod 16" using unat_and_mask [of i 4] by (simp only: take_bit_eq_mask) simp
  have t: "take_bit 4 i = i \<longleftrightarrow> i \<le> 15"
  proof
    assume "take_bit 4 i = i"
    then have "unat i = unat i mod 16" using u by simp
    then have "unat i < 16" using mod_less_divisor [of 16 "unat i"] by linarith
    then show "i \<le> 15" by (simp add: word_le_nat_alt)
  next
    assume "i \<le> 15"
    then have "unat i < 2 ^ 4" by (simp add: word_le_nat_alt)
    then show "take_bit 4 i = i" by (intro word_eq_unatI) (simp add: unsigned_take_bit_eq take_bit_nat_eq_self)
  qed
  have split: "i = take_bit 4 i OR (i AND NOT (mask 4))" by (rule bit_word_eqI) (auto simp: bit_simps)
  have "i AND NOT (mask 4) = 0" if "take_bit 4 i = i"
    
  proof (rule bit_word_eqI)
    fix k
    have "bit i k \<Longrightarrow> k < 4" using that by (metis bit_take_bit_iff)
    then show "bit (i AND NOT (mask 4)) k = bit (0 :: u8) k" by (auto simp: bit_simps)
  qed
  moreover have "take_bit 4 i = i" if "i AND NOT (mask 4) = 0" using split that by simp
  ultimately show "i AND 0xF0 = 0 \<longleftrightarrow> i \<le> 15" unfolding n t [symmetric] by blast
  show "i \<le> 15 \<Longrightarrow> i AND 0x0F = i" using m t by simp
qed

lemma flags_parse_ok: "check_ok c \<Longrightarrow> flags_parse (0, check_id c) = Inr \<lparr>sf_check = c, sf_raw = (0, check_id c)\<rparr>"
  using check_ok_id [of c] by (simp add: flags_parse_def and_F0 and_0F check_ok_def)

lemma flags_parse_Inr: "flags_parse raw = Inr f \<Longrightarrow> sf_raw f = raw \<and> raw = (0, check_id (sf_check f)) \<and> check_ok (sf_check f)"
  by (cases raw) (auto simp: flags_parse_def and_F0 and_0F dest: check_from_id_Inr split: if_splits sum.splits)

lemma list12: "length xs = 12 \<Longrightarrow> xs = [xs ! 0, xs ! 1, xs ! 2, xs ! 3, xs ! 4, xs ! 5, xs ! 6, xs ! 7, xs ! 8, xs ! 9, xs ! 10, xs ! 11]"
  by (rule nth_equalityI) (auto simp: less_Suc_eq numeral_eq_Suc)

lemma le_bytes_list: "le_bytes w = [le_bytes w ! 0, le_bytes w ! 1, le_bytes w ! 2, le_bytes w ! 3]"
  by (simp add: le_bytes_def)

lemma write_header_length [simp]: "length (write_stream_header crc c []) = 12"
  by (simp add: write_stream_header_def stream_flag_bytes_def XZ_MAGIC_def Let_def)

lemma header_parse_write:
  assumes "check_ok c"
  shows "header_parse crc (write_stream_header crc c []) = Inr \<lparr>sh_flags = \<lparr>sf_check = c, sf_raw = (0, check_id c)\<rparr>\<rparr>"
proof -
  obtain a b d e where l: "le_bytes (crc [0, check_id c]) = [a, b, d, e]" by (simp add: le_bytes_def)
  show ?thesis
    unfolding header_parse_def write_stream_header_def stream_flag_bytes_def Let_def XZ_MAGIC_def
    by (simp add: l le_bytes_inverse [OF l] flags_parse_ok [OF assms] numeral_eq_Suc)
qed

lemma footer_parse_write:
  assumes "check_ok c" "write_footer crc c n [] = Some F" "4 dvd unat n" "unat n \<le> 2 ^ 34"
  shows "footer_parse crc F = Inr \<lparr>st_flags = \<lparr>sf_check = c, sf_raw = (0, check_id c)\<rparr>, st_index_size = n\<rparr> \<and> length F = 12"
proof -
  define w where "w = (ucast (n div 4 - 1) :: u32)"
  define fields where "fields = le_bytes w @ [0, check_id c]"
  obtain a b d e where l: "le_bytes w = [a, b, d, e]" by (simp add: le_bytes_def)
  obtain a' b' d' e' where l': "le_bytes (crc fields) = [a', b', d', e']" by (simp add: le_bytes_def)
  have F: "F = [a', b', d', e', a, b, d, e, 0, check_id c, 0x59, 0x5A]" and nz: "n div 4 \<noteq> 0"
    using assms(2) unfolding write_footer_def Let_def stream_flag_bytes_def w_def [symmetric] fields_def [symmetric] l'
    by (auto simp: fields_def l XZ_FOOTER_MAGIC_def split: if_splits)
  have fl: "fields = [a, b, d, e, 0, check_id c]" by (simp add: fields_def l)
  have bwd: "(ucast w + 1) * 4 = n"
  proof -
    obtain m where m: "unat n = 4 * m" using assms(3) by (elim dvdE)
    have d: "unat (n div 4) = m" using m by (simp add: unat_div)
    have m0: "0 < m" using nz d unat_eq_0 [of "n div 4"] by (cases m) auto
    then have "unat (n div 4 - 1) = m - 1" using d by (simp add: unat_sub word_le_nat_alt)
    moreover have lt: "m - 1 < 4294967296" using m m0 assms(4) by simp
    ultimately have w: "unat w = m - 1" by (simp add: w_def unsigned_ucast_eq take_bit_nat_eq_self)
    have "unat ((ucast w + 1 :: u64) * 4) = 4 * m"
      using w lt m0 by (simp add: unat_word_ariths unsigned_ucast_eq take_bit_nat_eq_self)
    then show ?thesis using m by (intro word_eq_unatI) simp
  qed
  then have bwd: "ucast w * 4 + 4 = n" by (simp add: distrib_right)
  show ?thesis
    unfolding footer_parse_def F XZ_FOOTER_MAGIC_def Let_def
    by (simp add: le_bytes_inverse [OF l] le_bytes_inverse [OF l'] fl [symmetric] flags_parse_ok [OF assms(1)] bwd numeral_eq_Suc)
qed

lemma header_parse_only:
  assumes "length buf = 12" "header_parse crc buf = Inr h"
  shows "buf = write_stream_header crc (sf_check (sh_flags h)) [] \<and> check_ok (sf_check (sh_flags h))"
proof -
  have m: "take 6 buf = XZ_MAGIC" and c: "crc (take 2 (drop 6 buf)) = u32_from_le_bytes (buf ! 8) (buf ! 9) (buf ! 10) (buf ! 11)"
    and f: "flags_parse (buf ! 6, buf ! 7) = Inr (sh_flags h)"
    using assms(2) by (auto simp: header_parse_def split: if_splits sum.splits)
  note fl = flags_parse_Inr [OF f]
  have t: "take 2 (drop 6 buf) = [buf ! 6, buf ! 7]" "drop 8 buf = [buf ! 8, buf ! 9, buf ! 10, buf ! 11]"
    by (subst list12 [OF assms(1)]; simp add: numeral_eq_Suc)+
  have "buf = take 6 buf @ take 2 (drop 6 buf) @ drop 8 buf"
    by (subst list12 [OF assms(1)], subst (13 14 15) list12 [OF assms(1)]) (simp add: numeral_eq_Suc)
  then show ?thesis
    using fl c unfolding m t write_stream_header_def stream_flag_bytes_def Let_def by simp
qed

end
