(* ===== verification/Vli.thy ===== *)
theory Vli
  imports Errors
begin

text \<open>
  \<open>src/src/xz/vli.rs\<close>: the variable-length integers of the .xz container. Seven bits per byte,
  little end first, at most nine bytes. The reference encoding \<open>vli_bytes\<close> is on \<open>nat\<close>; the encoder
  computes it, the decoder accepts it and nothing else.
\<close>

subsection \<open>The code\<close>

definition VLI_MAX_BYTES :: nat where "VLI_MAX_BYTES = 9"

definition VLI_MAX :: u64 where "VLI_MAX = 0x7FFFFFFFFFFFFFFF"

function vli_decode_loop :: "bytes \<Rightarrow> nat \<Rightarrow> u64 \<Rightarrow> xz_error_kind + (u64 \<times> nat)" where
  "vli_decode_loop buf i val =
     (if VLI_MAX_BYTES \<le> i then Inl BadVli
      else case get_at buf i of
        None \<Rightarrow> Inl TruncatedVli
      | Some b \<Rightarrow>
          if b = 0 then Inl BadVli
          else
            let val' = val OR push_bit (i * 7) (ucast (b AND 0x7F)) in
            if b AND 0x80 = 0
            then (if VLI_MAX < val' then Inl BadVli else Inr (val', i + 1))
            else vli_decode_loop buf (i + 1) val')"
  by pat_completeness auto
termination
  by (relation "measure (\<lambda>(buf, i, val). VLI_MAX_BYTES - i)") auto

declare vli_decode_loop.simps [simp del]

definition vli_decode :: "bytes \<Rightarrow> xz_error_kind + (u64 \<times> nat)" where
  "vli_decode buf =
     (case get_at buf 0 of
        None \<Rightarrow> Inl TruncatedVli
      | Some first \<Rightarrow>
          let val = ucast (first AND 0x7F) in
          if first AND 0x80 = 0 then Inr (val, 1) else vli_decode_loop buf 1 val)"

text \<open>\<open>decode_at(buf, &mut pos)\<close> returns the value and the advanced position.\<close>

definition vli_decode_at :: "bytes \<Rightarrow> nat \<Rightarrow> xz_error_kind + (u64 \<times> nat)" where
  "vli_decode_at buf pos =
     (case vli_decode (if pos \<le> length buf then drop pos buf else []) of
        Inl e \<Rightarrow> Inl e
      | Inr (v, n) \<Rightarrow> Inr (v, pos + n))"

lemma drop_bit_7_less [simp]: "v \<noteq> 0 \<Longrightarrow> unat (drop_bit 7 (v :: u64)) < unat v"
  by (simp add: unat_drop_bit unat_gt_0)

function vli_encoded_len_loop :: "nat \<Rightarrow> u64 \<Rightarrow> nat" where
  "vli_encoded_len_loop n v = (if v = 0 then n else vli_encoded_len_loop (n + 1) (drop_bit 7 v))"
  by pat_completeness auto
termination
  by (relation "measure (\<lambda>(n, v). unat v)") auto

declare vli_encoded_len_loop.simps [simp del]

definition vli_encoded_len :: "u64 \<Rightarrow> nat" where
  "vli_encoded_len val = vli_encoded_len_loop 1 (drop_bit 7 val)"

text \<open>\<open>encode(value, &mut buf)\<close>: \<open>None\<close> is the \<open>assert!\<close> or the out-of-range store.\<close>

function vli_encode_loop :: "u64 \<Rightarrow> bytes \<Rightarrow> nat \<Rightarrow> (bytes \<times> nat) option" where
  "vli_encode_loop v buf i =
     (if 0x80 \<le> v
      then (case set_at buf i (ucast v OR 0x80) of
              None \<Rightarrow> None
            | Some buf' \<Rightarrow> vli_encode_loop (drop_bit 7 v) buf' (i + 1))
      else (case set_at buf i (ucast v) of None \<Rightarrow> None | Some buf' \<Rightarrow> Some (buf', i + 1)))"
  by pat_completeness auto
termination
  by (relation "measure (\<lambda>(v, buf, i). unat v)") (auto intro!: drop_bit_7_less)

declare vli_encode_loop.simps [simp del]

definition vli_encode :: "u64 \<Rightarrow> bytes \<Rightarrow> (bytes \<times> nat) option" where
  "vli_encode val buf = (if val \<le> VLI_MAX then vli_encode_loop val buf 0 else None)"

definition vli_push :: "u64 \<Rightarrow> bytes \<Rightarrow> bytes option" where
  "vli_push val out =
     (case vli_encode val (replicate VLI_MAX_BYTES 0) of
        None \<Rightarrow> None
      | Some (buf, n) \<Rightarrow> Some (out @ take n buf))"

subsection \<open>The reference encoding\<close>

fun vli_bytes :: "nat \<Rightarrow> bytes" where
  "vli_bytes n = (if n < 128 then [of_nat n] else of_nat (n mod 128 + 128) # vli_bytes (n div 128))"
declare vli_bytes.simps [simp del]

subsection \<open>Bytes\<close>

lemma unat_and_7F: "unat ((b::u8) AND 0x7F) = unat b mod 128"
  using unat_and_mask [of b 7] by (simp add: mask_eq_exp_minus_1)

lemma and_80_eq_0_iff: "(b::u8) AND 0x80 = 0 \<longleftrightarrow> unat b < 128"
proof -
  have "b AND 0x80 = 0 \<longleftrightarrow> \<not> bit b 7"
    using and_exp_eq_0_iff_not_bit [of b 7] by simp
  also have "bit b 7 \<longleftrightarrow> odd (unat b div 2 ^ 7)"
    using bit_unat [of b 7] bit_iff_odd [of "unat b" 7] by simp
  also have "\<not> odd (unat b div 2 ^ 7) \<longleftrightarrow> unat b < 128"
  proof -
    have "unat b div 128 < 2" using unat_u8_lt [of b] by (simp add: less_mult_imp_div_less del: unat_u8_lt)
    then show ?thesis by (cases "unat b div 128 = 0") (auto simp: div_eq_0_iff less_2_cases_iff)
  qed
  finally show ?thesis .
qed

lemma unat_or_80: "unat (ucast (v::u64) OR (0x80::u8)) = unat v mod 128 + 128"
proof -
  have "ucast v OR (0x80::u8) = (ucast v AND mask 7) OR push_bit 7 1"
    by (rule bit_word_eqI) (auto simp: bit_simps mask_eq_exp_minus_1 less_Suc_eq numeral_eq_Suc)
  moreover have u: "unat ((ucast v :: u8) AND mask 7) = unat v mod 128"
    unfolding unat_and_mask by (simp add: unsigned_ucast_eq take_bit_eq_mod mod_mod_cancel)
  moreover have "unat (((ucast v :: u8) AND mask 7) OR push_bit 7 1) = unat v mod 128 + unat (1::u8) * 2 ^ 7"
    unfolding u [symmetric] by (rule unat_or_push_bit) (simp_all only: u, simp_all)
  ultimately show ?thesis by simp
qed

subsection \<open>The encoder writes the reference encoding\<close>

lemma length_vli_bytes_pos [simp]: "0 < length (vli_bytes n)"
  by (subst vli_bytes.simps) simp

lemma vli_bytes_neq_Nil [simp]: "vli_bytes n \<noteq> []"
  using length_vli_bytes_pos [of n] by (simp del: length_vli_bytes_pos)

lemma length_vli_bytes_le: "n < 128 ^ k \<Longrightarrow> 0 < k \<Longrightarrow> length (vli_bytes n) \<le> k"
proof (induction n arbitrary: k rule: vli_bytes.induct)
  case (1 n)
  show ?case
  proof (cases "n < 128")
    case False
    with "1.prems" obtain k' where k: "k = Suc k'" "0 < k'"
      by (cases k; cases "k - 1") auto
    then have "n div 128 < 128 ^ k'"
      using "1.prems" by (simp add: less_mult_imp_div_less)
    then show ?thesis
      using "1.IH" False k by (subst vli_bytes.simps) simp
  qed (use "1.prems" in \<open>subst vli_bytes.simps, simp\<close>)
qed

lemma word_of_nat_unat_mod: "(word_of_nat (unat v) :: u8) = ucast (v::u64)"
  by simp

lemma vli_encode_loop_eq:
  "i + length (vli_bytes (unat v)) \<le> length buf \<Longrightarrow>
   vli_encode_loop v buf i =
     Some (take i buf @ vli_bytes (unat v) @ drop (i + length (vli_bytes (unat v))) buf,
           i + length (vli_bytes (unat v)))"
proof (induction v buf i rule: vli_encode_loop.induct)
  case (1 v buf i)
  have byte: "word_of_nat (unat v mod 128 + 128) = ucast v OR (0x80::u8)"
    by (rule word_eq_unatI) (simp add: unat_or_80 unat_of_nat_small del: of_nat_add)
  show ?case
  proof (cases "0x80 \<le> v")
    case True
    then have big: "\<not> unat v < 128" by (simp add: word_le_nat_alt)
    let ?bs = "vli_bytes (unat v div 128)"
    have bs: "vli_bytes (unat v) = (ucast v OR 0x80) # ?bs"
      using big by (subst vli_bytes.simps) (simp only: if_False byte)
    have len: "i < length buf" "Suc i + length ?bs \<le> length buf"
      using "1.prems" by (auto simp: bs)
    have dv: "unat (drop_bit 7 v) = unat v div 128"
      using unat_drop_bit [of 7 v] by (simp del: unsigned_drop_bit_eq)
    let ?b1 = "buf[i := ucast v OR 0x80]"
    have "vli_encode_loop (drop_bit 7 v) ?b1 (i + 1) =
      Some (take (i + 1) ?b1 @ ?bs @ drop (i + 1 + length ?bs) ?b1, i + 1 + length ?bs)"
      using "1.IH" [of ?b1] True len by (simp only: dv) simp
    then show ?thesis
      using True len by (subst vli_encode_loop.simps) (simp add: bs set_at_def take_Suc_conv_app_nth)
  next
    case False
    then have small: "unat v < 128" by (simp add: word_le_nat_alt not_le)
    have bs: "vli_bytes (unat v) = [ucast v]"
      using small by (subst vli_bytes.simps) simp
    then show ?thesis
      using False "1.prems"
      by (subst vli_encode_loop.simps) (simp add: set_at_def upd_conv_take_nth_drop)
  qed
qed

lemma vli_encoded_len_loop_eq:
  "vli_encoded_len_loop n v = (if v = 0 then n else n + length (vli_bytes (unat v)))"
proof (induction n v rule: vli_encoded_len_loop.induct)
  case (1 n v)
  have dv: "unat (drop_bit 7 v) = unat v div 128"
    using unat_drop_bit [of 7 v] by simp
  have z: "drop_bit 7 v = 0 \<longleftrightarrow> unat v < 128"
    using dv by (metis div_eq_0_iff unat_eq_zero zero_neq_numeral)
  show ?case
    using "1.IH" by (subst vli_encoded_len_loop.simps, cases "v = 0")
      (auto simp: z dv vli_bytes.simps [of "unat v"] simp del: drop_bit_eq_div)
qed

lemma vli_encoded_len_eq: "vli_encoded_len v = length (vli_bytes (unat v))"
proof -
  have dv: "unat (drop_bit 7 v) = unat v div 128"
    using unat_drop_bit [of 7 v] by simp
  have z: "drop_bit 7 v = 0 \<longleftrightarrow> unat v < 128"
    using dv by (metis div_eq_0_iff unat_eq_zero zero_neq_numeral)
  show ?thesis
    unfolding vli_encoded_len_def vli_encoded_len_loop_eq dv
    by (auto simp: z vli_bytes.simps [of "unat v"])
qed

lemma VLI_MAX_nat: "v \<le> VLI_MAX \<longleftrightarrow> unat v < 2 ^ 63"
  by (simp add: VLI_MAX_def word_le_nat_alt less_Suc_eq_le [symmetric])

lemma length_vli_bytes_le_9: "unat v < 2 ^ 63 \<Longrightarrow> length (vli_bytes (unat v)) \<le> 9"
  by (rule length_vli_bytes_le) simp_all

lemma vli_encode_eq:
  assumes "v \<le> VLI_MAX" "vli_encoded_len v \<le> length buf"
  shows "vli_encode v buf =
    Some (vli_bytes (unat v) @ drop (vli_encoded_len v) buf, vli_encoded_len v)"
  using assms vli_encode_loop_eq [of 0 v buf] by (simp add: vli_encode_def vli_encoded_len_eq)

lemma vli_push_eq:
  assumes "v \<le> VLI_MAX"
  shows "vli_push v out = Some (out @ vli_bytes (unat v))"
proof -
  have "vli_encoded_len v \<le> 9"
    using assms length_vli_bytes_le_9 by (simp add: VLI_MAX_nat vli_encoded_len_eq)
  then show ?thesis
    using assms by (simp add: vli_push_def vli_encode_eq VLI_MAX_BYTES_def vli_encoded_len_eq)
qed

subsection \<open>The decoder reads it back and accepts nothing else\<close>

lemma vli_byte_low: "n < 128 \<Longrightarrow> unat (word_of_nat n :: u8) = n"
  by (rule unat_of_nat_small) simp

lemma vli_byte_high: "unat (word_of_nat (n mod 128 + 128) :: u8) = n mod 128 + 128"
  by (rule unat_of_nat_small) (use mod_less_divisor [of 128 n] in simp)

lemma vli_byte_cont:
  assumes "\<not> unat (b::u8) < 128"
  shows "word_of_nat (unat b mod 128 + 128) = b"
proof (rule word_eq_unatI)
  obtain k where k: "unat b = 128 + k" using assms le_Suc_ex [of 128 "unat b"] by auto
  with unat_u8_lt [of b] have "k < 128" by linarith
  with k show "unat (word_of_nat (unat b mod 128 + 128) :: u8) = unat b"
    by (simp only: vli_byte_high) simp
qed

text \<open>One continuation byte adds its seven bits above the bits read so far.\<close>

lemma vli_accumulate:
  assumes "unat val < 2 ^ (7 * i)" "i < 9"
  shows "unat (val OR push_bit (i * 7) (ucast (b AND 0x7F) :: u64)) = unat val + (unat (b::u8) mod 128) * 2 ^ (7 * i)"
    and "unat (val OR push_bit (i * 7) (ucast (b AND 0x7F) :: u64)) < 2 ^ (7 * Suc i)"
proof -
  have m: "unat (ucast (b AND 0x7F) :: u64) = unat b mod 128"
    by (simp add: unat_and_7F)
  have s: "unat val + (unat b mod 128) * 2 ^ (7 * i) < 2 ^ (7 * Suc i)"
  proof -
    have "Suc (unat b mod 128) * 2 ^ (7 * i) \<le> 128 * 2 ^ (7 * i)"
      by (rule mult_le_mono1) (simp add: Suc_leI)
    then have "unat val + (unat b mod 128) * 2 ^ (7 * i) < 128 * 2 ^ (7 * i)"
      using assms(1) by (simp only: mult_Suc)
    then show ?thesis by (simp add: power_add)
  qed
  also have "(2::nat) ^ (7 * Suc i) \<le> 2 ^ 63"
    using assms(2) by (intro power_increasing) auto
  finally have "unat val + (unat b mod 128) * 2 ^ (7 * i) < 2 ^ 64" by simp
  then show "unat (val OR push_bit (i * 7) (ucast (b AND 0x7F) :: u64)) = unat val + (unat b mod 128) * 2 ^ (7 * i)"
    using assms(1) unat_or_push_bit [of val "i * 7" "ucast (b AND 0x7F) :: u64"] m
    by (simp add: mult.commute [of i 7])
  with s show "unat (val OR push_bit (i * 7) (ucast (b AND 0x7F) :: u64)) < 2 ^ (7 * Suc i)" by simp
qed

lemma vli_below_max: "unat (val::u64) < 2 ^ (7 * i) \<Longrightarrow> i \<le> 9 \<Longrightarrow> \<not> VLI_MAX < val"
proof -
  assume "unat val < 2 ^ (7 * i)" "i \<le> 9"
  then have "unat val < 2 ^ 63"
    using power_increasing [of "7 * i" 63 "2::nat"] by simp
  then show ?thesis by (simp add: VLI_MAX_nat not_less)
qed

lemma vli_decode_loop_step:
  assumes "get_at buf i = Some b" "i < 9" "unat val < 2 ^ (7 * i)"
  obtains val' where "unat val' = unat val + (unat b mod 128) * 2 ^ (7 * i)"
    and "unat val' < 2 ^ (7 * Suc i)"
    and "vli_decode_loop buf i val =
      (if unat b = 0 then Inl BadVli else if unat b < 128 then Inr (val', i + 1)
       else vli_decode_loop buf (i + 1) val')"
proof
  let ?val = "val OR push_bit (i * 7) (ucast (b AND 0x7F))"
  note acc = vli_accumulate [OF assms(3,2), of b]
  show "unat ?val = unat val + (unat b mod 128) * 2 ^ (7 * i)" "unat ?val < 2 ^ (7 * Suc i)"
    by (rule acc)+
  have "\<not> VLI_MAX < ?val"
    using acc(2) assms(2) by (intro vli_below_max [of _ "Suc i"]) auto
  then show "vli_decode_loop buf i val =
      (if unat b = 0 then Inl BadVli else if unat b < 128 then Inr (?val, i + 1)
       else vli_decode_loop buf (i + 1) ?val)"
    using assms(1,2)
    by (subst vli_decode_loop.simps) (simp add: and_80_eq_0_iff VLI_MAX_BYTES_def Let_def unat_eq_zero)
qed

lemma vli_decode_loop_bytes:
  assumes "length pre = i" "0 < n" "unat val < 2 ^ (7 * i)" "n < 128 ^ (9 - i)" "i < 9"
  shows "vli_decode_loop (pre @ vli_bytes n @ rest) i val =
    Inr (of_nat (unat val + n * 2 ^ (7 * i)), i + length (vli_bytes n))"
  using assms
proof (induction n arbitrary: pre i val rule: vli_bytes.induct)
  case (1 n)
  show ?case
  proof (cases "n < 128")
    case True
    let ?b = "word_of_nat n :: u8"
    have b: "unat ?b = n" using True by (rule vli_byte_low)
    have bs: "vli_bytes n = [?b]" using True by (subst vli_bytes.simps) simp
    have g: "get_at (pre @ vli_bytes n @ rest) i = Some ?b"
      using "1.prems"(1) bs by (simp add: nth_append)
    obtain val' where v: "unat val' = unat val + n * 2 ^ (7 * i)"
      and d: "vli_decode_loop (pre @ vli_bytes n @ rest) i val = Inr (val', i + 1)"
      using vli_decode_loop_step [OF g "1.prems"(5,3)] b True "1.prems"(2) by auto
    from v have "val' = of_nat (unat val + n * 2 ^ (7 * i))"
      by (metis of_nat_unat ucast_id)
    with d bs show ?thesis by simp
  next
    case False
    let ?b = "word_of_nat (n mod 128 + 128) :: u8"
    have b: "unat ?b = n mod 128 + 128" by (rule vli_byte_high)
    have bs: "vli_bytes n = ?b # vli_bytes (n div 128)" using False by (subst vli_bytes.simps) simp
    have g: "get_at (pre @ vli_bytes n @ rest) i = Some ?b"
      using "1.prems"(1) bs by (simp add: nth_append del: of_nat_add)
    obtain val' where v: "unat val' = unat val + (n mod 128) * 2 ^ (7 * i)"
      and lt: "unat val' < 2 ^ (7 * Suc i)"
      and d: "vli_decode_loop (pre @ vli_bytes n @ rest) i val =
         vli_decode_loop (pre @ vli_bytes n @ rest) (i + 1) val'"
      using vli_decode_loop_step [OF g "1.prems"(5,3)] b by auto
    have "i \<noteq> 8" using "1.prems"(4) False by auto
    then have i: "Suc i < 9" "9 - i = Suc (9 - Suc i)" using "1.prems"(5) by auto
    have n': "0 < n div 128" "n div 128 < 128 ^ (9 - Suc i)"
      using False "1.prems"(4) i(2) by (auto simp: div_greater_zero_iff less_mult_imp_div_less)
    have "vli_decode_loop ((pre @ [?b]) @ vli_bytes (n div 128) @ rest) (Suc i) val' =
      Inr (of_nat (unat val' + n div 128 * 2 ^ (7 * Suc i)), Suc i + length (vli_bytes (n div 128)))"
      using "1.IH" [OF False, of "pre @ [?b]" "Suc i" val'] "1.prems"(1) n' lt i by simp
    moreover have "unat val' + n div 128 * 2 ^ (7 * Suc i) = unat val + n * 2 ^ (7 * i)"
    proof -
      have "n div 128 * 2 ^ (7 * Suc i) = (n div 128 * 128) * 2 ^ (7 * i)" by (simp add: power_add)
      then show ?thesis
        by (simp only: v add.assoc add_mult_distrib [symmetric]) simp
    qed
    ultimately show ?thesis
      using d bs by (simp only: append_assoc append_Cons append_Nil list.size) simp
  qed
qed

lemma vli_decode_loop_inv:
  assumes "vli_decode_loop buf i val = Inr (w, j)" "unat val < 2 ^ (7 * i)"
  shows "\<exists>n > 0. unat w = unat val + n * 2 ^ (7 * i) \<and> j = i + length (vli_bytes n) \<and>
    take (length (vli_bytes n)) (drop i buf) = vli_bytes n \<and> unat w < 2 ^ 63 \<and> j \<le> 9 \<and> j \<le> length buf"
  using assms
proof (induction "9 - i" arbitrary: i val rule: less_induct)
  case (less i val)
  have i: "i < 9" using less.prems(1)
    by (subst (asm) vli_decode_loop.simps) (simp add: VLI_MAX_BYTES_def split: if_splits)
  obtain b where g: "get_at buf i = Some b" using less.prems(1)
    by (subst (asm) vli_decode_loop.simps) (simp split: if_splits option.splits)
  then have dr: "drop i buf = b # drop (Suc i) buf" and ilen: "i < length buf"
    by (auto simp: Cons_nth_drop_Suc)
  obtain val' where v: "unat val' = unat val + (unat b mod 128) * 2 ^ (7 * i)"
    and lt: "unat val' < 2 ^ (7 * Suc i)"
    and d: "vli_decode_loop buf i val =
      (if unat b = 0 then Inl BadVli else if unat b < 128 then Inr (val', i + 1)
       else vli_decode_loop buf (i + 1) val')"
    using vli_decode_loop_step [OF g i less.prems(2)] by blast
  show ?case
  proof (cases "unat b < 128")
    case True
    with d less.prems(1) have w: "w = val'" "j = i + 1" "0 < unat b" by (auto split: if_splits)
    have bs: "vli_bytes (unat b) = [b]" using True by (subst vli_bytes.simps) simp
    have "unat val' < 2 ^ 63"
      using lt i power_increasing [of "7 * Suc i" 63 "2::nat"] by simp
    then show ?thesis using w v True i ilen by (intro exI [of _ "unat b"]) (simp add: bs dr)
  next
    case False
    with d less.prems(1) have rec: "vli_decode_loop buf (Suc i) val' = Inr (w, j)"
      by (auto split: if_splits)
    obtain n where n: "0 < n" "unat w = unat val' + n * 2 ^ (7 * Suc i)"
      "j = Suc i + length (vli_bytes n)" "take (length (vli_bytes n)) (drop (Suc i) buf) = vli_bytes n"
      "unat w < 2 ^ 63" "j \<le> 9" "j \<le> length buf"
      using less.hyps [OF diff_less_mono2 [of i "Suc i" 9, OF lessI i] rec lt] by blast
    let ?n = "unat b mod 128 + n * 128"
    have byte: "word_of_nat (unat b mod 128 + 128) = b"
      using False by (rule vli_byte_cont)
    have bs: "vli_bytes ?n = b # vli_bytes n"
      using n(1) byte by (subst vli_bytes.simps) (simp del: of_nat_add)
    have "unat w = unat val + ?n * 2 ^ (7 * i)"
      using n(2) v by (simp add: power_add algebra_simps)
    then show ?thesis using n by (intro exI [of _ ?n]) (simp add: bs dr)
  qed
qed

lemma vli_decode_bytes:
  assumes "n < 2 ^ 63"
  shows "vli_decode (vli_bytes n @ rest) = Inr (of_nat n, length (vli_bytes n))"
proof (cases "n < 128")
  case True
  have "vli_bytes n = [of_nat n]" using True by (subst vli_bytes.simps) simp
  moreover have "unat (of_nat n AND 0x7F :: u8) = n"
    using True by (simp add: unat_and_7F vli_byte_low)
  ultimately show ?thesis
    using True by (simp add: vli_decode_def and_80_eq_0_iff vli_byte_low unat_of_nat_small
        word_unat_eq_iff [where 'a = 64])
next
  case False
  let ?b = "of_nat (n mod 128 + 128) :: u8"
  have bs: "vli_bytes n = ?b # vli_bytes (n div 128)" using False by (subst vli_bytes.simps) simp
  have v: "unat (ucast (?b AND 0x7F) :: u64) = n mod 128"
    by (simp add: unat_and_7F vli_byte_high del: of_nat_add)
  have "vli_decode_loop ([?b] @ vli_bytes (n div 128) @ rest) 1 (ucast (?b AND 0x7F)) =
    Inr (of_nat (n mod 128 + n div 128 * 2 ^ (7 * 1)), 1 + length (vli_bytes (n div 128)))"
    by (subst v [symmetric], rule vli_decode_loop_bytes)
       (use False assms v in \<open>auto simp: div_greater_zero_iff less_mult_imp_div_less simp del: of_nat_add\<close>)
  then show ?thesis
    by (simp add: vli_decode_def get_at_def bs and_80_eq_0_iff vli_byte_high del: of_nat_add)
qed

lemma vli_decode_inv:
  assumes "vli_decode buf = Inr (v, n)"
  shows "v \<le> VLI_MAX \<and> n = vli_encoded_len v \<and> n \<le> 9 \<and> n \<le> length buf \<and> take n buf = vli_bytes (unat v)"
proof -
  obtain b rest where buf: "buf = b # rest"
    using assms by (cases buf) (auto simp: vli_decode_def)
  show ?thesis
  proof (cases "unat b < 128")
    case True
    then have "v = ucast (b AND 0x7F)" "n = 1"
      using assms by (auto simp: buf vli_decode_def get_at_def and_80_eq_0_iff)
    then have "unat v = unat b" using True by (simp add: unat_and_7F)
    moreover have "vli_bytes (unat b) = [b]" using True by (subst vli_bytes.simps) simp
    ultimately show ?thesis
      using True by (simp add: VLI_MAX_nat vli_encoded_len_eq buf \<open>n = 1\<close>)
  next
    case False
    let ?v = "ucast (b AND 0x7F) :: u64"
    have uv: "unat ?v = unat b mod 128" by (simp add: unat_and_7F)
    have "vli_decode_loop buf 1 ?v = Inr (v, n)"
      using assms False by (simp add: buf vli_decode_def get_at_def and_80_eq_0_iff)
    then obtain m where m: "0 < m" "unat v = unat b mod 128 + m * 2 ^ 7"
      "n = 1 + length (vli_bytes m)" "take (length (vli_bytes m)) (drop 1 buf) = vli_bytes m"
      "unat v < 2 ^ 63" "n \<le> 9" "n \<le> length buf"
      using vli_decode_loop_inv [of buf 1 ?v v n] uv by auto
    have byte: "word_of_nat (unat b mod 128 + 128) = b"
      using False by (rule vli_byte_cont)
    have "vli_bytes (unat v) = b # vli_bytes m"
      using m(1,2) byte by (subst vli_bytes.simps) (simp del: of_nat_add)
    then show ?thesis using m by (simp add: VLI_MAX_nat vli_encoded_len_eq buf)
  qed
qed

lemma vli_decode_at_push:
  assumes "n < 2 ^ 63"
  shows "vli_decode_at (pre @ vli_bytes n @ rest) (length pre) =
    Inr (of_nat n, length pre + length (vli_bytes n))"
  using vli_decode_bytes [OF assms, of rest] by (simp add: vli_decode_at_def)

lemma vli_decode_at_inv:
  assumes "vli_decode_at buf pos = Inr (v, pos')"
  shows "pos < pos' \<and> pos' \<le> length buf \<and> v \<le> VLI_MAX \<and>
    take (pos' - pos) (drop pos buf) = vli_bytes (unat v) \<and> pos' = pos + vli_encoded_len v"
proof -
  obtain n where n: "vli_decode (if pos \<le> length buf then drop pos buf else []) = Inr (v, n)" "pos' = pos + n"
    using assms by (auto simp: vli_decode_at_def split: sum.splits)
  then have "pos \<le> length buf" by (auto simp: vli_decode_def split: if_splits)
  with n vli_decode_inv [of "drop pos buf" v n] show ?thesis
    by (auto simp: vli_encoded_len_eq)
qed

subsection \<open>Properties\<close>



text \<open>C11: the decoder accepts only the shortest encoding: whatever it accepts is, byte for byte, what
  the encoder writes for the value it returns, which is at most \<open>VLI_MAX\<close>.\<close>

theorem vli_canonical:
  assumes "vli_decode buf = Inr (v, n)"
  shows "v \<le> VLI_MAX \<and> n = vli_encoded_len v \<and> n \<le> length buf \<and> vli_push v [] = Some (take n buf)"
  using vli_decode_inv [OF assms] vli_push_eq [of v "[]"] by auto

theorem vli_canonical_witness:
  "(128::u64) \<le> VLI_MAX \<and> 2 = vli_encoded_len 128 \<and> 2 \<le> length [0x80::u8, 1, 9] \<and>
   vli_push 128 [] = Some (take 2 [0x80, 1, 9])"
proof (rule vli_canonical)
  show "vli_decode [0x80, 1, 9] = Inr (128, 2)"
    by (simp add: vli_decode_def vli_decode_loop.simps VLI_MAX_BYTES_def VLI_MAX_def)
qed

end
