(* ===== verification/Delta.thy ===== *)
theory Delta
  imports Errors
begin

text \<open>
  \<open>src/src/filters/delta.rs\<close>: the delta filter with the loops of each direction as the code has them,
  and the specification both refine: each byte plus (or minus) the byte \<open>distance\<close> back, the history
  carried between calls.
\<close>

definition DELTA_STATE_SIZE :: nat where "DELTA_STATE_SIZE = 256"

record delta =
  d_distance :: nat
  d_state :: bytes

definition delta_new :: "u8 \<Rightarrow> xz_error_kind + delta" where
  "delta_new props = Inr \<lparr>d_distance = unat props + 1, d_state = replicate DELTA_STATE_SIZE 0\<rparr>"

definition delta_distance :: "delta \<Rightarrow> nat" where
  "delta_distance d = d_distance d"

subsection \<open>\<open>decode\<close>\<close>

text \<open>\<open>delta == 1\<close>: the preceding byte in a local.\<close>

fun decode_1 :: "u8 \<Rightarrow> bytes \<Rightarrow> u8 \<times> bytes" where
  "decode_1 previous [] = (previous, [])"
| "decode_1 previous (byte # data) =
     (let previous = previous + byte; (last_byte, out) = decode_1 previous data in (last_byte, previous # out))"

text \<open>\<open>delta == 4\<close>: complete groups of four, then the remainder with the history rotated.\<close>

fun decode_4_rest :: "bytes \<Rightarrow> bytes \<Rightarrow> bytes \<times> bytes" where
  "decode_4_rest previous [] = (previous, [])"
| "decode_4_rest previous (byte # data) =
     (let byte = byte + previous ! 0; previous = (rotate1 previous)[3 := byte];
          (previous, out) = decode_4_rest previous data in (previous, byte # out))"

fun decode_4 :: "bytes \<Rightarrow> bytes \<Rightarrow> bytes \<times> bytes" where
  "decode_4 previous (b0 # b1 # b2 # b3 # data) =
     (let previous = map2 (+) previous [b0, b1, b2, b3]; (last_four, out) = decode_4 previous data
      in (last_four, previous @ out))"
| "decode_4 previous data = decode_4_rest previous data"

text \<open>The bytes past the first \<open>distance\<close>, one at a time or (from 16 up) a block of \<open>distance\<close> at a time.
  The distance is positive; the test only makes the recursion total.\<close>

definition decode_bytewise :: "nat \<Rightarrow> bytes \<Rightarrow> bytes" where
  "decode_bytewise dist data = fold (\<lambda>i d. d[i := d ! i + d ! (i - dist)]) [dist..<length data] data"

function decode_blocked :: "nat \<Rightarrow> nat \<Rightarrow> bytes \<Rightarrow> bytes" where
  "decode_blocked dist i data =
     (if i < length data \<and> 0 < dist
      then
        (let n = min dist (length data - i) in
         decode_blocked dist (i + n)
           (take i data @ map2 (+) (take n (drop i data)) (take n (drop (i - dist) data)) @ drop (i + n) data))
      else data)"
  by pat_completeness auto
termination by (relation "measure (\<lambda>(dist, i, data). length data - i)") auto

declare decode_blocked.simps [simp del]

definition delta_decode :: "bytes \<Rightarrow> delta \<Rightarrow> delta \<times> bytes" where
  "delta_decode data d =
     (let size = length data; dist = d_distance d; state = d_state d in
      if size = 0 then (d, data)
      else if dist = 1 then (let (previous, out) = decode_1 (state ! 0) data in (d\<lparr>d_state := state[0 := previous]\<rparr>, out))
      else if dist = 4 then (let (previous, out) = decode_4 (take 4 state) data in (d\<lparr>d_state := previous @ drop 4 state\<rparr>, out))
      else if size \<le> dist
      then
        (let out = map2 (+) data (take size state); keep = dist - size;
             state = take (dist - size) (drop size state) @ drop (dist - size) state
         in (d\<lparr>d_state := take keep state @ out @ drop dist state\<rparr>, out))
      else
        (let data = map2 (+) (take dist data) (take dist state) @ drop dist data;
             out = (if 16 \<le> dist then decode_blocked dist dist data else decode_bytewise dist data)
         in (d\<lparr>d_state := drop (size - dist) out @ drop dist state\<rparr>, out)))"

subsection \<open>\<open>encode\<close>\<close>

text \<open>The rotation of \<open>temp\<close> into the first \<open>n\<close> slots of the state.\<close>

primrec encode_rotate :: "nat \<Rightarrow> nat \<Rightarrow> nat \<Rightarrow> bytes \<Rightarrow> bytes" where
  "encode_rotate 0 i dist temp = []"
| "encode_rotate (Suc n) i dist temp = (let i = (if i = dist then 0 else i) in temp ! i # encode_rotate n (i + 1) dist temp)"

definition delta_encode :: "bytes \<Rightarrow> delta \<Rightarrow> delta \<times> bytes" where
  "delta_encode data d =
     (let size = length data; dist = d_distance d; state = d_state d; temp = take dist state in
      if size = 0 then (d, data)
      else if size \<le> dist
      then
        (let out = map2 (-) data (take size temp); temp = data @ drop size temp
         in (d\<lparr>d_state := encode_rotate dist size dist temp @ drop dist state\<rparr>, out))
      else
        (let state = drop (size - dist) data @ drop dist state;
             data = fold (\<lambda>i d. d[i := d ! i - d ! (i - dist)]) (rev [dist..<size]) data;
             data = fold (\<lambda>i d. d[i := d ! i - temp ! i]) (rev [0..<dist]) data
         in (d\<lparr>d_state := state\<rparr>, data)))"

subsection \<open>The specification\<close>

text \<open>A history of \<open>distance\<close> bytes, the oldest first.\<close>

fun spec_decode :: "bytes \<Rightarrow> bytes \<Rightarrow> bytes \<times> bytes" where
  "spec_decode h [] = (h, [])"
| "spec_decode h (x # xs) = (let y = x + hd h; (h', ys) = spec_decode (tl h @ [y]) xs in (h', y # ys))"

fun spec_encode :: "bytes \<Rightarrow> bytes \<Rightarrow> bytes \<times> bytes" where
  "spec_encode h [] = (h, [])"
| "spec_encode h (x # xs) = (let (h', ys) = spec_encode (tl h @ [x]) xs in (h', (x - hd h) # ys))"

lemma spec_roundtrip: "spec_decode h (snd (spec_encode h xs)) = (fst (spec_encode h xs), xs)"
  by (induction xs arbitrary: h) (simp_all add: Let_def case_prod_beta)

lemma spec_roundtrip': "spec_encode h (snd (spec_decode h xs)) = (fst (spec_decode h xs), xs)"
  by (induction xs arbitrary: h) (simp_all add: Let_def case_prod_beta)

lemma spec_decode_append:
  "spec_decode h (xs @ ys) = (let (h1, us) = spec_decode h xs; (h2, vs) = spec_decode h1 ys in (h2, us @ vs))"
  by (induction xs arbitrary: h) (simp_all add: Let_def case_prod_beta)

lemma spec_encode_append:
  "spec_encode h (xs @ ys) = (let (h1, us) = spec_encode h xs; (h2, vs) = spec_encode h1 ys in (h2, us @ vs))"
  by (induction xs arbitrary: h) (simp_all add: Let_def case_prod_beta)

text \<open>Both directions by position: the output is the only list with these bytes.\<close>

lemma spec_decodeI:
  assumes "h \<noteq> []" "length ys = length xs" "\<And>i. i < length xs \<Longrightarrow> ys ! i = xs ! i + (h @ ys) ! i"
  shows "spec_decode h xs = (drop (length xs) (h @ ys), ys)"
  using assms
proof (induction xs arbitrary: h ys)
  case (Cons x xs)
  obtain y zs where ys: "ys = y # zs" using Cons(3) by (cases ys) auto
  have y: "y = x + hd h" using Cons(4) [of 0] Cons(2) by (cases h) (auto simp: ys)
  have "spec_decode (tl h @ [y]) xs = (drop (length xs) ((tl h @ [y]) @ zs), zs)"
  proof (rule Cons(1))
    fix i assume "i < length xs"
    then show "zs ! i = xs ! i + ((tl h @ [y]) @ zs) ! i" using Cons(4) [of "Suc i"] Cons(2) by (cases h) (auto simp: ys)
  qed (use Cons(3) in \<open>auto simp: ys\<close>)
  then show ?case using Cons(2) by (cases h) (auto simp: ys y Let_def)
qed simp

lemma spec_encodeI:
  assumes "h \<noteq> []" "length ys = length xs" "\<And>i. i < length xs \<Longrightarrow> ys ! i = xs ! i - (h @ xs) ! i"
  shows "spec_encode h xs = (drop (length xs) (h @ xs), ys)"
  using assms
proof (induction xs arbitrary: h ys)
  case (Cons x xs)
  obtain y zs where ys: "ys = y # zs" using Cons(3) by (cases ys) auto
  have y: "y = x - hd h" using Cons(4) [of 0] Cons(2) by (cases h) (auto simp: ys)
  have "spec_encode (tl h @ [x]) xs = (drop (length xs) ((tl h @ [x]) @ xs), zs)"
  proof (rule Cons(1))
    fix i assume "i < length xs"
    then show "zs ! i = xs ! i - ((tl h @ [x]) @ xs) ! i" using Cons(4) [of "Suc i"] Cons(2) by (cases h) (auto simp: ys)
  qed (use Cons(3) in \<open>auto simp: ys\<close>)
  then show ?case using Cons(2) by (cases h) (auto simp: ys y Let_def)
qed simp

subsection \<open>Refinement\<close>

text \<open>The invariant of the object and its abstraction.\<close>

definition delta_inv :: "delta \<Rightarrow> bool" where
  "delta_inv d \<longleftrightarrow> 0 < d_distance d \<and> d_distance d \<le> 256 \<and> length (d_state d) = 256"

definition delta_history :: "delta \<Rightarrow> bytes" where
  "delta_history d = take (d_distance d) (d_state d)"

lemma decode_1_spec: "spec_decode [p] xs = (let (q, ys) = decode_1 p xs in ([q], ys))"
  by (induction xs arbitrary: p) (simp_all add: Let_def case_prod_beta add.commute)

lemma decode_4_rest_spec: "length h = 4 \<Longrightarrow> decode_4_rest h xs = spec_decode h xs"
proof (induction xs arbitrary: h)
  case (Cons x xs)
  obtain a b c e where "h = [a, b, c, e]" using Cons(2) by (auto simp: length_Suc_conv eval_nat_numeral)
  then show ?case using Cons(1) by (simp add: Let_def case_prod_beta)
qed simp

lemma decode_4_spec: "length h = 4 \<Longrightarrow> decode_4 h xs = spec_decode h xs"
proof (induction h xs rule: decode_4.induct)
  case (1 h b0 b1 b2 b3 xs)
  obtain a b c e where "h = [a, b, c, e]" using 1(2) by (auto simp: length_Suc_conv eval_nat_numeral)
  then show ?case using 1 by (simp add: Let_def case_prod_beta add.commute)
qed (simp_all only: decode_4.simps decode_4_rest_spec)

lemma decode_4_length: "length h = 4 \<Longrightarrow> length (fst (spec_decode h xs)) = 4"
proof (induction xs arbitrary: h)
  case (Cons x xs)
  have "length (tl h @ [x + hd h]) = 4" using Cons(2) by simp
  then show ?case using Cons(1) by (simp add: Let_def case_prod_beta)
qed simp

text \<open>The in-place loops: a prefix that is final, a suffix that is not touched.\<close>

lemma bytewise_inv:
  assumes "0 < dist" "n \<le> length data"
  shows "let d = fold (\<lambda>i d. d[i := d ! i + d ! (i - dist)]) [dist..<n] data in
    length d = length data \<and> (\<forall>i < length data. d ! i = (if dist \<le> i \<and> i < n then data ! i + d ! (i - dist) else data ! i))"
  using assms(2)
proof (induction n)
  case (Suc n)
  define d where "d = fold (\<lambda>i d. d[i := d ! i + d ! (i - dist)]) [dist..<n] data"
  have IH: "length d = length data" "\<And>i. i < length data \<Longrightarrow> d ! i = (if dist \<le> i \<and> i < n then data ! i + d ! (i - dist) else data ! i)"
    using Suc by (simp_all add: d_def Let_def)
  show ?case
  proof (cases "dist \<le> n")
    case True
    have e: "fold (\<lambda>i d. d[i := d ! i + d ! (i - dist)]) [dist..<Suc n] data = d[n := d ! n + d ! (n - dist)]"
      using True by (simp add: d_def)
    show ?thesis unfolding e Let_def
    proof (intro conjI allI impI)
      fix i assume i: "i < length data"
      show "d[n := d ! n + d ! (n - dist)] ! i =
          (if dist \<le> i \<and> i < Suc n then data ! i + d[n := d ! n + d ! (n - dist)] ! (i - dist) else data ! i)"
      proof (cases "i = n")
        case True
        have "n - dist \<noteq> n" using assms(1) \<open>dist \<le> n\<close> by simp
        then show ?thesis using True IH(1) IH(2) [OF i] i \<open>dist \<le> n\<close> by simp
      next
        case False
        then have "i - dist \<noteq> n" if "i < Suc n" using that by simp
        then show ?thesis using False IH(2) [OF i] by (cases "i < n") (simp_all add: less_Suc_eq)
      qed
    qed (use IH in simp)
  qed (use IH in \<open>auto simp: Let_def d_def [symmetric]\<close>)
qed simp

lemma block_nth:
  assumes "dist \<le> i" "n \<le> dist" "i + n \<le> length data" "j < length data"
  shows "(take i data @ map2 (+) (take n (drop i data)) (take n (drop (i - dist) data)) @ drop (i + n) data) ! j =
    (if i \<le> j \<and> j < i + n then data ! j + data ! (j - dist) else data ! j)"
proof -
  have l: "length (map2 (+) (take n (drop i data)) (take n (drop (i - dist) data))) = n" using assms by simp
  consider "j < i" | "i \<le> j" "j < i + n" | "i + n \<le> j" by linarith
  then show ?thesis
  proof cases
    case 2
    then have "i - dist + (j - i) = j - dist" "j - i < n" using assms(1) by simp_all
    then show ?thesis using 2 assms l by (simp add: nth_append)
  next
    case 3
    then have "\<not> j - i < n" by simp
    then show ?thesis using 3 assms l by (simp add: nth_append)
  qed (use assms l in \<open>simp add: nth_append\<close>)
qed

lemma blocked_inv:
  assumes "0 < dist" "dist \<le> i" "i \<le> length data"
  shows "length (decode_blocked dist i data) = length data \<and>
    (\<forall>j < length data. decode_blocked dist i data ! j =
       (if i \<le> j then data ! j + decode_blocked dist i data ! (j - dist) else data ! j))"
  using assms
proof (induction dist i data rule: decode_blocked.induct)
  case (1 dist i data)
  show ?case
  proof (cases "i < length data")
    case False
    then show ?thesis by (subst (1 2 3) decode_blocked.simps) simp
  next
    case True
    define n where "n = min dist (length data - i)"
    define data' where "data' = take i data @ map2 (+) (take n (drop i data)) (take n (drop (i - dist) data)) @ drop (i + n) data"
    have n: "0 < n" "n \<le> dist" "i + n \<le> length data" using True 1(2) by (auto simp: n_def)
    have l: "length data' = length data" using n 1(2-4) by (simp add: data'_def)
    have eq: "decode_blocked dist i data = decode_blocked dist (i + n) data'"
      using True 1(2) by (subst decode_blocked.simps) (simp add: n_def data'_def Let_def)
    have IH: "\<And>j. j < length data \<Longrightarrow> decode_blocked dist (i + n) data' ! j =
       (if i + n \<le> j then data' ! j + decode_blocked dist (i + n) data' ! (j - dist) else data' ! j)"
      "length (decode_blocked dist (i + n) data') = length data"
      using 1(1) [OF _ n_def, folded data'_def] True 1(2-4) n l by simp_all
    have d': "data' ! j = (if i \<le> j \<and> j < i + n then data ! j + data ! (j - dist) else data ! j)" if "j < length data" for j
      using that n 1(2-4) unfolding data'_def by (intro block_nth) auto
    show ?thesis unfolding eq
    proof (intro conjI allI impI)
      fix j assume j: "j < length data"
      show "decode_blocked dist (i + n) data' ! j = (if i \<le> j then data ! j + decode_blocked dist (i + n) data' ! (j - dist) else data ! j)"
      proof (cases "i \<le> j \<and> j < i + n")
        case True
        then have "j - dist < i" using n 1(2,3) by auto
        then have "decode_blocked dist (i + n) data' ! (j - dist) = data ! (j - dist)"
          using IH(1) [of "j - dist"] d' [of "j - dist"] j n by simp
        then show ?thesis using IH(1) [OF j] d' [OF j] True by simp
      next
        case False
        then show ?thesis using IH(1) [OF j] d' [OF j] by auto
      qed
    qed (rule IH(2))
  qed
qed

lemma decode_tail_spec:
  assumes "0 < dist" "length h = dist" "dist < length xs"
    and ys: "ys = (if 16 \<le> dist then decode_blocked dist dist data else decode_bytewise dist data)"
    and data: "data = map2 (+) (take dist xs) h @ drop dist xs"
  shows "spec_decode h xs = (drop (length xs - dist) ys, ys)"
proof -
  have l: "length data = length xs" using assms by (simp add: data)
  have d: "data ! i = (if i < dist then xs ! i + h ! i else xs ! i)" if "i < length xs" for i
    using that assms(2,3) by (simp add: data nth_append)
  have ys': "length ys = length xs" "\<And>i. i < length xs \<Longrightarrow> ys ! i = (if dist \<le> i then data ! i + ys ! (i - dist) else data ! i)"
    using blocked_inv [of dist dist data] bytewise_inv [of dist "length data" data] assms(1,3) l
    by (auto simp: ys decode_bytewise_def Let_def split: if_splits)
  have "spec_decode h xs = (drop (length xs) (h @ ys), ys)"
    using assms(1,2) ys' d by (intro spec_decodeI) (auto simp: nth_append)
  then show ?thesis using assms(2,3) by simp
qed

lemma delta_decode_spec:
  assumes "delta_inv d"
  shows "delta_inv (fst (delta_decode xs d)) \<and> d_distance (fst (delta_decode xs d)) = d_distance d \<and>
    spec_decode (delta_history d) xs = (delta_history (fst (delta_decode xs d)), snd (delta_decode xs d))"
proof -
  define dist where "dist = d_distance d"
  define st where "st = d_state d"
  have i: "0 < dist" "dist \<le> 256" "length st = 256" using assms by (simp_all add: delta_inv_def dist_def st_def)
  have h: "delta_history d = take dist st" by (simp add: delta_history_def dist_def st_def)
  consider "xs = []" | "xs \<noteq> []" "dist = 1" | "xs \<noteq> []" "dist = 4" | "xs \<noteq> []" "dist \<noteq> 1" "dist \<noteq> 4" "length xs \<le> dist"
    | "xs \<noteq> []" "dist \<noteq> 1" "dist \<noteq> 4" "dist < length xs" by linarith
  then show ?thesis
  proof cases
    case 1
    then show ?thesis using assms by (simp add: delta_decode_def)
  next
    case 2
    have "take 1 st = [st ! 0]" using i by (cases st) auto
    then show ?thesis using 2 i h decode_1_spec [of "st ! 0" xs]
      by (cases st) (auto simp: delta_decode_def Let_def dist_def [symmetric] st_def [symmetric] delta_history_def delta_inv_def split: prod.splits)
  next
    case 3
    have "length (take 4 st) = 4" using i by simp
    then show ?thesis using 3 i h decode_4_spec [of "take 4 st" xs] decode_4_length [of "take 4 st" xs]
      by (auto simp: delta_decode_def Let_def dist_def [symmetric] st_def [symmetric] delta_history_def delta_inv_def split: prod.splits)
  next
    case 4
    define out where "out = map2 (+) xs (take (length xs) st)"
    have o: "length out = length xs" "\<And>k. k < length xs \<Longrightarrow> out ! k = xs ! k + st ! k" using i 4 by (simp_all add: out_def)
    have "spec_decode (take dist st) xs = (drop (length xs) (take dist st @ out), out)"
      using i 4 o by (intro spec_decodeI) (auto simp: nth_append)
    moreover have "delta_decode xs d = (d\<lparr>d_state := take (dist - length xs) (drop (length xs) st) @ out @ drop dist st\<rparr>, out)"
      using 4 i unfolding delta_decode_def Let_def dist_def [symmetric] st_def [symmetric] out_def [symmetric] by simp
    ultimately show ?thesis using i 4 o h by (simp add: delta_inv_def delta_history_def dist_def [symmetric] drop_take)
  next
    case 5
    define data where "data = map2 (+) (take dist xs) (take dist st) @ drop dist xs"
    define out where "out = (if 16 \<le> dist then decode_blocked dist dist data else decode_bytewise dist data)"
    have s: "spec_decode (take dist st) xs = (drop (length xs - dist) out, out)"
      using i 5 by (intro decode_tail_spec [OF _ _ _ out_def data_def]) auto
    have l: "length out = length xs"
      using blocked_inv [of dist dist data] bytewise_inv [of dist "length data" data] i 5
      by (simp add: out_def decode_bytewise_def data_def Let_def)
    have "delta_decode xs d = (d\<lparr>d_state := drop (length xs - dist) out @ drop dist st\<rparr>, out)"
      using 5 i unfolding delta_decode_def Let_def dist_def [symmetric] st_def [symmetric] data_def [symmetric] out_def [symmetric] by simp
    then show ?thesis using s i 5 l h by (simp add: delta_inv_def delta_history_def dist_def [symmetric])
  qed
qed

lemma encode_rotate_eq:
  assumes "length temp = dist" "i \<le> dist" "n \<le> dist"
  shows "encode_rotate n i dist temp = take n (drop i temp @ take i temp)"
proof -
  have "encode_rotate n i dist temp = take n (drop i temp @ temp)" if "n \<le> dist" "i \<le> dist" for n i
    using that
  proof (induction n arbitrary: i)
    case (Suc n)
    show ?case
    proof (cases "i = dist")
      case True
      then show ?thesis using Suc(1) [of 1] Suc(2) assms(1) by (cases temp) (auto simp: Let_def)
    next
      case False
      then have "drop i temp = temp ! i # drop (Suc i) temp" using Suc(3) assms(1) by (simp add: Cons_nth_drop_Suc)
      then show ?thesis using False Suc(1) [of "Suc i"] Suc(2,3) by (simp add: Let_def)
    qed
  qed simp
  then have "encode_rotate n i dist temp = take n (drop i temp @ temp)" using assms by blast
  also have "\<dots> = take n (drop i temp @ take i temp)"
  proof -
    have "n + i - dist \<le> i" using assms by simp
    then show ?thesis using assms by (simp add: min_def)
  qed
  finally show ?thesis .
qed

text \<open>The subtraction walks backwards, so each byte still sees its unencoded predecessor.\<close>

lemma backward_inv:
  assumes "b \<le> length data" "0 < dist"
  shows "let d = fold (\<lambda>i d. d[i := d ! i - d ! (i - dist)]) (rev [a..<b]) data in
    length d = length data \<and>
    (dist \<le> a \<longrightarrow> (\<forall>i < length data. d ! i = (if a \<le> i \<and> i < b then data ! i - data ! (i - dist) else data ! i)))"
  using assms(1)
proof (induction b arbitrary: data)
  case (Suc b)
  show ?case
  proof (cases "a \<le> b")
    case True
    define e where "e = data[b := data ! b - data ! (b - dist)]"
    have f: "fold (\<lambda>i d. d[i := d ! i - d ! (i - dist)]) (rev [a..<Suc b]) data =
        fold (\<lambda>i d. d[i := d ! i - d ! (i - dist)]) (rev [a..<b]) e" using True by (simp add: e_def)
    have l: "length e = length data" by (simp add: e_def)
    have IH: "length (fold (\<lambda>i d. d[i := d ! i - d ! (i - dist)]) (rev [a..<b]) e) = length data"
      "dist \<le> a \<Longrightarrow> i < length data \<Longrightarrow> fold (\<lambda>i d. d[i := d ! i - d ! (i - dist)]) (rev [a..<b]) e ! i =
         (if a \<le> i \<and> i < b then e ! i - e ! (i - dist) else e ! i)" for i
      using Suc(1) [of e] Suc(2) l by (simp_all add: Let_def)
    show ?thesis unfolding f Let_def
    proof (intro conjI impI allI)
      fix i assume a: "dist \<le> a" and i: "i < length data"
      show "fold (\<lambda>i d. d[i := d ! i - d ! (i - dist)]) (rev [a..<b]) e ! i =
          (if a \<le> i \<and> i < Suc b then data ! i - data ! (i - dist) else data ! i)"
      proof (cases "i = b")
        case True
        then show ?thesis using IH(2) [OF a i] \<open>a \<le> b\<close> i by (simp add: e_def)
      next
        case False
        then have "i - dist \<noteq> b" if "i < b" using that by simp
        then show ?thesis using False IH(2) [OF a i] by (cases "i < b") (simp_all add: e_def less_Suc_eq)
      qed
    qed (rule IH(1))
  qed (use Suc in \<open>auto simp: Let_def\<close>)
qed simp

lemma pointwise_inv:
  assumes "b \<le> length data" "b \<le> length t"
  shows "let d = fold (\<lambda>i d. d[i := d ! i - t ! i]) (rev [0..<b]) data in
    length d = length data \<and> (\<forall>i < length data. d ! i = (if i < b then data ! i - t ! i else data ! i))"
  using assms
proof (induction b arbitrary: data)
  case (Suc b)
  have "fold (\<lambda>i d. d[i := d ! i - t ! i]) (rev [0..<Suc b]) data =
      fold (\<lambda>i d. d[i := d ! i - t ! i]) (rev [0..<b]) (data[b := data ! b - t ! b])" by simp
  then show ?case using Suc(1) [of "data[b := data ! b - t ! b]"] Suc(2,3)
    by (auto simp: Let_def nth_list_update less_Suc_eq)
qed simp

lemma delta_encode_spec:
  assumes "delta_inv d"
  shows "delta_inv (fst (delta_encode xs d)) \<and> d_distance (fst (delta_encode xs d)) = d_distance d \<and>
    spec_encode (delta_history d) xs = (delta_history (fst (delta_encode xs d)), snd (delta_encode xs d))"
proof -
  define dist where "dist = d_distance d"
  define st where "st = d_state d"
  have i: "0 < dist" "dist \<le> 256" "length st = 256" using assms by (simp_all add: delta_inv_def dist_def st_def)
  have h: "delta_history d = take dist st" by (simp add: delta_history_def dist_def st_def)
  consider "xs = []" | "xs \<noteq> []" "length xs \<le> dist" | "xs \<noteq> []" "dist < length xs" by linarith
  then show ?thesis
  proof cases
    case 1
    then show ?thesis using assms by (simp add: delta_encode_def)
  next
    case 2
    define temp where "temp = xs @ drop (length xs) (take dist st)"
    define out where "out = map2 (-) xs (take (length xs) (take dist st))"
    have o: "length out = length xs" "\<And>k. k < length xs \<Longrightarrow> out ! k = xs ! k - st ! k" using i 2 by (simp_all add: out_def)
    have "spec_encode (take dist st) xs = (drop (length xs) (take dist st @ xs), out)"
      using i 2 o by (intro spec_encodeI) (auto simp: nth_append)
    moreover have "encode_rotate dist (length xs) dist temp = drop (length xs) (take dist st @ xs)"
      using i 2 by (subst encode_rotate_eq) (simp_all add: temp_def)
    moreover have "delta_encode xs d = (d\<lparr>d_state := encode_rotate dist (length xs) dist temp @ drop dist st\<rparr>, out)"
      using 2 unfolding delta_encode_def Let_def dist_def [symmetric] st_def [symmetric] out_def [symmetric] temp_def [symmetric] by simp
    ultimately show ?thesis using i 2 h by (simp add: delta_inv_def delta_history_def dist_def [symmetric])
  next
    case 3
    define d1 where "d1 = fold (\<lambda>i d. d[i := d ! i - d ! (i - dist)]) (rev [dist..<length xs]) xs"
    define out where "out = fold (\<lambda>i d. d[i := d ! i - take dist st ! i]) (rev [0..<dist]) d1"
    have d1: "length d1 = length xs" "\<And>k. k < length xs \<Longrightarrow> d1 ! k = (if dist \<le> k then xs ! k - xs ! (k - dist) else xs ! k)"
      using backward_inv [of "length xs" xs dist dist] i by (simp_all add: d1_def Let_def)
    have o: "length out = length xs" "\<And>k. k < length xs \<Longrightarrow> out ! k = (if k < dist then d1 ! k - st ! k else d1 ! k)"
      using pointwise_inv [of dist d1 "take dist st"] d1(1) i 3 by (simp_all add: out_def Let_def)
    have "spec_encode (take dist st) xs = (drop (length xs) (take dist st @ xs), out)"
      using i 3 o d1 by (intro spec_encodeI) (auto simp: nth_append)
    moreover have "delta_encode xs d = (d\<lparr>d_state := drop (length xs - dist) xs @ drop dist st\<rparr>, out)"
      using 3 unfolding delta_encode_def Let_def dist_def [symmetric] st_def [symmetric] d1_def [symmetric] out_def [symmetric] by simp
    ultimately show ?thesis using i 3 h by (simp add: delta_inv_def delta_history_def dist_def [symmetric])
  qed
qed

subsection \<open>What a filter chain relies on\<close>

text \<open>An in-place filter that carries a history between calls: both directions implement a stream
  specification, the specifications compose over concatenation and undo each other.\<close>

locale stream_filter =
  fixes inv :: "'s \<Rightarrow> bool" and hist :: "'s \<Rightarrow> 'h"
    and dec enc :: "bytes \<Rightarrow> 's \<Rightarrow> 's \<times> bytes" and sdec senc :: "'h \<Rightarrow> bytes \<Rightarrow> 'h \<times> bytes"
  assumes dec_inv: "inv s \<Longrightarrow> inv (fst (dec xs s))"
    and enc_inv: "inv s \<Longrightarrow> inv (fst (enc xs s))"
    and dec_spec: "inv s \<Longrightarrow> sdec (hist s) xs = (hist (fst (dec xs s)), snd (dec xs s))"
    and enc_spec: "inv s \<Longrightarrow> senc (hist s) xs = (hist (fst (enc xs s)), snd (enc xs s))"
    and sdec_append: "sdec h (xs @ ys) = (let (h1, us) = sdec h xs; (h2, vs) = sdec h1 ys in (h2, us @ vs))"
    and senc_append: "senc h (xs @ ys) = (let (h1, us) = senc h xs; (h2, vs) = senc h1 ys in (h2, us @ vs))"
    and sdec_senc: "sdec h (snd (senc h xs)) = (fst (senc h xs), xs)"
begin

lemma dec_append:
  assumes "inv s"
  shows "snd (dec (xs @ ys) s) = snd (dec xs s) @ snd (dec ys (fst (dec xs s)))"
  using dec_spec [OF assms, of "xs @ ys"] dec_spec [OF assms, of xs] dec_spec [OF dec_inv [OF assms, of xs], of ys]
  by (simp add: sdec_append)

lemma enc_append:
  assumes "inv s"
  shows "snd (enc (xs @ ys) s) = snd (enc xs s) @ snd (enc ys (fst (enc xs s)))"
  using enc_spec [OF assms, of "xs @ ys"] enc_spec [OF assms, of xs] enc_spec [OF enc_inv [OF assms, of xs], of ys]
  by (simp add: senc_append)

lemma dec_enc:
  assumes "inv s" "inv t" "hist s = hist t"
  shows "snd (dec (snd (enc xs s)) t) = xs" "hist (fst (dec (snd (enc xs s)) t)) = hist (fst (enc xs s))"
  using sdec_senc [of "hist s" xs] enc_spec [OF assms(1), of xs] dec_spec [OF assms(2), of "snd (enc xs s)"] assms(3)
  by simp_all

text \<open>Encoding in pieces and decoding in other pieces.\<close>

lemma dec_enc_pieces:
  assumes "inv s" "inv t" "hist s = hist t" "us @ vs = snd (enc xs s) @ snd (enc ys (fst (enc xs s)))"
  shows "snd (dec us t) @ snd (dec vs (fst (dec us t))) = xs @ ys"
  using dec_enc(1) [OF assms(1-3), of "xs @ ys"] dec_append [OF assms(2), of us vs] enc_append [OF assms(1), of xs ys] assms(4)
  by simp

end

interpretation delta_filter: stream_filter delta_inv delta_history delta_decode delta_encode spec_decode spec_encode
  using delta_decode_spec delta_encode_spec spec_decode_append spec_encode_append spec_roundtrip
  by unfold_locales blast+

lemma delta_new_inv: "delta_new props = Inr d \<Longrightarrow> delta_inv d"
proof -
  have "unat props \<le> 255" using unat_u8_lt [of props] by linarith
  then show "delta_new props = Inr d \<Longrightarrow> delta_inv d" by (auto simp: delta_new_def delta_inv_def DELTA_STATE_SIZE_def)
qed

text \<open>C18: What \<open>encode\<close> makes of a stream, cut anywhere, \<open>decode\<close> turns back into it, cut anywhere else; both
  start from the same property byte.\<close>
theorem delta_roundtrip:
  assumes "delta_new props = Inr d" "us @ vs = snd (delta_encode xs d) @ snd (delta_encode ys (fst (delta_encode xs d)))"
  shows "snd (delta_decode us d) @ snd (delta_decode vs (fst (delta_decode us d))) = xs @ ys"
  using delta_filter.dec_enc_pieces [OF delta_new_inv delta_new_inv refl] assms by blast

text \<open>C19: Every branch of \<open>decode\<close> (distance 1, distance 4, a short buffer, blocks, single bytes) computes the
  one recurrence: each output byte is the input byte plus the output byte \<open>distance\<close> back, history included.\<close>
theorem delta_decode_refines:
  assumes "delta_inv d"
  shows "delta_inv (fst (delta_decode xs d)) \<and>
    spec_decode (delta_history d) xs = (delta_history (fst (delta_decode xs d)), snd (delta_decode xs d))"
  using delta_decode_spec [OF assms] by blast

theorem delta_roundtrip_witness:
  "snd (delta_decode [1, 1, 1] \<lparr>d_distance = 2, d_state = replicate 256 0\<rparr>) @
   snd (delta_decode [2, 0] (fst (delta_decode [1, 1, 1] \<lparr>d_distance = 2, d_state = replicate 256 0\<rparr>))) = [1, 1, 2] @ [3, 2]"
  by (rule delta_roundtrip [of 1]) (simp_all add: delta_new_def DELTA_STATE_SIZE_def delta_encode_def Let_def upt_rec numeral_eq_Suc)

theorem delta_decode_refines_witness:
  "spec_decode (delta_history \<lparr>d_distance = 1, d_state = replicate 256 7\<rparr>) [1, 2] =
    (delta_history (fst (delta_decode [1, 2] \<lparr>d_distance = 1, d_state = replicate 256 7\<rparr>)),
     snd (delta_decode [1, 2] \<lparr>d_distance = 1, d_state = replicate 256 7\<rparr>))"
  using delta_decode_refines [of "\<lparr>d_distance = 1, d_state = replicate 256 7\<rparr>" "[1, 2]"]
  by (simp add: delta_inv_def)

end
