(* ===== verification/Bcj.thy ===== *)
theory Bcj
  imports Errors LzBytes
begin

text \<open>
  \<open>src/src/filters/bcj.rs\<close>: the branch converters. A converter returns the bytes with the converted part
  in place and how many leading bytes it processed; \<open>None\<close> is an out-of-range access or a loop that does
  not end. Where the code has a scan for one target and another for the rest, both are modelled.
\<close>

subsection \<open>Words of the instruction stream\<close>

definition get_u32le :: "bytes \<Rightarrow> nat \<Rightarrow> u32 option" where
  "get_u32le d i = (if i + 4 \<le> length d then Some (u32_from_le_bytes (d ! i) (d ! (i + 1)) (d ! (i + 2)) (d ! (i + 3))) else None)"

definition set_u32le :: "bytes \<Rightarrow> nat \<Rightarrow> u32 \<Rightarrow> bytes option" where
  "set_u32le d i v = copy_into d i (le_bytes v)"

definition get_u32be :: "bytes \<Rightarrow> nat \<Rightarrow> u32 option" where
  "get_u32be d i = (if i + 4 \<le> length d then Some (u32_from_le_bytes (d ! (i + 3)) (d ! (i + 2)) (d ! (i + 1)) (d ! i)) else None)"

definition set_u32be :: "bytes \<Rightarrow> nat \<Rightarrow> u32 \<Rightarrow> bytes option" where
  "set_u32be d i v = copy_into d i (rev (le_bytes v))"

definition get_u16le :: "bytes \<Rightarrow> nat \<Rightarrow> u32 option" where
  "get_u16le d i = (if i + 2 \<le> length d then Some (ucast (d ! i) OR push_bit 8 (ucast (d ! (i + 1)))) else None)"

definition set_u16le :: "bytes \<Rightarrow> nat \<Rightarrow> u16 \<Rightarrow> bytes option" where
  "set_u16le d i v = copy_into d i [ucast v, ucast (drop_bit 8 v)]"

definition convert_val :: "u32 \<Rightarrow> u32 \<Rightarrow> bool \<Rightarrow> u32" where
  "convert_val v c encoding = (if encoding then v + c else v - c)"

definition swap_bytes :: "u32 \<Rightarrow> u32" where
  "swap_bytes v = u32_from_le_bytes (ucast (drop_bit 24 v)) (ucast (drop_bit 16 v)) (ucast (drop_bit 8 v)) (ucast v)"

subsection \<open>The kinds\<close>

datatype bcj_kind = X86 | Ppc | Ia64 | Arm | ArmThumb | Sparc | Arm64 | RiscV

fun filter_id :: "bcj_kind \<Rightarrow> u64" where
  "filter_id X86 = 0x04"
| "filter_id Ppc = 0x05"
| "filter_id Ia64 = 0x06"
| "filter_id Arm = 0x07"
| "filter_id ArmThumb = 0x08"
| "filter_id Sparc = 0x09"
| "filter_id Arm64 = 0x0A"
| "filter_id RiscV = 0x0B"

definition from_filter_id :: "u64 \<Rightarrow> bcj_kind option" where
  "from_filter_id i =
     (if i = 0x04 then Some X86 else if i = 0x05 then Some Ppc else if i = 0x06 then Some Ia64
      else if i = 0x07 then Some Arm else if i = 0x08 then Some ArmThumb else if i = 0x09 then Some Sparc
      else if i = 0x0A then Some Arm64 else if i = 0x0B then Some RiscV else None)"

fun alignment :: "bcj_kind \<Rightarrow> u32" where
  "alignment X86 = 1"
| "alignment ArmThumb = 2"
| "alignment RiscV = 2"
| "alignment Ia64 = 16"
| "alignment _ = 4"

fun lookahead :: "bcj_kind \<Rightarrow> nat" where
  "lookahead X86 = 4"
| "lookahead ArmThumb = 2"
| "lookahead RiscV = 6"
| "lookahead _ = 0"

definition max_carry :: "bcj_kind \<Rightarrow> nat" where
  "max_carry k = unat (alignment k) + lookahead k - 1"

record bcj =
  b_kind :: bcj_kind
  b_pc :: u32
  b_state :: u32

definition bcj_new :: "bcj_kind \<Rightarrow> u32 \<Rightarrow> xz_error_kind + bcj" where
  "bcj_new kind start_offset =
     (if start_offset mod alignment kind \<noteq> 0 then Inl BadFilterChain
      else Inr \<lparr>b_kind = kind, b_pc = start_offset, b_state = 0\<rparr>)"

subsection \<open>x86\<close>

definition need_conv_ms_byte :: "u32 \<Rightarrow> bool" where
  "need_conv_ms_byte b \<longleftrightarrow> ((ucast b :: u8) + 1) AND 0xFE = 0"

definition is_bcj_byte :: "u32 \<Rightarrow> nat \<Rightarrow> bool" where
  "is_bcj_byte v n \<longleftrightarrow> v AND push_bit (n * 8) 0xFE = 0"

datatype x86_label = Cont | Start | Mid | MainLoop | A3

fun branch_byte_scalar :: "bytes \<Rightarrow> nat option" where
  "branch_byte_scalar [] = None"
| "branch_byte_scalar (b # hay) = (if b = 0xE8 \<or> b = 0xE9 then Some 0 else map_option Suc (branch_byte_scalar hay))"

text \<open>\<open>trailing_zeros\<close>, of a word that is not zero.\<close>

definition trailing_zeros :: "u64 \<Rightarrow> nat" where
  "trailing_zeros w = length (takeWhile (\<lambda>i. \<not> bit w i) [0..<64])"

fun find_branch_byte :: "bytes \<Rightarrow> nat option" where
  "find_branch_byte (b0 # b1 # b2 # b3 # b4 # b5 # b6 # b7 # hay) =
     (let t = (u64_from_le_bytes [b0, b1, b2, b3, b4, b5, b6, b7] OR 0x0101010101010101) XOR 0xE9E9E9E9E9E9E9E9;
          hits = (t - 0x0101010101010101) AND NOT t AND 0x8080808080808080
      in if hits \<noteq> 0 then Some (trailing_zeros hits div 8) else map_option (\<lambda>i. 8 + i) (find_branch_byte hay))"
| "find_branch_byte hay = branch_byte_scalar hay"

text \<open>One turn of the \<open>goto\<close> graph: \<open>Inl\<close> leaves the loop with the returned \<open>p\<close> and the mask.\<close>

record x86_st =
  x_label :: x86_label
  x_data :: bytes
  x_mask :: u32
  x_p :: nat

definition x86_finish :: "x86_st \<Rightarrow> u32 \<Rightarrow> x86_st option" where
  "x86_finish s v = do {
     let v = v AND (push_bit 25 1 - 1);
     let v = v - push_bit 24 1;
     d \<leftarrow> set_u32le (x_data s) (x_p s) v;
     Some (s\<lparr>x_data := d, x_p := x_p s + 4, x_label := MainLoop\<rparr>) }"

definition x86_start :: "nat \<Rightarrow> x86_st \<Rightarrow> ((x86_st \<times> nat) + x86_st) option" where
  "x86_start lim s =
     (if lim \<le> x_p s then Some (Inl (s, x_p s))
      else do {
        v \<leftarrow> get_u32le (x_data s) (x_p s);
        let v = v XOR 0xE8E8E8E8;
        let p = x_p s + 4;
        if is_bcj_byte v 0 then Some (Inr (s\<lparr>x_p := p - 3, x_label := Mid\<rparr>))
        else do {
          let mask = drop_bit 1 (x_mask s);
          if is_bcj_byte v 1 then Some (Inr (s\<lparr>x_mask := mask, x_p := p - 2, x_label := Mid\<rparr>))
          else do {
            let mask = drop_bit 1 mask;
            if is_bcj_byte v 2 then Some (Inr (s\<lparr>x_mask := mask, x_p := p - 1, x_label := Mid\<rparr>))
            else Some (Inr (s\<lparr>x_mask := 0, x_p := p, x_label := if is_bcj_byte v 3 then A3 else MainLoop\<rparr>)) } } })"

definition x86_mid :: "bool \<Rightarrow> u32 \<Rightarrow> nat \<Rightarrow> x86_st \<Rightarrow> ((x86_st \<times> nat) + x86_st) option" where
  "x86_mid encoding pc4 lim s =
     (if x_mask s = 0 then Some (Inr (s\<lparr>x_label := A3\<rparr>))
      else if lim < x_p s then Some (Inl (s, x_p s - 1))
      else if 4 < x_mask s \<or> x_mask s = 3 then Some (Inr (s\<lparr>x_mask := drop_bit 1 (x_mask s), x_label := Cont\<rparr>))
      else do {
        let s = s\<lparr>x_mask := drop_bit 1 (x_mask s)\<rparr>;
        b \<leftarrow> get_at (x_data s) (x_p s + unat (x_mask s));
        if need_conv_ms_byte (ucast b) then Some (Inr (s\<lparr>x_label := Cont\<rparr>))
        else do {
          v \<leftarrow> get_u32le (x_data s) (x_p s);
          let v = v + push_bit 24 1;
          if v AND 0xFE000000 \<noteq> 0 then Some (Inr (s\<lparr>x_label := Cont\<rparr>))
          else do {
            let c = pc4 + of_nat (x_p s);
            let v = convert_val v c encoding;
            let sh = unat (x_mask s) * 8;
            let v = (if need_conv_ms_byte (drop_bit sh v)
                     then convert_val (v XOR (push_bit sh 0x100 - 1)) c encoding else v);
            s \<leftarrow> x86_finish (s\<lparr>x_mask := 0\<rparr>) v;
            Some (Inr s) } } })"

definition x86_main :: "nat \<Rightarrow> x86_st \<Rightarrow> ((x86_st \<times> nat) + x86_st) option" where
  "x86_main lim s =
     (if lim \<le> x_p s then Some (Inl (s, x_p s))
      else do {
        let stride_end = x_p s + 4 * ((lim - x_p s + 3) div 4);
        hay \<leftarrow> slice (x_data s) (x_p s) stride_end;
        Some (case find_branch_byte hay of
            Some off \<Rightarrow> Inr (s\<lparr>x_p := x_p s + off + 1, x_label := A3\<rparr>)
          | None \<Rightarrow> Inl (s, stride_end)) })"

definition x86_a3 :: "bool \<Rightarrow> u32 \<Rightarrow> nat \<Rightarrow> x86_st \<Rightarrow> ((x86_st \<times> nat) + x86_st) option" where
  "x86_a3 encoding pc4 lim s =
     (if lim < x_p s then Some (Inl (s, x_p s - 1))
      else do {
        v \<leftarrow> get_u32le (x_data s) (x_p s);
        let v = v + push_bit 24 1;
        if v AND 0xFE000000 \<noteq> 0 then Some (Inr (s\<lparr>x_label := Cont\<rparr>))
        else do {
          s \<leftarrow> x86_finish s (convert_val v (pc4 + of_nat (x_p s)) encoding);
          Some (Inr s) } })"

definition x86_turn :: "bool \<Rightarrow> u32 \<Rightarrow> nat \<Rightarrow> x86_st \<Rightarrow> ((x86_st \<times> nat) + x86_st) option" where
  "x86_turn encoding pc4 lim s = (case x_label s of
     Cont \<Rightarrow> Some (Inr (s\<lparr>x_mask := x_mask s OR 4, x_label := Start\<rparr>))
   | Start \<Rightarrow> x86_start lim s
   | Mid \<Rightarrow> x86_mid encoding pc4 lim s
   | MainLoop \<Rightarrow> x86_main lim s
   | A3 \<Rightarrow> x86_a3 encoding pc4 lim s)"

partial_function (option) x86_loop :: "bool \<Rightarrow> u32 \<Rightarrow> nat \<Rightarrow> x86_st \<Rightarrow> (x86_st \<times> nat) option" where
  [code]: "x86_loop encoding pc4 lim s = (case x86_turn encoding pc4 lim s of
     None \<Rightarrow> None | Some (Inl r) \<Rightarrow> Some r | Some (Inr s) \<Rightarrow> x86_loop encoding pc4 lim s)"

definition x86_conv :: "bytes \<Rightarrow> u32 \<Rightarrow> u32 \<Rightarrow> bool \<Rightarrow> (bytes \<times> u32 \<times> nat) option" where
  "x86_conv data pc state encoding =
     (if length data < 5 then Some (data, state, 0)
      else do {
        (s, p) \<leftarrow> x86_loop encoding (pc + 4) (length data - 4) \<lparr>x_label = Start, x_data = data, x_mask = state, x_p = 0\<rparr>;
        Some (x_data s, x_mask s, p) })"

definition x86_decode :: "bytes \<Rightarrow> u32 \<Rightarrow> u32 \<Rightarrow> (bytes \<times> u32 \<times> nat) option" where
  "x86_decode data pc state = x86_conv data pc state False"

definition x86_encode :: "bytes \<Rightarrow> u32 \<Rightarrow> u32 \<Rightarrow> (bytes \<times> u32 \<times> nat) option" where
  "x86_encode data pc state = x86_conv data pc state True"

subsection \<open>Four-byte instructions\<close>

text \<open>\<open>data[..lim].chunks_exact_mut(4).enumerate()\<close>: the conversion of one instruction at address \<open>pc_here\<close>.\<close>

fun conv_words :: "(u32 \<Rightarrow> u32 \<Rightarrow> u32) \<Rightarrow> u32 \<Rightarrow> nat \<Rightarrow> bytes \<Rightarrow> bytes" where
  "conv_words f pc index (b0 # b1 # b2 # b3 # data) =
     le_bytes (f (pc + of_nat index * 4) (u32_from_le_bytes b0 b1 b2 b3)) @ conv_words f pc (index + 1) data"
| "conv_words f pc index data = data"

definition ARM64_FLAG :: u32 where "ARM64_FLAG = push_bit (24 - 4) 1"
definition ARM64_MASK :: u32 where "ARM64_MASK = push_bit 24 1 - push_bit 1 ARM64_FLAG"

definition arm64_word :: "bool \<Rightarrow> u32 \<Rightarrow> u32 \<Rightarrow> u32" where
  "arm64_word encoding pc_here v =
     (if (v - 0x94000000) AND 0xFC000000 = 0
      then (let c = drop_bit 2 pc_here; v = convert_val v c encoding in (v AND 0x03FFFFFF) OR 0x94000000)
      else
        (let u = v - 0x90000000 in
         if u AND 0x9F000000 = 0
         then
           (let u = u + ARM64_FLAG in
            if u AND ARM64_MASK \<noteq> 0 then v
            else
              (let z = (u AND 0xFFFFFFE0) OR drop_bit 26 u; c = drop_bit (12 - 3) pc_here AND NOT 7; z = convert_val z c encoding;
                   u = (u AND 0x1F) OR 0x90000000; u = u OR push_bit 26 z
               in u OR (0x00FFFFE0 AND ((z AND (push_bit 1 ARM64_FLAG - 1)) - ARM64_FLAG))))
         else v))"

definition arm_word :: "bool \<Rightarrow> u32 \<Rightarrow> u32 \<Rightarrow> u32" where
  "arm_word encoding pc_here v =
     (if (ucast (drop_bit 24 v) :: u8) = 0xEB
      then (let c = drop_bit 2 (pc_here + 8); v = convert_val v c encoding in (v AND 0x00FFFFFF) OR 0xEB000000)
      else v)"

definition ppc_word :: "bool \<Rightarrow> u32 \<Rightarrow> u32 \<Rightarrow> u32" where
  "ppc_word encoding pc_here v =
     (if (v - 0x01000048) AND 0x030000FC = 0
      then (let v = convert_val (swap_bytes v) pc_here encoding in swap_bytes ((v AND 0x03FFFFFF) OR 0x48000000))
      else v)"

definition SPARC_FLAG :: u32 where "SPARC_FLAG = push_bit 22 1"

definition sparc_word :: "bool \<Rightarrow> u32 \<Rightarrow> u32 \<Rightarrow> u32" where
  "sparc_word encoding pc_here v =
     (let u = word_rotl 2 (swap_bytes v) + (push_bit 2 SPARC_FLAG - 1) in
      if u AND (3 - push_bit 3 SPARC_FLAG) = 0
      then (let u = convert_val u pc_here encoding; u = u AND (push_bit 3 SPARC_FLAG - 1); u = u - (push_bit 2 SPARC_FLAG - 1)
            in swap_bytes (word_rotr 2 u))
      else v)"

definition word_lim :: "bytes \<Rightarrow> nat" where
  "word_lim data = length data div 4 * 4"

definition arm64_conv :: "bytes \<Rightarrow> u32 \<Rightarrow> bool \<Rightarrow> bytes \<times> nat" where
  "arm64_conv data pc encoding = (conv_words (arm64_word encoding) pc 0 data, word_lim data)"

definition arm_conv :: "bytes \<Rightarrow> u32 \<Rightarrow> bool \<Rightarrow> bytes \<times> nat" where
  "arm_conv data pc encoding = (conv_words (arm_word encoding) pc 0 data, word_lim data)"

definition ppc_conv :: "bytes \<Rightarrow> u32 \<Rightarrow> bool \<Rightarrow> bytes \<times> nat" where
  "ppc_conv data pc encoding = (conv_words (ppc_word encoding) pc 0 data, word_lim data)"

definition sparc_conv :: "bytes \<Rightarrow> u32 \<Rightarrow> bool \<Rightarrow> bytes \<times> nat" where
  "sparc_conv data pc encoding = (conv_words (sparc_word encoding) pc 0 data, word_lim data)"

text \<open>The predicates of the x86-64 scan, which skips the instructions that do not satisfy them.\<close>

definition arm64_scan :: "u32 \<Rightarrow> bool" where
  "arm64_scan v \<longleftrightarrow> v AND 0xFC000000 = 0x94000000 \<or> v AND 0x9F000000 = 0x90000000"

definition sparc_scan :: "u32 \<Rightarrow> bool" where
  "sparc_scan v \<longleftrightarrow> (v AND 0xC0FF = 0x0040 \<or> v AND 0xC0FF = 0xC07F)"

subsection \<open>ARM Thumb\<close>

fun armt_word_loop :: "bool \<Rightarrow> u32 \<Rightarrow> nat \<Rightarrow> bytes \<Rightarrow> bytes \<times> nat" where
  "armt_word_loop encoding pc p (b0 # b1 # b2 # b3 # rest) =
     (let word = u32_from_le_bytes b0 b1 b2 b3 in
      if word AND 0xF800F800 = 0xF800F000
      then
        (let v = push_bit 11 (word AND 0xFFFF) OR (drop_bit 16 word AND 0x7FF);
             c = drop_bit 1 (pc + of_nat p + 4);
             v = convert_val v c encoding;
             first = (drop_bit 11 v AND 0x7FF) OR 0xF000;
             second = v OR 0xF800;
             (out, n) = armt_word_loop encoding pc (p + 4) rest
         in (le_bytes (first OR push_bit 16 second) @ out, n))
      else
        (let (out, n) = armt_word_loop encoding pc (p + 2) (b2 # b3 # rest) in (b0 # b1 # out, n)))"
| "armt_word_loop encoding pc p rest = (rest, p)"

definition armt_word_conv :: "bytes \<Rightarrow> u32 \<Rightarrow> bool \<Rightarrow> bytes \<times> nat" where
  "armt_word_conv data pc encoding =
     (let size = length data div 2 * 2; (out, n) = armt_word_loop encoding pc 0 (take size data) in (out @ drop size data, n))"

definition armt_convert :: "bool \<Rightarrow> u32 \<Rightarrow> bytes \<Rightarrow> nat \<Rightarrow> (bytes \<times> nat) option" where
  "armt_convert encoding pc data p = do {
     hi \<leftarrow> get_u16le data (p - 2);
     lo \<leftarrow> get_u16le data p;
     let v = push_bit 11 hi OR (lo AND 0x7FF);
     let p = p + 2;
     let c = drop_bit 1 (pc + of_nat p);
     let v = convert_val v c encoding;
     d \<leftarrow> set_u16le data (p - 4) (ucast ((drop_bit 11 v AND 0x7FF) OR 0xF000));
     d \<leftarrow> set_u16le d (p - 2) (ucast (v OR 0xF800));
     Some (d, p) }"

text \<open>The inner scan: \<open>Inl\<close> is the return of \<open>p\<close>, \<open>Inr\<close> the position after a pair that matched.\<close>

partial_function (option) armt_scan :: "bytes \<Rightarrow> nat \<Rightarrow> u32 \<Rightarrow> nat \<Rightarrow> (nat + nat) option" where
  [code]: "armt_scan data lim b1 p =
     (if lim \<le> p then Some (Inl p)
      else do {
        b3 \<leftarrow> get_at data (p + 3);
        if 0xF8 \<le> ucast b3 AND (b1 XOR 8) then Some (Inr (p + 2))
        else if lim \<le> p + 2 then Some (Inl (p + 2))
        else do {
          b \<leftarrow> get_at data (p + 2 + 3);
          if 0xF8 \<le> (ucast b :: u32) AND (ucast b3 XOR 8) then Some (Inr (p + 4))
          else armt_scan data lim (ucast b) (p + 4) } })"

partial_function (option) armt_bytewise_loop :: "bool \<Rightarrow> u32 \<Rightarrow> nat \<Rightarrow> bytes \<Rightarrow> nat \<Rightarrow> (bytes \<times> nat) option" where
  [code]: "armt_bytewise_loop encoding pc lim data p = do {
     b1 \<leftarrow> get_at data (p + 1);
     r \<leftarrow> armt_scan data lim (ucast b1) p;
     case r of
       Inl p \<Rightarrow> Some (data, p)
     | Inr p \<Rightarrow> do {
         (d, p) \<leftarrow> armt_convert encoding pc data p;
         if lim \<le> p then Some (d, p) else armt_bytewise_loop encoding pc lim d p } }"

definition armt_bytewise_conv :: "bytes \<Rightarrow> u32 \<Rightarrow> bool \<Rightarrow> (bytes \<times> nat) option" where
  "armt_bytewise_conv data pc encoding =
     (let size = length data div 2 * 2 in
      if size \<le> 2 then Some (data, 0) else armt_bytewise_loop encoding pc (size - 2) data 0)"

definition armt_conv :: "bool \<Rightarrow> bytes \<Rightarrow> u32 \<Rightarrow> bool \<Rightarrow> (bytes \<times> nat) option" where
  "armt_conv target_x86_64 data pc encoding =
     (if target_x86_64 then Some (armt_word_conv data pc encoding) else armt_bytewise_conv data pc encoding)"

subsection \<open>IA-64\<close>

text \<open>The scan for a bundle with a slot to convert: the template's mask \<open>m\<close>, the position past the bundle and \<open>pc\<close>.\<close>

partial_function (option) ia64_scan :: "bytes \<Rightarrow> nat \<Rightarrow> nat \<Rightarrow> u32 \<Rightarrow> (nat + nat \<times> u32 \<times> nat) option" where
  [code]: "ia64_scan data lim p pc =
     (if p = lim then Some (Inl p)
      else do {
        b \<leftarrow> get_at data p;
        let m = drop_bit (unat (b AND 0x1E)) (0x334B0000 :: u32) AND 3;
        if m \<noteq> 0 then Some (Inr (p + 16, pc + push_bit 1 1, unat m)) else ia64_scan data lim (p + 16) (pc + push_bit 1 1) })"

definition IA64_LOW :: u32 where "IA64_LOW = push_bit 1 0x1FFFFF OR 1"

definition ia64_slot :: "bool \<Rightarrow> bytes \<Rightarrow> nat \<Rightarrow> u32 \<Rightarrow> nat \<Rightarrow> (bytes \<times> u32) option" where
  "ia64_slot encoding data p pc m = do {
     t \<leftarrow> get_u16le data p;
     z \<leftarrow> get_u32le data (p + 1);
     let z = drop_bit m z;
     if drop_bit m t AND push_bit 1 0x70 = 0 \<and> (z - push_bit 1 0x05000000) AND push_bit 1 0x0F000000 = 0
     then do {
       let v = (push_bit 1 0x8FFFFF OR 1) AND z;
       let z = z XOR v;
       let pc = (if encoding then pc AND IA64_LOW else pc OR NOT IA64_LOW);
       let v = (if encoding then v + pc else v - pc);
       let v = v AND NOT (push_bit 1 0x600000);
       let v = v + push_bit 1 0x700000;
       let v = v AND (push_bit 1 0x8FFFFF OR 1);
       d \<leftarrow> set_u32le data (p + 1) (push_bit m (z OR v));
       Some (d, pc) }
     else Some (data, pc) }"

text \<open>The slots from \<open>m\<close> to 3, five bytes apart; \<open>n\<close> of them are left.\<close>

primrec ia64_slots :: "nat \<Rightarrow> bool \<Rightarrow> bytes \<Rightarrow> nat \<Rightarrow> u32 \<Rightarrow> nat \<Rightarrow> (bytes \<times> nat \<times> u32) option" where
  "ia64_slots 0 encoding data p pc m = Some (data, p, pc)"
| "ia64_slots (Suc n) encoding data p pc m = do {
     (d, pc) \<leftarrow> ia64_slot encoding data p pc m;
     ia64_slots n encoding d (p + 5) pc (m + 1) }"

partial_function (option) ia64_loop :: "bool \<Rightarrow> bytes \<Rightarrow> nat \<Rightarrow> nat \<Rightarrow> u32 \<Rightarrow> (bytes \<times> nat) option" where
  [code]: "ia64_loop encoding data lim p pc = do {
     r \<leftarrow> ia64_scan data lim p pc;
     case r of
       Inl p \<Rightarrow> Some (data, p)
     | Inr (p, pc, m) \<Rightarrow>
         if p + m * 5 < 20 then None
         else do {
           (d, p, pc) \<leftarrow> ia64_slots (4 - m) encoding data (p + m * 5 - 20) pc m;
           ia64_loop encoding d lim p pc } }"

definition ia64_conv :: "bytes \<Rightarrow> u32 \<Rightarrow> bool \<Rightarrow> (bytes \<times> nat) option" where
  "ia64_conv data pc encoding =
     ia64_loop encoding data (length data div 16 * 16) 0 (drop_bit 3 (pc - push_bit 4 1))"

subsection \<open>RISC-V\<close>

definition riscv_check1 :: "u32 \<Rightarrow> u32 \<Rightarrow> bool" where
  "riscv_check1 v b \<longleftrightarrow> ((b - 3) XOR push_bit 8 v) AND (0xF8000 + 3) = 0"

definition riscv_check2 :: "u32 \<Rightarrow> u32 \<Rightarrow> bool" where
  "riscv_check2 v r \<longleftrightarrow> push_bit 18 (v - (push_bit 12 3 OR push_bit 7 2 OR 8)) < r AND 0x1D"

text \<open>\<open>RISCV_SCAN_LOOP\<close>: \<open>Inl\<close> is the return of \<open>p\<close>.\<close>

partial_function (option) riscv_scan :: "bytes \<Rightarrow> nat \<Rightarrow> nat \<Rightarrow> (nat + nat \<times> u32) option" where
  [code]: "riscv_scan data lim p =
     (if lim \<le> p then Some (Inl p)
      else do {
        h \<leftarrow> get_u16le data p;
        let a = (h XOR 0x10) + 1;
        if a AND 0x77 = 0 then Some (Inr (p, a))
        else do {
          h \<leftarrow> get_u16le data (p + 2);
          let a = (h XOR 0x10) + 1;
          if a AND 0x77 = 0
          then if lim \<le> p + 4 - 2 then Some (Inl (p + 4 - 2)) else Some (Inr (p + 4 - 2, a))
          else riscv_scan data lim (p + 4) } })"

definition riscv_dec_jal :: "u32 \<Rightarrow> bytes \<Rightarrow> nat \<Rightarrow> u32 \<Rightarrow> (bytes \<times> nat) option" where
  "riscv_dec_jal pc data p a =
     (let a = a - (0x100 - 0x7F) in
      if a AND 0xD80 \<noteq> 0 then Some (data, p + 2)
      else do {
        let a_old = (a + (0xEF - 0x7F)) AND 0xFFF;
        b3 \<leftarrow> get_at data (p + 3);
        b2 \<leftarrow> get_at data (p + 2);
        let v = push_bit 1 (ucast b3) OR push_bit 9 (ucast b2) OR push_bit 5 (a AND 0xF000);
        let v = v - (pc + of_nat p);
        let a = a_old OR (push_bit 11 v AND push_bit 31 1) OR (push_bit 20 v AND push_bit 21 0x3FF) OR
                (push_bit 9 v AND push_bit 20 1) OR (v AND push_bit 12 0xFF);
        d \<leftarrow> set_u32le data p a;
        Some (d, p + 4) })"

definition riscv_dec_auipc :: "u32 \<Rightarrow> bytes \<Rightarrow> nat \<Rightarrow> u32 \<Rightarrow> (bytes \<times> nat) option" where
  "riscv_dec_auipc pc data p v0 = do {
     a \<leftarrow> get_u32le data p;
     if v0 AND 0xE80 = 0
     then
       (let r = drop_bit 27 a in
        if riscv_check2 v0 r
        then do {
          b \<leftarrow> get_u32be data (p + 4);
          let v = drop_bit 12 a;
          let b = b - (pc + of_nat p);
          let w = push_bit 7 r + 0x17;
          let w = w + ((b + 0x800) AND 0xFFFFF000);
          let v = v OR push_bit 20 b;
          d \<leftarrow> set_u32le data p w;
          d \<leftarrow> set_u32le d (p + 4) v;
          Some (d, p + 8) }
        else Some (data, p + 4))
     else do {
       b \<leftarrow> get_u32le data (p + 4);
       if riscv_check1 v0 b
       then do {
         let v = (a AND 0xFFFFF000) OR drop_bit 20 b;
         let w = push_bit 12 b OR (0x17 + push_bit 7 2);
         d \<leftarrow> set_u32le data p w;
         d \<leftarrow> set_u32le d (p + 4) v;
         Some (d, p + 8) }
       else Some (data, p + 6) } }"

definition riscv_enc_jal :: "u32 \<Rightarrow> bytes \<Rightarrow> nat \<Rightarrow> u32 \<Rightarrow> u32 \<Rightarrow> (bytes \<times> nat) option" where
  "riscv_enc_jal pc data p v0 a =
     (if (v0 - 0x100) AND 0xD80 \<noteq> 0 then Some (data, p + 2)
      else do {
        let v = drop_bit 11 (a AND push_bit 31 1) OR drop_bit 20 (a AND push_bit 21 0x3FF) OR
                drop_bit 9 (a AND push_bit 20 1) OR (a AND push_bit 12 0xFF);
        let v = v + (pc + of_nat p);
        d \<leftarrow> set_at data (p + 1) (ucast ((drop_bit 13 v AND 0xF0) OR (drop_bit 8 a AND 0xF)));
        d \<leftarrow> set_at d (p + 2) (ucast (drop_bit 9 v));
        d \<leftarrow> set_at d (p + 3) (ucast (drop_bit 1 v));
        Some (d, p + 4) })"

definition riscv_enc_auipc :: "u32 \<Rightarrow> bytes \<Rightarrow> nat \<Rightarrow> u32 \<Rightarrow> u32 \<Rightarrow> (bytes \<times> nat) option" where
  "riscv_enc_auipc pc data p v0 a =
     (if v0 AND 0xE80 \<noteq> 0
      then do {
        b \<leftarrow> get_u32le data (p + 4);
        if riscv_check1 v0 b
        then do {
          d \<leftarrow> set_u32le data p (push_bit 12 b OR (0x17 + push_bit 7 2));
          let w = a AND 0xFFFFF000;
          let w = w + (drop_bit 20 b - (drop_bit 19 b AND 0x1000));
          let w = w + (pc + of_nat p);
          d \<leftarrow> set_u32be d (p + 4) w;
          Some (d, p + 8) }
        else Some (data, p + 6) }
      else
        (let r = drop_bit 27 a in
         if riscv_check2 v0 r
         then do {
           v \<leftarrow> get_u32le data (p + 4);
           let w = push_bit 7 r + 0x17 + (v AND 0xFFFFF000);
           d \<leftarrow> set_u32le data p w;
           d \<leftarrow> set_u32le d (p + 4) (drop_bit 12 a OR push_bit 20 v);
           Some (d, p + 8) }
         else Some (data, p + 4)))"

definition riscv_step :: "bool \<Rightarrow> u32 \<Rightarrow> bytes \<Rightarrow> nat \<Rightarrow> u32 \<Rightarrow> (bytes \<times> nat) option" where
  "riscv_step encoding pc data p a =
     (if encoding
      then do {
        w \<leftarrow> get_u32le data p;
        if a AND 8 = 0 then riscv_enc_jal pc data p a w else riscv_enc_auipc pc data p a w }
      else if a AND 8 = 0 then riscv_dec_jal pc data p a else riscv_dec_auipc pc data p a)"

partial_function (option) riscv_loop :: "bool \<Rightarrow> u32 \<Rightarrow> nat \<Rightarrow> bytes \<Rightarrow> nat \<Rightarrow> (bytes \<times> nat) option" where
  [code]: "riscv_loop encoding pc lim data p = do {
     r \<leftarrow> riscv_scan data lim p;
     case r of
       Inl p \<Rightarrow> Some (data, p)
     | Inr (p, a) \<Rightarrow> do {
         (d, p) \<leftarrow> riscv_step encoding pc data p a;
         riscv_loop encoding pc lim d p } }"

definition riscv_conv :: "bool \<Rightarrow> bytes \<Rightarrow> u32 \<Rightarrow> (bytes \<times> nat) option" where
  "riscv_conv encoding data pc =
     (let size = length data div 2 * 2 in
      if size \<le> 6 then Some (data, 0) else riscv_loop encoding pc (size - 6) data 0)"

definition riscv_decode :: "bytes \<Rightarrow> u32 \<Rightarrow> (bytes \<times> nat) option" where
  "riscv_decode data pc = riscv_conv False data pc"

definition riscv_encode :: "bytes \<Rightarrow> u32 \<Rightarrow> (bytes \<times> nat) option" where
  "riscv_encode data pc = riscv_conv True data pc"

subsection \<open>\<open>Bcj\<close>\<close>

definition bcj_convert :: "bool \<Rightarrow> bool \<Rightarrow> bytes \<Rightarrow> bcj \<Rightarrow> (bcj \<times> bytes \<times> nat) option" where
  "bcj_convert target_x86_64 encoding data b = do {
     (st, d, n) \<leftarrow> (case b_kind b of
        X86 \<Rightarrow> map_option (\<lambda>(d, st, n). (st, d, n)) (x86_conv data (b_pc b) (b_state b) encoding)
      | Ppc \<Rightarrow> Some (b_state b, ppc_conv data (b_pc b) encoding)
      | Ia64 \<Rightarrow> map_option (Pair (b_state b)) (ia64_conv data (b_pc b) encoding)
      | Arm \<Rightarrow> Some (b_state b, arm_conv data (b_pc b) encoding)
      | ArmThumb \<Rightarrow> map_option (Pair (b_state b)) (armt_conv target_x86_64 data (b_pc b) encoding)
      | Sparc \<Rightarrow> Some (b_state b, sparc_conv data (b_pc b) encoding)
      | Arm64 \<Rightarrow> Some (b_state b, arm64_conv data (b_pc b) encoding)
      | RiscV \<Rightarrow> map_option (Pair (b_state b)) (riscv_conv encoding data (b_pc b)));
     Some (b\<lparr>b_state := st, b_pc := b_pc b + of_nat n\<rparr>, d, n) }"

definition bcj_decode :: "bool \<Rightarrow> bytes \<Rightarrow> bcj \<Rightarrow> (bcj \<times> bytes \<times> nat) option" where
  "bcj_decode target_x86_64 data b = bcj_convert target_x86_64 False data b"

definition bcj_encode :: "bool \<Rightarrow> bytes \<Rightarrow> bcj \<Rightarrow> (bcj \<times> bytes \<times> nat) option" where
  "bcj_encode target_x86_64 data b = bcj_convert target_x86_64 True data b"

end
