(* ===== verification/BcjSafe.thy ===== *)
theory BcjSafe
  imports Bcj
begin

text \<open>
  The contract every converter of \<open>src/src/filters/bcj.rs\<close> has with its caller: it returns (no access is
  out of range, every scan ends), keeps the length, leaves at most \<open>max_carry\<close> bytes and does not
  touch them.
\<close>

definition conv_ok :: "nat \<Rightarrow> bytes \<Rightarrow> bytes \<times> nat \<Rightarrow> bool" where
  "conv_ok carry data = (\<lambda>(d, n). length d = length data \<and> n \<le> length data \<and> length data \<le> n + carry \<and> drop n d = drop n data)"

subsection \<open>Access\<close>

lemma get_u32le_in: "i + 4 \<le> length d \<Longrightarrow> \<exists>v. get_u32le d i = Some v"
  and get_u32be_in: "i + 4 \<le> length d \<Longrightarrow> \<exists>v. get_u32be d i = Some v"
  and get_u16le_in: "i + 2 \<le> length d \<Longrightarrow> \<exists>v. get_u16le d i = Some v"
  by (simp_all add: get_u32le_def get_u32be_def get_u16le_def)

text \<open>A store below \<open>n\<close> leaves what is from \<open>n\<close> on.\<close>

lemma copy_into_in:
  assumes "i + length w \<le> length d" "i + length w \<le> n"
  shows "\<exists>e. copy_into d i w = Some e \<and> length e = length d \<and> drop n e = drop n d"
  using assms by (auto simp: copy_into_def min_def drop_append)

lemma set_u32le_in:
  assumes "i + 4 \<le> length d" "i + 4 \<le> n"
  shows "\<exists>e. set_u32le d i v = Some e \<and> length e = length d \<and> drop n e = drop n d"
  unfolding set_u32le_def using assms by (intro copy_into_in) auto

lemma set_u32be_in:
  assumes "i + 4 \<le> length d" "i + 4 \<le> n"
  shows "\<exists>e. set_u32be d i v = Some e \<and> length e = length d \<and> drop n e = drop n d"
  unfolding set_u32be_def using assms by (intro copy_into_in) auto

lemma set_u16le_in:
  assumes "i + 2 \<le> length d" "i + 2 \<le> n"
  shows "\<exists>e. set_u16le d i v = Some e \<and> length e = length d \<and> drop n e = drop n d"
  unfolding set_u16le_def using assms by (intro copy_into_in) auto

lemma drop_mono: "drop m e = drop m d \<Longrightarrow> m \<le> n \<Longrightarrow> drop n e = drop n d"
  by (metis add_diff_inverse_nat drop_drop linorder_not_less add.commute)

subsection \<open>x86\<close>

lemma branch_byte_scalar_lt: "branch_byte_scalar hay = Some i \<Longrightarrow> i < length hay"
  by (induction hay arbitrary: i) (auto split: if_splits)

lemma trailing_zeros_lt:
  assumes "w \<noteq> 0"
  shows "trailing_zeros w < 64"
proof -
  obtain i where "bit w i" using assms by (metis bit_eq_iff bit_0_eq bot_apply bot_bool_def)
  moreover from this have "i < 64" using bit_imp_le_length [of w i] by simp
  ultimately have "\<exists>x \<in> set [0..<64]. \<not> \<not> bit w x" by auto
  then have "takeWhile (\<lambda>i. \<not> bit w i) [0..<64] \<noteq> [0..<64]" unfolding takeWhile_eq_all_conv by blast
  moreover have "length (takeWhile (\<lambda>i. \<not> bit w i) [0..<64]) \<le> 64" using length_takeWhile_le [of _ "[0..<64]"] by simp
  ultimately show ?thesis unfolding trailing_zeros_def
    by (metis (no_types, lifting) diff_zero length_upt nat_less_le takeWhile_eq_take take_all)
qed

lemma find_branch_byte_lt: "find_branch_byte hay = Some i \<Longrightarrow> i < length hay"
proof (induction hay arbitrary: i rule: find_branch_byte.induct)
  case (1 b0 b1 b2 b3 b4 b5 b6 b7 hay)
  define t where "t = (u64_from_le_bytes [b0, b1, b2, b3, b4, b5, b6, b7] OR 0x0101010101010101) XOR 0xE9E9E9E9E9E9E9E9"
  define hits where "hits = (t - 0x0101010101010101) AND NOT t AND 0x8080808080808080"
  have e: "find_branch_byte (b0 # b1 # b2 # b3 # b4 # b5 # b6 # b7 # hay) =
      (if hits \<noteq> 0 then Some (trailing_zeros hits div 8) else map_option (\<lambda>i. 8 + i) (find_branch_byte hay))"
    by (simp only: find_branch_byte.simps t_def hits_def Let_def)
  show ?case
  proof (cases "hits = 0")
    case True
    then obtain j where j: "find_branch_byte hay = Some j" "i = 8 + j" using 1(2) unfolding e by auto
    have "j < length hay" using 1(1) [OF t_def hits_def _ j(1)] True by simp
    then show ?thesis using j by simp
  next
    case False
    then have "i = trailing_zeros hits div 8" using 1(2) unfolding e by simp
    moreover have "trailing_zeros hits div 8 < 8" using trailing_zeros_lt [OF False] by simp
    ultimately show ?thesis by simp
  qed
qed (simp_all only: find_branch_byte.simps branch_byte_scalar_lt)

text \<open>Where each label can be reached, and how much of the input is still as it was.\<close>

definition x86_inv :: "bytes \<Rightarrow> x86_st \<Rightarrow> bool" where
  "x86_inv data s \<longleftrightarrow> 5 \<le> length data \<and> length (x_data s) = length data \<and>
     (case x_label s of
        Cont \<Rightarrow> x_p s \<le> length data - 4 \<and> drop (x_p s) (x_data s) = drop (x_p s) data
      | Start \<Rightarrow> x_p s \<le> length data - 4 \<and> drop (x_p s) (x_data s) = drop (x_p s) data
      | MainLoop \<Rightarrow> x_p s \<le> length data \<and> drop (x_p s) (x_data s) = drop (x_p s) data
      | _ \<Rightarrow> 0 < x_p s \<and> x_p s < length data \<and> drop (x_p s - 1) (x_data s) = drop (x_p s - 1) data)"

definition x86_rank :: "x86_label \<Rightarrow> nat" where
  "x86_rank l = (case l of Mid \<Rightarrow> 4 | A3 \<Rightarrow> 3 | Cont \<Rightarrow> 2 | Start \<Rightarrow> 1 | MainLoop \<Rightarrow> 0)"

definition x86_measure :: "bytes \<Rightarrow> x86_st \<Rightarrow> nat" where
  "x86_measure data s = 5 * (length data - x_p s) + x86_rank (x_label s)"

definition x86_ok :: "bytes \<Rightarrow> x86_st \<Rightarrow> ((x86_st \<times> nat) + x86_st) option \<Rightarrow> bool" where
  "x86_ok data s r = (case r of
     Some (Inl (s', p)) \<Rightarrow> conv_ok 4 data (x_data s', p)
   | Some (Inr s') \<Rightarrow> x86_inv data s' \<and> x86_measure data s' < x86_measure data s
   | None \<Rightarrow> False)"

lemma x86_finish_ok:
  assumes "5 \<le> length data" "length (x_data s) = length data" "x_p s + 4 \<le> length data"
    "drop (x_p s) (x_data s) = drop (x_p s) data"
  shows "\<exists>s'. x86_finish s v = Some s' \<and> x86_inv data s' \<and> x_p s' = x_p s + 4 \<and> x_label s' = MainLoop"
proof -
  define w where "w = (v AND (push_bit 25 1 - 1)) - push_bit 24 1"
  obtain e where e: "set_u32le (x_data s) (x_p s) w = Some e" "length e = length data"
      "drop (x_p s + 4) e = drop (x_p s + 4) (x_data s)"
    using set_u32le_in [of "x_p s" "x_data s" "x_p s + 4" w] assms by auto
  have "drop (x_p s + 4) (x_data s) = drop (x_p s + 4) data" by (rule drop_mono [OF assms(4)]) simp
  moreover have "x86_finish s v = Some (s\<lparr>x_data := e, x_p := x_p s + 4, x_label := MainLoop\<rparr>)"
    unfolding x86_finish_def Let_def w_def [symmetric] e(1) by simp
  ultimately show ?thesis using e assms(1,3) by (simp add: x86_inv_def)
qed

lemma x86_start_ok:
  assumes "x86_inv data s" "x_label s = Start"
  shows "x86_ok data s (x86_start (length data - 4) s)"
proof (cases "length data - 4 \<le> x_p s")
  case True
  then show ?thesis using assms by (auto simp: x86_start_def x86_ok_def x86_inv_def conv_ok_def)
next
  case False
  have i: "length (x_data s) = length data" "drop (x_p s) (x_data s) = drop (x_p s) data" "x_p s + 4 < length data" "5 \<le> length data"
    using assms False by (auto simp: x86_inv_def)
  obtain v where v: "get_u32le (x_data s) (x_p s) = Some v" using get_u32le_in [of "x_p s" "x_data s"] i by auto
  have d: "drop (x_p s + k) (x_data s) = drop (x_p s + k) data" for k by (rule drop_mono [OF i(2)]) simp
  show ?thesis using False i v d [of 0] d [of 1] d [of 2] d [of 3] d [of 4]
    by (auto simp: x86_start_def x86_ok_def x86_inv_def x86_measure_def x86_rank_def assms(2) Let_def eval_nat_numeral)
qed

lemma x86_main_ok:
  assumes "x86_inv data s" "x_label s = MainLoop"
  shows "x86_ok data s (x86_main (length data - 4) s)"
proof (cases "length data - 4 \<le> x_p s")
  case True
  then show ?thesis using assms by (auto simp: x86_main_def x86_ok_def x86_inv_def conv_ok_def)
next
  case False
  define e where "e = x_p s + 4 * ((length data - 4 - x_p s + 3) div 4)"
  have i: "length (x_data s) = length data" "drop (x_p s) (x_data s) = drop (x_p s) data" "5 \<le> length data"
    using assms by (auto simp: x86_inv_def)
  have e: "length data - 4 \<le> e" "e \<le> length data - 1" "x_p s \<le> e"
    using False by (auto simp: e_def)
  define hay where "hay = take (e - x_p s) (drop (x_p s) (x_data s))"
  have h: "slice (x_data s) (x_p s) e = Some hay" using e i by (simp add: hay_def)
  have d: "drop (x_p s + k) (x_data s) = drop (x_p s + k) data" for k by (rule drop_mono [OF i(2)]) simp
  show ?thesis
  proof (cases "find_branch_byte hay")
    case None
    have "drop e (x_data s) = drop e data" using d [of "e - x_p s"] e(3) by simp
    moreover have "e \<le> length data" "length data \<le> e + 4" using e by linarith+
    ultimately show ?thesis unfolding x86_main_def Let_def e_def [symmetric] h
      using False None i by (simp add: x86_ok_def conv_ok_def)
  next
    case (Some off)
    then have "off < e - x_p s" using find_branch_byte_lt [OF Some] by (simp add: hay_def)
    then have "x_p s + off + 1 < length data" using e by linarith
    then show ?thesis unfolding x86_main_def Let_def e_def [symmetric] h
      using False Some i d [of off] by (simp add: x86_ok_def x86_inv_def x86_measure_def x86_rank_def assms(2))
  qed
qed

lemma x86_a3_ok:
  assumes "x86_inv data s" "x_label s = A3"
  shows "x86_ok data s (x86_a3 encoding pc4 (length data - 4) s)"
proof -
  have i: "length (x_data s) = length data" "drop (x_p s - 1) (x_data s) = drop (x_p s - 1) data" "5 \<le> length data"
    "0 < x_p s" "x_p s < length data" using assms by (auto simp: x86_inv_def)
  have d: "drop (x_p s) (x_data s) = drop (x_p s) data" by (rule drop_mono [OF i(2)]) simp
  show ?thesis
  proof (cases "length data - 4 < x_p s")
    case True
    moreover from this have "x_p s - 1 \<le> length data" "length data \<le> x_p s - 1 + 4" using i by linarith+
    ultimately show ?thesis using i by (simp add: x86_a3_def x86_ok_def conv_ok_def)
  next
    case False
    then have p: "x_p s + 4 \<le> length data" using i by linarith
    then obtain v where v: "get_u32le (x_data s) (x_p s) = Some v" using get_u32le_in [of "x_p s" "x_data s"] i by auto
    obtain s' where s': "x86_finish s (convert_val (v + push_bit 24 1) (pc4 + of_nat (x_p s)) encoding) = Some s'"
        "x86_inv data s'" "x_p s' = x_p s + 4" "x_label s' = MainLoop"
      using x86_finish_ok [OF i(3,1) p d] by blast
    show ?thesis using False v s' i d
      by (auto simp: x86_a3_def x86_ok_def x86_inv_def x86_measure_def x86_rank_def assms(2) Let_def)
  qed
qed

lemma x86_mid_ok:
  assumes "x86_inv data s" "x_label s = Mid"
  shows "x86_ok data s (x86_mid encoding pc4 (length data - 4) s)"
proof -
  have i: "length (x_data s) = length data" "drop (x_p s - 1) (x_data s) = drop (x_p s - 1) data" "5 \<le> length data"
    "0 < x_p s" "x_p s < length data" using assms by (auto simp: x86_inv_def)
  have d: "drop (x_p s) (x_data s) = drop (x_p s) data" by (rule drop_mono [OF i(2)]) simp
  have cont: "x86_ok data s (Some (Inr (s\<lparr>x_mask := m, x_label := Cont\<rparr>)))" if "\<not> length data - 4 < x_p s" for m
    using that i d by (simp add: x86_ok_def x86_inv_def x86_measure_def x86_rank_def assms(2))
  consider "x_mask s = 0" | "x_mask s \<noteq> 0" "length data - 4 < x_p s"
    | "x_mask s \<noteq> 0" "\<not> length data - 4 < x_p s" "4 < x_mask s \<or> x_mask s = 3"
    | "x_mask s \<noteq> 0" "\<not> length data - 4 < x_p s" "\<not> (4 < x_mask s \<or> x_mask s = 3)" by blast
  then show ?thesis
  proof cases
    case 1
    then show ?thesis using i by (simp add: x86_mid_def x86_ok_def x86_inv_def x86_measure_def x86_rank_def assms(2))
  next
    case 2
    moreover from this have "x_p s - 1 \<le> length data" "length data \<le> x_p s - 1 + 4" using i by linarith+
    ultimately show ?thesis using i by (simp add: x86_mid_def x86_ok_def conv_ok_def)
  next
    case 3
    then show ?thesis using cont by (simp add: x86_mid_def)
  next
    case 4
    have "unat (x_mask s) \<le> 4" using 4(3) by (simp add: word_less_nat_alt not_less)
    then have "unat (drop_bit 1 (x_mask s)) \<le> 2" by (simp add: unat_drop_bit del: drop_bit_Suc)
    then obtain b where b: "get_at (x_data s) (x_p s + unat (drop_bit 1 (x_mask s))) = Some b" using i 4(2) by auto
    have p: "x_p s + 4 \<le> length data" using i 4(2) by linarith
    obtain v where v: "get_u32le (x_data s) (x_p s) = Some v" using get_u32le_in [of "x_p s" "x_data s"] i p by auto
    have fin: "\<exists>s'. x86_finish (s\<lparr>x_mask := 0\<rparr>) u = Some s' \<and> x86_inv data s' \<and> x_p s' = x_p s + 4 \<and> x_label s' = MainLoop" for u
      using x86_finish_ok [of data "s\<lparr>x_mask := 0\<rparr>" u] i d p by auto
    have fin': "x86_ok data s (do { s' \<leftarrow> x86_finish (s\<lparr>x_mask := 0\<rparr>) u; Some (Inr s') })" for u
      using fin [of u] i by (auto simp: x86_ok_def x86_measure_def x86_rank_def assms(2))
    show ?thesis unfolding x86_mid_def Let_def using 4 b v cont [OF 4(2)] fin'
      by (simp split del: if_split add: if_split [of "x86_ok data s"])
  qed
qed

lemma x86_turn_ok:
  assumes "x86_inv data s"
  shows "x86_ok data s (x86_turn encoding pc4 (length data - 4) s)"
proof (cases "x_label s")
  case Cont
  then show ?thesis using assms by (simp add: x86_turn_def x86_ok_def x86_inv_def x86_measure_def x86_rank_def)
qed (use assms in \<open>simp_all add: x86_turn_def x86_start_ok x86_mid_ok x86_main_ok x86_a3_ok\<close>)

lemma x86_loop_ok:
  "x86_inv data s \<Longrightarrow> \<exists>s' p. x86_loop encoding pc4 (length data - 4) s = Some (s', p) \<and> conv_ok 4 data (x_data s', p)"
proof (induction "x86_measure data s" arbitrary: s rule: less_induct)
  case less
  have ok: "x86_ok data s (x86_turn encoding pc4 (length data - 4) s)" by (rule x86_turn_ok [OF less(2)])
  show ?case
  proof (cases "x86_turn encoding pc4 (length data - 4) s")
    case (Some r)
    then show ?thesis using ok less(1)
      by (cases r) (auto simp: x86_ok_def x86_loop.simps [of encoding pc4 "length data - 4" s])
  qed (use ok in \<open>simp add: x86_ok_def\<close>)
qed

lemma x86_conv_ok: "\<exists>d st n. x86_conv data pc state encoding = Some (d, st, n) \<and> conv_ok 4 data (d, n)"
proof (cases "length data < 5")
  case False
  then have "x86_inv data \<lparr>x_label = Start, x_data = data, x_mask = state, x_p = 0\<rparr>" by (simp add: x86_inv_def)
  from x86_loop_ok [OF this, of encoding "pc + 4"] show ?thesis using False by (auto simp: x86_conv_def)
qed (simp add: x86_conv_def conv_ok_def)

subsection \<open>Words and half-words\<close>

lemma drop_4: "drop (4 + k) (a # b # c # d # xs) = drop k xs"
  by (simp add: eval_nat_numeral)

lemma conv_words_length [simp]: "length (conv_words f pc i data) = length data"
  by (induction f pc i data rule: conv_words.induct) auto

lemma conv_words_tail: "drop (length data div 4 * 4) (conv_words f pc i data) = drop (length data div 4 * 4) data"
proof (induction f pc i data rule: conv_words.induct)
  case (1 f pc i b0 b1 b2 b3 data)
  have "length (b0 # b1 # b2 # b3 # data) div 4 * 4 = 4 + length data div 4 * 4" using div_add_self1 [of 4 "length data"] by simp
  moreover have "drop (4 + n) (le_bytes w @ xs) = drop n xs" for n w and xs :: bytes by simp
  ultimately show ?case using 1 by (simp only: conv_words.simps drop_4)
qed simp_all

lemma conv_words_ok: "conv_ok 3 data (conv_words f pc 0 data, word_lim data)"
proof -
  have "length data mod 4 < 4" "length data div 4 * 4 + length data mod 4 = length data" by simp_all
  then have "length data div 4 * 4 \<le> length data" "length data \<le> length data div 4 * 4 + 3" by linarith+
  then show ?thesis by (simp add: conv_ok_def word_lim_def conv_words_tail)
qed

lemma armt_word_loop_ok:
  assumes "armt_word_loop encoding pc p rest = (out, n)"
  shows "\<exists>k. n = p + k \<and> even k \<and> k \<le> length rest \<and> length rest < k + 4 \<and> length out = length rest \<and> drop k out = drop k rest"
  using assms
proof (induction encoding pc p rest arbitrary: out n rule: armt_word_loop.induct)
  case (1 encoding pc p b0 b1 b2 b3 rest)
  define word where "word = u32_from_le_bytes b0 b1 b2 b3"
  show ?case
  proof (cases "word AND 0xF800F800 = 0xF800F000")
    case True
    then obtain o2 w where r: "armt_word_loop encoding pc (p + 4) rest = (o2, n)" "out = le_bytes w @ o2"
      using 1(3) by (auto simp: word_def Let_def split: prod.splits)
    obtain k where "n = p + 4 + k" "even k" "k \<le> length rest" "length rest < k + 4" "length o2 = length rest" "drop k o2 = drop k rest"
      using 1(1) [OF word_def True refl refl refl refl refl r(1)] by blast
    moreover have "drop (4 + k) (le_bytes w @ o2) = drop k o2" "drop (4 + k) (b0 # b1 # b2 # b3 # rest) = drop k rest" by (simp_all add: drop_4)
    ultimately show ?thesis using r(2) by (intro exI [of _ "4 + k"]) simp
  next
    case False
    then obtain o2 where r: "armt_word_loop encoding pc (p + 2) (b2 # b3 # rest) = (o2, n)" "out = b0 # b1 # o2"
      using 1(3) by (auto simp: word_def Let_def split: prod.splits)
    obtain k where "n = p + 2 + k" "even k" "k \<le> length (b2 # b3 # rest)" "length (b2 # b3 # rest) < k + 4"
        "length o2 = length (b2 # b3 # rest)" "drop k o2 = drop k (b2 # b3 # rest)"
      using 1(2) [OF word_def False r(1)] by blast
    then show ?thesis using r(2) by (intro exI [of _ "2 + k"]) simp
  qed
qed auto

lemma armt_word_conv_ok: "conv_ok 3 data (armt_word_conv data pc encoding)"
proof -
  define size where "size = length data div 2 * 2"
  have s: "size \<le> length data" "length data \<le> size + 1" "even size" by (auto simp: size_def)
  obtain out n where r: "armt_word_loop encoding pc 0 (take size data) = (out, n)" by fastforce
  obtain k where k: "n = k" "even k" "k \<le> size" "size < k + 4" "length out = size" "drop k out = drop k (take size data)"
    using armt_word_loop_ok [OF r] s by auto
  have "size \<noteq> k + 3" using k(2) s(3) by presburger
  then have "size \<le> k + 2" "length data \<le> k + 3" using k(4) s by auto
  moreover have "drop k (out @ drop size data) = drop k data"
    using k s append_take_drop_id [of size data] by (metis drop_append length_take min.absorb2)
  ultimately show ?thesis using k s r by (simp add: armt_word_conv_def size_def [symmetric] conv_ok_def)
qed

lemma armt_scan_ok:
  assumes "even p" "even lim" "lim + 2 \<le> length data" "p \<le> lim"
  shows "\<exists>r. armt_scan data lim b1 p = Some r \<and>
    (case r of Inl q \<Rightarrow> q = lim | Inr q \<Rightarrow> even q \<and> p + 2 \<le> q \<and> q \<le> lim)"
  using assms
proof (induction "lim - p" arbitrary: p b1 rule: less_induct)
  case less
  show ?case
  proof (cases "p = lim")
    case True
    then show ?thesis by (subst armt_scan.simps) simp
  next
    case False
    then have p: "p + 2 \<le> lim" using less(2,3,5) by (auto elim!: evenE)
    show ?thesis
    proof (cases "p + 2 = lim")
      case True
      then show ?thesis using less(2-5) by (subst armt_scan.simps) simp
    next
      case False
      then have q: "p + 4 \<le> lim" using p less(2,3) by presburger
      obtain b where b: "get_at data (p + 2 + 3) = Some b" using q less(4) by auto
      have "lim - (p + 4) < lim - p" "even (p + 4)" using q less(2) by auto
      from less(1) [OF this less(3,4) q]
      obtain r where r: "armt_scan data lim (ucast b) (p + 4) = Some r"
          "case r of Inl q \<Rightarrow> q = lim | Inr q \<Rightarrow> even q \<and> p + 4 + 2 \<le> q \<and> q \<le> lim"
        by blast
      show ?thesis using p q b r less(2-4) by (subst armt_scan.simps) (auto split: sum.splits)
    qed
  qed
qed

lemma armt_convert_ok:
  assumes "2 \<le> p" "p + 2 \<le> length data"
  shows "\<exists>d. armt_convert encoding pc data p = Some (d, p + 2) \<and> length d = length data \<and> drop (p + 2) d = drop (p + 2) data"
proof -
  have "p - 2 + 2 \<le> length data" using assms by linarith
  then obtain hi lo where g: "get_u16le data (p - 2) = Some hi" "get_u16le data p = Some lo"
    using get_u16le_in [of "p - 2" data] get_u16le_in [of p data] assms by blast
  define v where "v = convert_val (push_bit 11 hi OR (lo AND 0x7FF)) (drop_bit 1 (pc + of_nat (p + 2))) encoding"
  obtain d1 where d1: "set_u16le data (p - 2) (ucast ((drop_bit 11 v AND 0x7FF) OR 0xF000)) = Some d1" "length d1 = length data"
      "drop (p + 2) d1 = drop (p + 2) data"
    using set_u16le_in [of "p - 2" data "p + 2"] assms by fastforce
  obtain d2 where d2: "set_u16le d1 p (ucast (v OR 0xF800)) = Some d2" "length d2 = length d1" "drop (p + 2) d2 = drop (p + 2) d1"
    using set_u16le_in [of p d1 "p + 2"] assms d1(2) by fastforce
  have "p + 2 - 4 = p - 2" "p + 2 - 2 = p" using assms by auto
  then have "armt_convert encoding pc data p = Some (d2, p + 2)"
    unfolding armt_convert_def Let_def g using d1(1) d2(1) by (simp add: v_def)
  then show ?thesis using d1 d2 by simp
qed

lemma armt_bytewise_loop_ok:
  assumes "even p" "even lim" "lim + 2 \<le> length data" "p < lim"
  shows "\<exists>d n. armt_bytewise_loop encoding pc lim data p = Some (d, n) \<and> lim \<le> n \<and> n \<le> lim + 2 \<and>
    length d = length data \<and> drop n d = drop n data"
  using assms
proof (induction "lim - p" arbitrary: p data rule: less_induct)
  case less
  obtain b1 where b1: "get_at data (p + 1) = Some b1" using less(4,5) by auto
  obtain r where r: "armt_scan data lim (ucast b1) p = Some r"
      "case r of Inl q \<Rightarrow> q = lim | Inr q \<Rightarrow> even q \<and> p + 2 \<le> q \<and> q \<le> lim"
    using armt_scan_ok [of p lim data "ucast b1"] less(2-5) by auto
  show ?case
  proof (cases r)
    case (Inl q)
    then show ?thesis using b1 r by (subst armt_bytewise_loop.simps) simp
  next
    case (Inr q)
    then have q: "even q" "p + 2 \<le> q" "q \<le> lim" using r(2) by auto
    obtain d where d: "armt_convert encoding pc data q = Some (d, q + 2)" "length d = length data" "drop (q + 2) d = drop (q + 2) data"
      using armt_convert_ok [of q data encoding pc] q less(4) by auto
    show ?thesis
    proof (cases "lim \<le> q + 2")
      case True
      then show ?thesis using b1 r Inr d q by (subst armt_bytewise_loop.simps) auto
    next
      case False
      then have "lim - (q + 2) < lim - p" "q + 2 < lim" "even (q + 2)" "lim + 2 \<le> length d" using q d(2) less(4) by auto
      from less(1) [OF this(1) this(3) less(3) this(4) this(2)]
      obtain e n where e: "armt_bytewise_loop encoding pc lim d (q + 2) = Some (e, n)" "lim \<le> n" "n \<le> lim + 2"
          "length e = length d" "drop n e = drop n d"
        by blast
      have "drop n d = drop n data" by (rule drop_mono [OF d(3)]) (use e(2) False in simp)
      then show ?thesis using b1 r Inr d e False by (subst armt_bytewise_loop.simps) auto
    qed
  qed
qed

lemma armt_conv_ok: "\<exists>d n. armt_conv target data pc encoding = Some (d, n) \<and> conv_ok 3 data (d, n)"
proof -
  define size where "size = length data div 2 * 2"
  have s: "size \<le> length data" "length data \<le> size + 1" "even size" by (auto simp: size_def)
  have "\<exists>d n. armt_bytewise_conv data pc encoding = Some (d, n) \<and> conv_ok 3 data (d, n)"
  proof (cases "size \<le> 2")
    case True
    then show ?thesis using s by (simp add: armt_bytewise_conv_def size_def [symmetric] conv_ok_def)
  next
    case False
    then have "2 < size" "even (size - 2)" "size - 2 + 2 = size" using s(3) by auto
    then obtain d n where "armt_bytewise_loop encoding pc (size - 2) data 0 = Some (d, n)" "size - 2 \<le> n" "n \<le> size"
        "length d = length data" "drop n d = drop n data"
      using armt_bytewise_loop_ok [of 0 "size - 2" data encoding pc] s by (metis even_zero zero_less_diff)
    then show ?thesis using False s by (auto simp: armt_bytewise_conv_def size_def [symmetric] conv_ok_def)
  qed
  then show ?thesis using armt_word_conv_ok [of data pc encoding] by (cases "armt_word_conv data pc encoding") (simp add: armt_conv_def)
qed

subsection \<open>RISC-V\<close>

lemma riscv_scan_ok:
  assumes "even p" "even lim" "lim + 6 \<le> length data" "p \<le> lim + 4"
  shows "\<exists>r. riscv_scan data lim p = Some r \<and>
    (case r of Inl q \<Rightarrow> lim \<le> q \<and> q \<le> lim + 4 \<and> p \<le> q | Inr (q, a) \<Rightarrow> even q \<and> p \<le> q \<and> q < lim)"
  using assms
proof (induction "lim - p" arbitrary: p rule: less_induct)
  case less
  show ?case
  proof (cases "lim \<le> p")
    case True
    then show ?thesis using less(5) by (subst riscv_scan.simps) simp
  next
    case False
    then have p: "p + 2 \<le> lim" using less(2,3) by presburger
    obtain h1 where h1: "get_u16le data p = Some h1" using get_u16le_in [of p data] p less(4) by auto
    obtain h2 where h2: "get_u16le data (p + 2) = Some h2" using get_u16le_in [of "p + 2" data] p less(4) by auto
    have "lim - (p + 4) < lim - p" "even (p + 4)" "p + 4 \<le> lim + 4" using p less(2) by auto
    from less(1) [OF this(1,2) less(3,4) this(3)]
    obtain r where r: "riscv_scan data lim (p + 4) = Some r"
        "case r of Inl q \<Rightarrow> lim \<le> q \<and> q \<le> lim + 4 \<and> p + 4 \<le> q | Inr (q, a) \<Rightarrow> even q \<and> p + 4 \<le> q \<and> q < lim" by blast
    show ?thesis using p h1 h2 r less(2) by (subst riscv_scan.simps) (auto simp: Let_def split: sum.splits)
  qed
qed

text \<open>What a step may do: some bytes forward, and no byte past there touched.\<close>

definition step_ok :: "bytes \<Rightarrow> nat \<Rightarrow> (bytes \<times> nat) option \<Rightarrow> bool" where
  "step_ok data p r \<longleftrightarrow> (\<exists>d k. r = Some (d, p + k) \<and> k \<in> {2, 4, 6, 8} \<and> length d = length data \<and> drop (p + k) d = drop (p + k) data)"

lemma step_okI: "k \<in> {2, 4, 6, 8} \<Longrightarrow> length d = length data \<Longrightarrow> drop (p + k) d = drop (p + k) data \<Longrightarrow> step_ok data p (Some (d, p + k))"
  by (auto simp: step_ok_def)

lemma step_ok_skip: "k \<in> {2, 4, 6, 8} \<Longrightarrow> step_ok data p (Some (data, p + k))"
  by (auto simp: step_ok_def)

lemma set_pair_ok:
  assumes "p + 8 \<le> length data"
  shows "step_ok data p (do { d \<leftarrow> set_u32le data p v; d \<leftarrow> set_u32le d (p + 4) w; Some (d, p + 8) })"
    "step_ok data p (do { d \<leftarrow> set_u32le data p v; d \<leftarrow> set_u32be d (p + 4) w; Some (d, p + 8) })"
proof -
  obtain d1 where d1: "set_u32le data p v = Some d1" "length d1 = length data" "drop (p + 8) d1 = drop (p + 8) data"
    using set_u32le_in [of p data "p + 8" v] assms by auto
  obtain d2 where d2: "set_u32le d1 (p + 4) w = Some d2" "length d2 = length d1" "drop (p + 8) d2 = drop (p + 8) d1"
    using set_u32le_in [of "p + 4" d1 "p + 8" w] assms d1(2) by auto
  obtain d3 where d3: "set_u32be d1 (p + 4) w = Some d3" "length d3 = length d1" "drop (p + 8) d3 = drop (p + 8) d1"
    using set_u32be_in [of "p + 4" d1 "p + 8" w] assms d1(2) by auto
  show "step_ok data p (do { d \<leftarrow> set_u32le data p v; d \<leftarrow> set_u32le d (p + 4) w; Some (d, p + 8) })"
    "step_ok data p (do { d \<leftarrow> set_u32le data p v; d \<leftarrow> set_u32be d (p + 4) w; Some (d, p + 8) })"
    using d1 d2 d3 by (auto intro: step_okI)
qed

lemma set_bytes_ok:
  assumes "p + 4 \<le> length data"
  shows "step_ok data p (do { d \<leftarrow> set_at data (p + 1) x; d \<leftarrow> set_at d (p + 2) y; d \<leftarrow> set_at d (p + 3) z; Some (d, p + 4) })"
  using assms by (auto simp: step_ok_def)

lemma set_word_ok:
  assumes "p + 4 \<le> length data"
  shows "step_ok data p (do { d \<leftarrow> set_u32le data p v; Some (d, p + 4) })"
  using set_u32le_in [of p data "p + 4" v] assms by (auto intro: step_okI)

lemma riscv_step_ok:
  assumes "p + 8 \<le> length data"
  shows "step_ok data p (riscv_step encoding pc data p a)"
proof -
  obtain w where w: "get_u32le data p = Some w" using get_u32le_in [of p data] assms by auto
  obtain b where b: "get_u32le data (p + 4) = Some b" using get_u32le_in [of "p + 4" data] assms by auto
  obtain c where c: "get_u32be data (p + 4) = Some c" using get_u32be_in [of "p + 4" data] assms by auto
  have g: "get_at data (p + 3) = Some (data ! (p + 3))" "get_at data (p + 2) = Some (data ! (p + 2))" using assms by auto
  have p4: "p + 4 \<le> length data" using assms by simp
  note ok = set_pair_ok [OF assms] set_bytes_ok [OF p4] set_word_ok [OF p4] step_ok_skip step_ok_skip [of 2 data p, simplified]
  have 1: "step_ok data p (riscv_dec_jal pc data p a)"
    unfolding riscv_dec_jal_def Let_def g using ok by (simp split del: if_split add: if_split [of "step_ok data p"])
  have 2: "step_ok data p (riscv_dec_auipc pc data p a)"
    unfolding riscv_dec_auipc_def Let_def w b c using ok by (simp split del: if_split add: if_split [of "step_ok data p"])
  have 3: "step_ok data p (riscv_enc_jal pc data p a w)"
    unfolding riscv_enc_jal_def Let_def using ok by (simp split del: if_split add: if_split [of "step_ok data p"])
  have 4: "step_ok data p (riscv_enc_auipc pc data p a w)"
    unfolding riscv_enc_auipc_def Let_def b using ok by (simp split del: if_split add: if_split [of "step_ok data p"])
  show ?thesis unfolding riscv_step_def w using 1 2 3 4 by simp
qed

lemma riscv_loop_ok:
  assumes "even p" "even lim" "lim + 6 \<le> length data" "p \<le> lim + 6"
  shows "\<exists>d n. riscv_loop encoding pc lim data p = Some (d, n) \<and> lim \<le> n \<and> n \<le> lim + 6 \<and> p \<le> n \<and>
    length d = length data \<and> drop n d = drop n data"
  using assms
proof (induction "lim + 6 - p" arbitrary: p data rule: less_induct)
  case less
  show ?case
  proof (cases "lim \<le> p")
    case True
    then have "riscv_scan data lim p = Some (Inl p)" by (subst riscv_scan.simps) simp
    then show ?thesis using True less(5) by (subst riscv_loop.simps) simp
  next
    case False
    then obtain r where r: "riscv_scan data lim p = Some r"
        "case r of Inl q \<Rightarrow> lim \<le> q \<and> q \<le> lim + 4 \<and> p \<le> q | Inr (q, a) \<Rightarrow> even q \<and> p \<le> q \<and> q < lim"
      using riscv_scan_ok [of p lim data] less(2-4) by auto
    show ?thesis
    proof (cases r)
      case (Inl q)
      then show ?thesis using r by (subst riscv_loop.simps) auto
    next
      case (Inr qa)
      obtain q a where qa: "qa = (q, a)" by fastforce
      then have q: "even q" "p \<le> q" "q + 2 \<le> lim" using r(2) Inr less(3) by (auto elim!: evenE)
      obtain d k where d: "riscv_step encoding pc data q a = Some (d, q + k)" "k \<in> {2, 4, 6, 8}" "length d = length data"
          "drop (q + k) d = drop (q + k) data"
        using riscv_step_ok [of q data encoding pc a] q less(4) by (auto simp: step_ok_def)
      have "lim + 6 - (q + k) < lim + 6 - p" "even (q + k)" "lim + 6 \<le> length d" "q + k \<le> lim + 6" using q d less(4) False by auto
      from less(1) [OF this(1,2) less(3) this(3,4)]
      obtain e n where e: "riscv_loop encoding pc lim d (q + k) = Some (e, n)" "lim \<le> n" "n \<le> lim + 6"
          "length e = length d" "drop n e = drop n d" "q + k \<le> n" by blast
      have "drop n d = drop n data" by (rule drop_mono [OF d(4) e(6)])
      then show ?thesis using r(1) Inr qa d e q by (subst riscv_loop.simps) simp
    qed
  qed
qed

lemma riscv_conv_ok: "\<exists>d n. riscv_conv encoding data pc = Some (d, n) \<and> conv_ok 7 data (d, n)"
proof -
  define size where "size = length data div 2 * 2"
  have s: "size \<le> length data" "length data \<le> size + 1" "even size" by (auto simp: size_def)
  show ?thesis
  proof (cases "size \<le> 6")
    case True
    then show ?thesis using s by (simp add: riscv_conv_def size_def [symmetric] conv_ok_def)
  next
    case False
    then have e: "even (size - 6)" "size - 6 + 6 = size" using s(3) by auto
    then obtain d n where "riscv_loop encoding pc (size - 6) data 0 = Some (d, n)" "size - 6 \<le> n" "n \<le> size"
        "length d = length data" "drop n d = drop n data"
      using riscv_loop_ok [of 0 "size - 6" data encoding pc] s(1) by auto
    then show ?thesis using False s by (auto simp: riscv_conv_def size_def [symmetric] conv_ok_def)
  qed
qed

subsection \<open>IA-64\<close>

lemma ia64_scan_ok:
  assumes "16 dvd lim - p" "p \<le> lim" "lim \<le> length data"
  shows "\<exists>r. ia64_scan data lim p pc = Some r \<and>
    (case r of Inl q \<Rightarrow> q = lim | Inr (q, pc', m) \<Rightarrow> p + 16 \<le> q \<and> q \<le> lim \<and> 16 dvd lim - q \<and> m \<in> {1, 2, 3})"
  using assms
proof (induction "lim - p" arbitrary: p pc rule: less_induct)
  case less
  show ?case
  proof (cases "p = lim")
    case True
    then show ?thesis by (subst ia64_scan.simps) simp
  next
    case False
    then obtain j where j: "lim - p = 16 * Suc j" using less(2,3) by (cases "(lim - p) div 16") (auto elim!: dvdE)
    then have q: "p + 16 \<le> lim" "lim - (p + 16) = 16 * j" "lim - (p + 16) < lim - p" by auto
    then have dv: "16 dvd lim - (p + 16)" by simp
    obtain b where b: "get_at data p = Some b" using q less(4) by auto
    define m where "m = drop_bit (unat (b AND 0x1E)) (0x334B0000 :: u32) AND 3"
    have "unat m < 4" using unat_and_mask [of "drop_bit (unat (b AND 0x1E)) (0x334B0000 :: u32)" 2] by (simp add: m_def mask_eq_exp_minus_1)
    moreover have "unat m \<noteq> 0" if "m \<noteq> 0" using that by (simp add: unat_eq_0)
    ultimately have "unat m = 1 \<or> unat m = 2 \<or> unat m = 3" if "m \<noteq> 0" using that by linarith
    then have m: "unat m \<in> {1, 2, 3}" if "m \<noteq> 0" using that by blast
    from less(1) [OF q(3) dv q(1) less(4), of "pc + push_bit 1 1"]
    obtain r where r: "ia64_scan data lim (p + 16) (pc + push_bit 1 1) = Some r"
        "case r of Inl q \<Rightarrow> q = lim | Inr (q, pc', m) \<Rightarrow> p + 16 + 16 \<le> q \<and> q \<le> lim \<and> 16 dvd lim - q \<and> m \<in> {1, 2, 3}" by blast
    have e: "ia64_scan data lim p pc =
        (if m \<noteq> 0 then Some (Inr (p + 16, pc + push_bit 1 1, unat m)) else ia64_scan data lim (p + 16) (pc + push_bit 1 1))"
      using False b by (subst ia64_scan.simps) (simp add: m_def [symmetric] Let_def)
    show ?thesis
    proof (cases "m = 0")
      case True
      then show ?thesis using e r by (auto split: sum.splits)
    next
      case False
      then show ?thesis using e m q dv by auto
    qed
  qed
qed

lemma ia64_slot_ok:
  assumes "p + 5 \<le> length data"
  shows "\<exists>d pc'. ia64_slot encoding data p pc m = Some (d, pc') \<and> length d = length data \<and> drop (p + 5) d = drop (p + 5) data"
proof -
  obtain t where t: "get_u16le data p = Some t" using get_u16le_in [of p data] assms by auto
  obtain z where z: "get_u32le data (p + 1) = Some z" using get_u32le_in [of "p + 1" data] assms by auto
  define P where "P r \<longleftrightarrow> (\<exists>d pc'. r = Some (d, pc') \<and> length d = length data \<and> drop (p + 5) d = drop (p + 5) data)"
    for r :: "(bytes \<times> u32) option"
  have st: "P (do { d \<leftarrow> set_u32le data (p + 1) v; Some (d, c) })" for v c
    using set_u32le_in [of "p + 1" data "p + 5" v] assms by (auto simp: P_def)
  have sk: "P (Some (data, pc))" by (simp add: P_def)
  have "P (ia64_slot encoding data p pc m)" unfolding ia64_slot_def t z Let_def using st sk
    by (simp only: Option.bind.simps if_split [of P] simp_thms)
  then show ?thesis by (simp add: P_def)
qed

lemma ia64_slots_ok:
  "p + 5 * n \<le> length data \<Longrightarrow>
   \<exists>d pc'. ia64_slots n encoding data p pc m = Some (d, p + 5 * n, pc') \<and> length d = length data \<and> drop (p + 5 * n) d = drop (p + 5 * n) data"
proof (induction n arbitrary: data p pc m)
  case (Suc n)
  obtain d1 pc1 where d1: "ia64_slot encoding data p pc m = Some (d1, pc1)" "length d1 = length data" "drop (p + 5) d1 = drop (p + 5) data"
    using ia64_slot_ok [of p data encoding pc m] Suc(2) by auto
  obtain d2 pc2 where d2: "ia64_slots n encoding d1 (p + 5) pc1 (m + 1) = Some (d2, p + 5 + 5 * n, pc2)" "length d2 = length d1"
      "drop (p + 5 + 5 * n) d2 = drop (p + 5 + 5 * n) d1"
    using Suc(1) [of "p + 5" d1 pc1 "m + 1"] Suc(2) d1(2) by auto
  have "drop (p + 5 + 5 * n) d1 = drop (p + 5 + 5 * n) data" by (rule drop_mono [OF d1(3)]) simp
  then show ?case using d1 d2 by (simp add: add.assoc)
qed simp

lemma ia64_loop_ok:
  assumes "16 dvd lim - p" "p \<le> lim" "lim \<le> length data"
  shows "\<exists>d. ia64_loop encoding data lim p pc = Some (d, lim) \<and> length d = length data \<and> drop lim d = drop lim data"
  using assms
proof (induction "lim - p" arbitrary: p data pc rule: less_induct)
  case less
  obtain r where r: "ia64_scan data lim p pc = Some r"
      "case r of Inl q \<Rightarrow> q = lim | Inr (q, pc', m) \<Rightarrow> p + 16 \<le> q \<and> q \<le> lim \<and> 16 dvd lim - q \<and> m \<in> {1, 2, 3}"
    using ia64_scan_ok [OF less(2-4)] by blast
  show ?case
  proof (cases r)
    case (Inl q)
    then show ?thesis using r by (subst ia64_loop.simps) simp
  next
    case (Inr qm)
    obtain q pc' m where qm: "qm = (q, pc', m)" by (metis prod_cases3)
    then have q: "p + 16 \<le> q" "q \<le> lim" "16 dvd lim - q" "m \<in> {1, 2, 3}" using r(2) Inr by auto
    have p: "q + m * 5 - 20 + 5 * (4 - m) = q" "\<not> q + m * 5 < 20" using q by auto
    then obtain d pc2 where d: "ia64_slots (4 - m) encoding data (q + m * 5 - 20) pc' m = Some (d, q, pc2)" "length d = length data"
        "drop q d = drop q data"
      using ia64_slots_ok [of "q + m * 5 - 20" "4 - m" data encoding pc' m] q less(4) by auto
    have "lim - q < lim - p" "lim \<le> length d" using q d less(4) by auto
    from less(1) [OF this(1) q(3,2) this(2)]
    obtain e where e: "ia64_loop encoding d lim q pc2 = Some (e, lim)" "length e = length d" "drop lim e = drop lim d" by blast
    have "drop lim d = drop lim data" by (rule drop_mono [OF d(3) q(2)])
    then show ?thesis using r(1) Inr qm p d e by (subst ia64_loop.simps) simp
  qed
qed

lemma ia64_conv_ok: "\<exists>d n. ia64_conv data pc encoding = Some (d, n) \<and> conv_ok 15 data (d, n)"
proof -
  have "length data mod 16 < 16" "length data div 16 * 16 + length data mod 16 = length data" by simp_all
  then have l: "length data div 16 * 16 \<le> length data" "length data \<le> length data div 16 * 16 + 15" by linarith+
  then show ?thesis using ia64_loop_ok [of "length data div 16 * 16" 0 data encoding "drop_bit 3 (pc - push_bit 4 1)"]
    by (auto simp: ia64_conv_def conv_ok_def)
qed

subsection \<open>The contract\<close>

lemma bcj_convert_ok:
  "\<exists>b' d n. bcj_convert target_x86_64 encoding data b = Some (b', d, n) \<and> b_kind b' = b_kind b \<and> b_pc b' = b_pc b + of_nat n \<and>
     length d = length data \<and> n \<le> length data \<and> length data \<le> n + max_carry (b_kind b) \<and> drop n d = drop n data"
proof (cases "b_kind b")
  case X86
  then show ?thesis using x86_conv_ok [of data "b_pc b" "b_state b" encoding]
    by (auto simp: bcj_convert_def conv_ok_def max_carry_def)
next
  case Ia64
  then show ?thesis using ia64_conv_ok [of data "b_pc b" encoding] by (auto simp: bcj_convert_def conv_ok_def max_carry_def)
next
  case ArmThumb
  then show ?thesis using armt_conv_ok [of target_x86_64 data "b_pc b" encoding] by (auto simp: bcj_convert_def conv_ok_def max_carry_def)
next
  case RiscV
  then show ?thesis using riscv_conv_ok [of encoding data "b_pc b"] by (auto simp: bcj_convert_def conv_ok_def max_carry_def)
qed (use conv_words_ok [of data] in \<open>auto simp: bcj_convert_def conv_ok_def max_carry_def ppc_conv_def arm_conv_def sparc_conv_def arm64_conv_def\<close>)

text \<open>C17: Every converter, in either direction and on either target, returns: no access is out of range and
  every scan ends. It keeps the length, converts all but at most \<open>max_carry\<close> bytes, leaves the rest
  untouched, and advances \<open>pc\<close> by what it converted.\<close>
theorem bcj_contract:
  "\<exists>b' d n. bcj_convert target_x86_64 encoding data b = Some (b', d, n) \<and> b_kind b' = b_kind b \<and> b_pc b' = b_pc b + of_nat n \<and>
     length d = length data \<and> n \<le> length data \<and> length data \<le> n + max_carry (b_kind b) \<and> drop n d = drop n data"
  by (rule bcj_convert_ok)

end
