(* ===== verification/XzFilter.thy ===== *)
theory XzFilter
  imports XzStream Vli Delta BcjSafe
begin

text \<open>
  \<open>src/src/xz/filter.rs\<close>: filter flags, the chains they may form, and the converters that undo a
  chain. A chain of delta and branch converters works in place on a buffer and holds back the short
  tail each converter could not convert yet. \<open>[u8; 4]\<close> is a list of length 4; \<open>None\<close> of an enclosing
  option is a panic (an index or a slice out of range).
\<close>

subsection \<open>Filter flags\<close>

definition FILTER_LZMA2 :: u64 where "FILTER_LZMA2 = 0x21"
definition FILTER_DELTA :: u64 where "FILTER_DELTA = 0x03"
definition MAX_FILTERS :: nat where "MAX_FILTERS = 4"
definition MAX_PROPS :: nat where "MAX_PROPS = 4"

record filter_flags =
  ff_id :: u64
  ff_props :: bytes
  ff_props_len :: nat

definition ff_prop_bytes :: "filter_flags \<Rightarrow> bytes option" where
  "ff_prop_bytes f = slice (ff_props f) 0 (ff_props_len f)"

definition filter_new :: "u64 \<Rightarrow> bytes \<Rightarrow> xz_error_kind + filter_flags" where
  "filter_new i props =
     (if MAX_PROPS < length props then Inl BadFilterChain
      else Inr \<lparr>ff_id = i, ff_props = props @ replicate (MAX_PROPS - length props) 0, ff_props_len = length props\<rparr>)"

definition want_props :: "u64 \<Rightarrow> u64 \<Rightarrow> xz_error_kind + nat" where
  "want_props i sz =
     (if i = FILTER_LZMA2 then Inr 1
      else if i = FILTER_DELTA then Inr 1
      else if from_filter_id i \<noteq> None then (if sz \<noteq> 0 \<and> sz \<noteq> 4 then Inl BadFilterChain else Inr (unat sz))
      else Inl UnsupportedFilter)"

definition filter_parse :: "bytes \<Rightarrow> nat \<Rightarrow> xz_error_kind + filter_flags \<times> nat" where
  "filter_parse buf pos =
     (case vli_decode_at buf pos of Inl e \<Rightarrow> Inl e
      | Inr (i, pos) \<Rightarrow>
     (case vli_decode_at buf pos of Inl e \<Rightarrow> Inl e
      | Inr (sz, pos) \<Rightarrow>
     (case want_props i sz of Inl e \<Rightarrow> Inl e
      | Inr want \<Rightarrow>
          if sz \<noteq> of_nat want then Inl BadFilterChain
          else if length buf < pos + want then Inl TruncatedInput
          else Inr (\<lparr>ff_id = i, ff_props = take want (drop pos buf) @ replicate (MAX_PROPS - want) 0, ff_props_len = want\<rparr>,
                    pos + want))))"

definition start_offset :: "filter_flags \<Rightarrow> u32" where
  "start_offset f =
     (if ff_props_len f = 4
      then u32_from_le_bytes (ff_props f ! 0) (ff_props f ! 1) (ff_props f ! 2) (ff_props f ! 3) else 0)"

subsection \<open>Chains\<close>

record filter_chain =
  fc_dict_prop :: u8
  fc_converters :: "filter_flags list"

primrec check_rest :: "filter_flags list \<Rightarrow> xz_error_kind option" where
  "check_rest [] = None"
| "check_rest (f # rest) =
     (if ff_id f = FILTER_LZMA2 then Some BadFilterChain
      else case from_filter_id (ff_id f) of
          Some kind \<Rightarrow> (if start_offset f mod alignment kind \<noteq> 0 then Some BadFilterChain else check_rest rest)
        | None \<Rightarrow> (if ff_id f \<noteq> FILTER_DELTA then Some UnsupportedFilter else check_rest rest))"

definition chain_validate :: "filter_flags list \<Rightarrow> xz_error_kind + filter_chain" where
  "chain_validate filters =
     (if filters = [] \<or> MAX_FILTERS < length filters then Inl BadFilterChain
      else let final = last filters; rest = butlast filters
        in if ff_id final \<noteq> FILTER_LZMA2 then Inl BadFilterChain
           else if ff_props final ! 0 AND 0xC0 \<noteq> 0 \<or> 40 < ff_props final ! 0 then Inl BadFilterChain
           else case check_rest rest of
               Some e \<Rightarrow> Inl e
             | None \<Rightarrow> Inr \<lparr>fc_dict_prop = ff_props final ! 0, fc_converters = rev rest\<rparr>)"

definition is_plain_lzma2 :: "filter_chain \<Rightarrow> bool" where
  "is_plain_lzma2 c \<longleftrightarrow> fc_converters c = []"

subsection \<open>Converters\<close>

datatype conv = ConvDelta delta | ConvBcj bcj

record stage =
  sg_conv :: conv
  sg_carry :: bytes

record converters =
  cv_stages :: "stage list"
  cv_scratch :: bytes

primrec build_stages :: "filter_flags list \<Rightarrow> xz_error_kind + stage list" where
  "build_stages [] = Inr []"
| "build_stages (f # fs) =
     (case (if ff_id f = FILTER_DELTA then map_sum id ConvDelta (delta_new (ff_props f ! 0))
            else case from_filter_id (ff_id f) of None \<Rightarrow> Inl UnsupportedFilter
              | Some kind \<Rightarrow> map_sum id ConvBcj (bcj_new kind (start_offset f))) of
        Inl e \<Rightarrow> Inl e
      | Inr c \<Rightarrow> (case build_stages fs of Inl e \<Rightarrow> Inl e | Inr ss \<Rightarrow> Inr (\<lparr>sg_conv = c, sg_carry = []\<rparr> # ss)))"

definition chain_build :: "filter_chain \<Rightarrow> xz_error_kind + converters" where
  "chain_build c = (case build_stages (fc_converters c) of Inl e \<Rightarrow> Inl e | Inr ss \<Rightarrow> Inr \<lparr>cv_stages = ss, cv_scratch = []\<rparr>)"

definition conv_max_carry :: "conv \<Rightarrow> nat" where
  "conv_max_carry c = (case c of ConvDelta _ \<Rightarrow> 0 | ConvBcj b \<Rightarrow> max_carry (b_kind b))"

definition converters_max_carry :: "converters \<Rightarrow> nat" where
  "converters_max_carry cv = sum_list (map (conv_max_carry \<circ> sg_conv) (cv_stages cv))"

definition carried_bytes :: "converters \<Rightarrow> nat" where
  "carried_bytes cv = sum_list (map (length \<circ> sg_carry) (cv_stages cv))"

text \<open>One converter over a slice: the converter, the slice and how much of it is done; \<open>x86\<close> selects
  the target's scan, as in \<open>Bcj\<close>.\<close>

definition conv_run :: "bool \<Rightarrow> bool \<Rightarrow> conv \<Rightarrow> bytes \<Rightarrow> (conv \<times> bytes \<times> nat) option" where
  "conv_run x86 encode c data =
     (case c of
        ConvDelta d \<Rightarrow> (let (d, out) = (if encode then delta_encode data d else delta_decode data d)
                        in Some (ConvDelta d, out, length data))
      | ConvBcj b \<Rightarrow> do {
          (b, out, n) \<leftarrow> (if encode then bcj_encode x86 data b else bcj_decode x86 data b);
          Some (ConvBcj b, out, n) })"

text \<open>\<open>apply_in_place\<close> and \<open>encode_in_place\<close>: the whole block through every stage.\<close>

primrec run_whole :: "bool \<Rightarrow> bool \<Rightarrow> stage list \<Rightarrow> bytes \<Rightarrow> (stage list \<times> bytes) option" where
  "run_whole x86 encode [] data = Some ([], data)"
| "run_whole x86 encode (s # ss) data = do {
     (c, data, _) \<leftarrow> conv_run x86 encode (sg_conv s) data;
     (ss, data) \<leftarrow> run_whole x86 encode ss data;
     Some (s\<lparr>sg_conv := c\<rparr> # ss, data) }"

definition apply_in_place :: "bool \<Rightarrow> converters \<Rightarrow> bytes \<Rightarrow> (converters \<times> bytes) option" where
  "apply_in_place x86 cv data = do {
     (ss, data) \<leftarrow> run_whole x86 False (cv_stages cv) data;
     Some (cv\<lparr>cv_stages := ss\<rparr>, data) }"

definition encode_in_place :: "bool \<Rightarrow> converters \<Rightarrow> bytes \<Rightarrow> (converters \<times> bytes) option" where
  "encode_in_place x86 cv data = do {
     (ss, data) \<leftarrow> run_whole x86 True (rev (cv_stages cv)) data;
     Some (cv\<lparr>cv_stages := rev ss\<rparr>, data) }"

text \<open>One stage over a buffer whose valid bytes are the \<open>len\<close> from \<open>start\<close>: it puts its tail in front of them and
  keeps what it cannot convert.\<close>

definition run_stage :: "bool \<Rightarrow> bool \<Rightarrow> bool \<Rightarrow> stage \<Rightarrow> nat \<Rightarrow> bytes \<Rightarrow> nat \<Rightarrow> (stage \<times> nat \<times> bytes \<times> nat) option" where
  "run_stage x86 flush encode s start buf len =
     (let carry = length (sg_carry s)
      in if start < carry then None
         else do {
           let start = start - carry;
           buf \<leftarrow> (if carry \<noteq> 0 then copy_into buf start (sg_carry s) else Some buf);
           let len = len + carry;
           data \<leftarrow> slice buf start (start + len);
           (c, data, n) \<leftarrow> conv_run x86 encode (sg_conv s) data;
           buf \<leftarrow> copy_into buf start data;
           let done = (case c of ConvDelta _ \<Rightarrow> len | ConvBcj _ \<Rightarrow> (if flush then len else n));
           tail \<leftarrow> slice buf (start + done) (start + len);
           Some (s\<lparr>sg_conv := c, sg_carry := tail\<rparr>, start, buf, done) })"

text \<open>The stages in the order they run.\<close>

primrec run_stages :: "bool \<Rightarrow> bool \<Rightarrow> bool \<Rightarrow> stage list \<Rightarrow> nat \<Rightarrow> bytes \<Rightarrow> nat \<Rightarrow> (stage list \<times> bytes \<times> nat) option" where
  "run_stages x86 flush encode [] start buf len = Some ([], buf, len)"
| "run_stages x86 flush encode (s # ss) start buf len = do {
     (s, start, buf, len) \<leftarrow> run_stage x86 flush encode s start buf len;
     (ss, buf, len) \<leftarrow> run_stages x86 flush encode ss start buf len;
     Some (s # ss, buf, len) }"

definition run_buffer :: "bool \<Rightarrow> converters \<Rightarrow> bytes \<Rightarrow> nat \<Rightarrow> bool \<Rightarrow> bool \<Rightarrow> (converters \<times> bytes \<times> nat) option" where
  "run_buffer x86 cv buf len flush encode = do {
     let order = (\<lambda>xs. if encode then rev xs else xs);
     (ss, buf, len) \<leftarrow> run_stages x86 flush encode (order (cv_stages cv)) (carried_bytes cv) buf len;
     Some (cv\<lparr>cv_stages := order ss\<rparr>, buf, len) }"

definition decode_buffer :: "bool \<Rightarrow> converters \<Rightarrow> bytes \<Rightarrow> nat \<Rightarrow> bool \<Rightarrow> (converters \<times> bytes \<times> nat) option" where
  "decode_buffer x86 cv data len flush = run_buffer x86 cv data len flush False"

definition converters_run :: "bool \<Rightarrow> converters \<Rightarrow> bytes \<Rightarrow> bytes \<Rightarrow> bool \<Rightarrow> bool \<Rightarrow> (converters \<times> bytes) option" where
  "converters_run x86 cv data out flush encode = do {
     let cur = cv_scratch cv;
     let room = length data + converters_max_carry cv;
     let cur = (if length cur < room then cur @ replicate (room - length cur) 0 else cur);
     let start = carried_bytes cv;
     cur \<leftarrow> copy_into cur start data;
     (cv, cur, done) \<leftarrow> run_buffer x86 (cv\<lparr>cv_scratch := []\<rparr>) cur (length data) flush encode;
     done_bytes \<leftarrow> slice cur 0 done;
     Some (cv\<lparr>cv_scratch := cur\<rparr>, out @ done_bytes) }"

definition cv_push :: "bool \<Rightarrow> converters \<Rightarrow> bytes \<Rightarrow> bytes \<Rightarrow> (converters \<times> bytes) option" where
  "cv_push x86 cv data out = converters_run x86 cv data out False False"

definition cv_finish :: "bool \<Rightarrow> converters \<Rightarrow> bytes \<Rightarrow> bytes \<Rightarrow> (converters \<times> bytes) option" where
  "cv_finish x86 cv data out = converters_run x86 cv data out True False"

definition cv_encode_push :: "bool \<Rightarrow> converters \<Rightarrow> bytes \<Rightarrow> bytes \<Rightarrow> (converters \<times> bytes) option" where
  "cv_encode_push x86 cv data out = converters_run x86 cv data out False True"

definition cv_encode_finish :: "bool \<Rightarrow> converters \<Rightarrow> bytes \<Rightarrow> bytes \<Rightarrow> (converters \<times> bytes) option" where
  "cv_encode_finish x86 cv data out = converters_run x86 cv data out True True"

end
