(* ===== verification/XzBlock.thy ===== *)
theory XzBlock
  imports XzFilter
begin

text \<open>
  \<open>src/src/xz/block.rs\<close>, the block header, with its writer in \<open>enc/xz_enc.rs\<close>. \<open>alloc_ok n\<close> says whether
  \<open>try_reserve(n)\<close> succeeds. The \<open>?\<close> operator on a \<open>Result\<close> is \<open>res_bind\<close>.
\<close>

definition res_bind :: "'e + 'a \<Rightarrow> ('a \<Rightarrow> 'e + 'b) \<Rightarrow> 'e + 'b" where
  "res_bind r f = (case r of Inl e \<Rightarrow> Inl e | Inr x \<Rightarrow> f x)"

lemma res_bind_simps [simp]: "res_bind (Inl e) f = Inl e" "res_bind (Inr x) f = f x"
  by (simp_all add: res_bind_def)

lemma res_bind_Inr [simp]: "res_bind r f = Inr y \<longleftrightarrow> (\<exists>x. r = Inr x \<and> f x = Inr y)"
  by (cases r) simp_all

definition next_multiple_of :: "nat \<Rightarrow> nat \<Rightarrow> nat" where
  "next_multiple_of n m = (n + m - 1) div m * m"

definition resize :: "'a list \<Rightarrow> nat \<Rightarrow> 'a \<Rightarrow> 'a list" where
  "resize xs n x = take n xs @ replicate (n - length xs) x"

subsection \<open>The parser\<close>

definition MAX_BLOCK_HEADER_SIZE :: nat where "MAX_BLOCK_HEADER_SIZE = 1024"
definition MIN_BLOCK_HEADER_SIZE :: nat where "MIN_BLOCK_HEADER_SIZE = 8"

record block_header =
  bh_header_size :: nat
  bh_compressed_size :: "u64 option"
  bh_uncompressed_size :: "u64 option"
  bh_chain :: filter_chain

definition header_size_from_first_byte :: "u8 \<Rightarrow> nat option" where
  "header_size_from_first_byte b = (if b = 0 then None else Some ((unat b + 1) * 4))"

definition compressed_field :: "bytes \<Rightarrow> u8 \<Rightarrow> nat \<Rightarrow> xz_error_kind + u64 option \<times> nat" where
  "compressed_field body flags pos =
     (if flags AND 0x40 \<noteq> 0
      then res_bind (vli_decode_at body pos) (\<lambda>(v, pos). if v = 0 then Inl BadBlockHeader else Inr (Some v, pos))
      else Inr (None, pos))"

definition uncompressed_field :: "bytes \<Rightarrow> u8 \<Rightarrow> nat \<Rightarrow> xz_error_kind + u64 option \<times> nat" where
  "uncompressed_field body flags pos =
     (if flags AND 0x80 \<noteq> 0
      then res_bind (vli_decode_at body pos) (\<lambda>(v, pos). Inr (Some v, pos))
      else Inr (None, pos))"

primrec filters_parse :: "nat \<Rightarrow> bytes \<Rightarrow> nat \<Rightarrow> xz_error_kind + filter_flags list \<times> nat" where
  "filters_parse 0 body pos = Inr ([], pos)"
| "filters_parse (Suc n) body pos =
     res_bind (filter_parse body pos) (\<lambda>(f, pos).
     res_bind (filters_parse n body pos) (\<lambda>(fs, pos). Inr (f # fs, pos)))"

definition stored_crc :: "bytes \<Rightarrow> u32" where
  "stored_crc buf = (let n = length buf in
     u32_from_le_bytes (buf ! (n - 4)) (buf ! (n - 3)) (buf ! (n - 2)) (buf ! (n - 1)))"

definition block_parse :: "crc \<Rightarrow> bytes \<Rightarrow> xz_error_kind + block_header" where
  "block_parse crc buf =
     (let n = length buf in
      if n < MIN_BLOCK_HEADER_SIZE \<or> MAX_BLOCK_HEADER_SIZE < n \<or> n mod 4 \<noteq> 0 then Inl BadBlockHeader
      else if header_size_from_first_byte (buf ! 0) \<noteq> Some n then Inl BadBlockHeader
      else
        let body = take (n - 4) buf in
        if crc body \<noteq> stored_crc buf then Inl HeaderCrc
        else
          let flags = body ! 1 in
          if flags AND 0x3C \<noteq> 0 then Inl BadBlockHeader
          else
            let num_filters = unat (flags AND 0x03) + 1 in
            res_bind (compressed_field body flags 2) (\<lambda>(compressed, pos).
            res_bind (uncompressed_field body flags pos) (\<lambda>(uncompressed, pos).
            res_bind (filters_parse num_filters body pos) (\<lambda>(filters, pos).
              if length body < pos then Inl BadBlockHeader
              else if list_ex (\<lambda>b. b \<noteq> 0) (drop pos body) then Inl BadPadding
              else res_bind (chain_validate filters) (\<lambda>chain.
                Inr \<lparr>bh_header_size = n, bh_compressed_size = compressed,
                     bh_uncompressed_size = uncompressed, bh_chain = chain\<rparr>)))))"

definition checked_add64 :: "u64 \<Rightarrow> u64 \<Rightarrow> u64 option" where
  "checked_add64 a b = (if unat a + unat b < 2 ^ 64 then Some (a + b) else None)"

definition block_unpadded_size :: "block_header \<Rightarrow> nat \<Rightarrow> u64 option" where
  "block_unpadded_size h check = do {
     c \<leftarrow> bh_compressed_size h;
     n \<leftarrow> checked_add64 (of_nat (bh_header_size h)) c;
     checked_add64 n (of_nat check) }"

subsection \<open>The writer\<close>

definition chain_for_props :: "(nat \<Rightarrow> bool) \<Rightarrow> filter_flags list \<Rightarrow> u8 \<Rightarrow> lzma_error + filter_chain" where
  "chain_for_props alloc_ok filters dict_prop =
     (if \<not> alloc_ok (length filters + 1) then Inl Alloc
      else let whole = filters @ [\<lparr>ff_id = FILTER_LZMA2, ff_props = [dict_prop, 0, 0, 0], ff_props_len = 1\<rparr>]
        in case chain_validate whole of Inl _ \<Rightarrow> Inl Param | Inr c \<Rightarrow> Inr c)"

primrec push_filters :: "filter_flags list \<Rightarrow> bytes \<Rightarrow> bytes option" where
  "push_filters [] h = Some h"
| "push_filters (f # fs) h = do {
     h \<leftarrow> vli_push (ff_id f) h;
     h \<leftarrow> vli_push (of_nat (ff_props_len f)) h;
     props \<leftarrow> ff_prop_bytes f;
     push_filters fs (h @ props) }"

definition push_sizes :: "(u64 \<times> u64) option \<Rightarrow> bytes \<Rightarrow> bytes option" where
  "push_sizes sizes h = (case sizes of None \<Rightarrow> Some h
     | Some (compressed, uncompressed) \<Rightarrow> do { h \<leftarrow> vli_push compressed h; vli_push uncompressed h })"

definition block_header_size :: "filter_flags list \<Rightarrow> (u64 \<times> u64) option \<Rightarrow> nat" where
  "block_header_size filters sizes =
     (let body = 2 + 3;
          body = (case sizes of None \<Rightarrow> body
            | Some (compressed, uncompressed) \<Rightarrow> body + (vli_encoded_len compressed + vli_encoded_len uncompressed));
          body = foldl (\<lambda>body f. body + (vli_encoded_len (ff_id f) + vli_encoded_len (of_nat (ff_props_len f)) + ff_props_len f))
            body filters
      in next_multiple_of body 4 + 4)"

definition write_block_header ::
    "(nat \<Rightarrow> bool) \<Rightarrow> crc \<Rightarrow> filter_flags list \<Rightarrow> u8 \<Rightarrow> (u64 \<times> u64) option \<Rightarrow> (lzma_error + bytes) option" where
  "write_block_header alloc_ok crc filters dict_prop sizes =
     (let flags = of_nat (length filters);
          flags = (if sizes = None then flags else flags OR (0x40 OR 0x80));
          size = block_header_size filters sizes
      in if MAX_BLOCK_HEADER_SIZE < size then Some (Inl Param)
         else if \<not> alloc_ok size then Some (Inl Alloc)
         else do {
           let h = [of_nat (size div 4 - 1), flags];
           h \<leftarrow> push_sizes sizes h;
           h \<leftarrow> push_filters filters h;
           h \<leftarrow> vli_push FILTER_LZMA2 h;
           h \<leftarrow> vli_push 1 h;
           let h = h @ [dict_prop];
           let h = resize h (size - 4) 0;
           Some (Inr (h @ le_bytes (crc h))) })"

definition pad_to_four :: "bytes \<Rightarrow> nat \<Rightarrow> bytes" where
  "pad_to_four out written = out @ replicate (next_multiple_of written 4 - written) 0"

subsection \<open>Filter flags as bytes\<close>

text \<open>A filter field the reader accepts: the property size its id asks for, and null bytes after the properties.\<close>

definition filter_wf :: "filter_flags \<Rightarrow> bool" where
  "filter_wf f \<longleftrightarrow> want_props (ff_id f) (of_nat (ff_props_len f)) = Inr (ff_props_len f) \<and> ff_id f \<le> VLI_MAX \<and>
     length (ff_props f) = 4 \<and> drop (ff_props_len f) (ff_props f) = replicate (4 - ff_props_len f) 0"

definition filter_bytes :: "filter_flags \<Rightarrow> bytes" where
  "filter_bytes f = vli_bytes (unat (ff_id f)) @ vli_bytes (ff_props_len f) @ take (ff_props_len f) (ff_props f)"

lemma want_props_le: "want_props i sz = Inr n \<Longrightarrow> n = 1 \<or> (n = 0 \<or> n = 4)"
  by (auto simp: want_props_def split: if_splits)

lemma filter_wf_len:
  assumes "filter_wf f"
  shows "ff_props_len f \<le> 4 \<and> unat (of_nat (ff_props_len f) :: u64) = ff_props_len f \<and> (of_nat (ff_props_len f) :: u64) \<le> VLI_MAX"
proof -
  have "ff_props_len f \<le> 4" using assms want_props_le by (fastforce simp: filter_wf_def)
  moreover from this have "unat (of_nat (ff_props_len f) :: u64) = ff_props_len f"
    by (intro unat_of_nat_small) simp
  ultimately show ?thesis by (simp add: VLI_MAX_nat)
qed

lemma push_filters_eq: "list_all filter_wf fs \<Longrightarrow> push_filters fs h = Some (h @ concat (map filter_bytes fs))"
proof (induction fs arbitrary: h)
  case (Cons f fs)
  then have wf: "filter_wf f" by simp
  note len = filter_wf_len [OF wf]
  have "ff_prop_bytes f = Some (take (ff_props_len f) (ff_props f))" using wf len by (simp add: ff_prop_bytes_def filter_wf_def)
  moreover have "ff_id f \<le> VLI_MAX" using wf by (simp add: filter_wf_def)
  ultimately show ?case using Cons len by (simp add: vli_push_eq filter_bytes_def)
qed simp

lemma filter_parse_bytes:
  assumes "filter_wf f"
  shows "filter_parse (pre @ filter_bytes f @ rest) (length pre) = Inr (f, length pre + length (filter_bytes f))"
proof -
  note len = filter_wf_len [OF assms]
  have i: "unat (ff_id f) < 2 ^ 63" using assms by (simp add: filter_wf_def VLI_MAX_nat)
  define p1 where "p1 = pre @ vli_bytes (unat (ff_id f))"
  define p2 where "p2 = p1 @ vli_bytes (ff_props_len f)"
  define props where "props = take (ff_props_len f) (ff_props f)"
  define buf where "buf = pre @ filter_bytes f @ rest"
  have b: "buf = pre @ vli_bytes (unat (ff_id f)) @ (vli_bytes (ff_props_len f) @ props @ rest)"
      "buf = p1 @ vli_bytes (ff_props_len f) @ (props @ rest)" "buf = p2 @ props @ rest"
    by (simp_all add: buf_def filter_bytes_def p1_def p2_def props_def)
  have d1: "vli_decode_at buf (length pre) = Inr (ff_id f, length p1)"
    by (subst b(1), subst vli_decode_at_push [OF i]) (simp add: p1_def)
  have d2: "vli_decode_at buf (length p1) = Inr (of_nat (ff_props_len f), length p2)"
    by (subst b(2), subst vli_decode_at_push) (use len in \<open>simp_all add: p2_def\<close>)
  have lp: "length props = ff_props_len f" using assms len by (simp add: props_def filter_wf_def)
  have w: "want_props (ff_id f) (of_nat (ff_props_len f)) = Inr (ff_props_len f)" using assms by (simp add: filter_wf_def)
  have t: "take (ff_props_len f) (drop (length p2) buf) = props" by (simp add: b(3) lp [symmetric])
  have r: "\<not> length buf < length p2 + ff_props_len f" by (simp add: b(3) lp)
  have f: "f = \<lparr>ff_id = ff_id f, ff_props = props @ replicate (MAX_PROPS - ff_props_len f) 0, ff_props_len = ff_props_len f\<rparr>"
    using assms append_take_drop_id [of "ff_props_len f" "ff_props f"] by (cases f) (simp add: filter_wf_def props_def MAX_PROPS_def)
  show ?thesis
    unfolding buf_def [symmetric] filter_parse_def d1 d2 sum.case prod.case w t
    using r f lp by (simp add: p2_def p1_def filter_bytes_def props_def [symmetric])
qed

lemma filters_parse_bytes:
  "list_all filter_wf fs \<Longrightarrow>
   filters_parse (length fs) (pre @ concat (map filter_bytes fs) @ rest) (length pre) =
     Inr (fs, length pre + length (concat (map filter_bytes fs)))"
proof (induction fs arbitrary: pre)
  case (Cons f fs)
  have "filter_parse (pre @ filter_bytes f @ (concat (map filter_bytes fs) @ rest)) (length pre) =
      Inr (f, length pre + length (filter_bytes f))"
    using Cons.prems by (intro filter_parse_bytes) simp
  moreover have "filters_parse (length fs) ((pre @ filter_bytes f) @ concat (map filter_bytes fs) @ rest) (length (pre @ filter_bytes f)) =
      Inr (fs, length (pre @ filter_bytes f) + length (concat (map filter_bytes fs)))"
    using Cons.prems by (intro Cons.IH) simp
  ultimately show ?case by (simp add: add.assoc)
qed simp

subsection \<open>What the writer writes the parser reads\<close>

lemma next_multiple_of_4: "n \<le> next_multiple_of n 4 \<and> next_multiple_of n 4 < n + 4 \<and> next_multiple_of n 4 mod 4 = 0"
  by (simp add: next_multiple_of_def) linarith

abbreviation lzma2_filter :: "u8 \<Rightarrow> filter_flags" where
  "lzma2_filter dict_prop \<equiv> \<lparr>ff_id = FILTER_LZMA2, ff_props = [dict_prop, 0, 0, 0], ff_props_len = 1\<rparr>"

lemma lzma2_filter_wf: "filter_wf (lzma2_filter d)"
proof -
  have "replicate 3 (0 :: u8) = [0, 0, 0]" by (simp add: numeral_3_eq_3)
  then show ?thesis by (simp add: filter_wf_def want_props_def VLI_MAX_def FILTER_LZMA2_def)
qed

lemma vli_bytes_1: "vli_bytes (Suc 0) = [1]"
  by (simp add: vli_bytes.simps)

lemma lzma2_filter_bytes: "filter_bytes (lzma2_filter d) = vli_bytes (unat FILTER_LZMA2) @ [1, d]"
  by (simp add: filter_bytes_def vli_bytes_1)

text \<open>The size fields of a header.\<close>

fun sizes_ok :: "(u64 \<times> u64) option \<Rightarrow> bool" where
  "sizes_ok None = True"
| "sizes_ok (Some (c, u)) = (c \<noteq> 0 \<and> c \<le> VLI_MAX \<and> u \<le> VLI_MAX)"

fun sizes_bytes :: "(u64 \<times> u64) option \<Rightarrow> bytes" where
  "sizes_bytes None = []"
| "sizes_bytes (Some (c, u)) = vli_bytes (unat c) @ vli_bytes (unat u)"

definition header_flags :: "filter_flags list \<Rightarrow> (u64 \<times> u64) option \<Rightarrow> u8" where
  "header_flags filters sizes = (let flags = of_nat (length filters) in if sizes = None then flags else flags OR (0x40 OR 0x80))"

lemma header_flags_bits:
  assumes "length filters \<le> 3"
  shows "header_flags filters sizes AND 0x3C = 0" "unat (header_flags filters sizes AND 0x03) = length filters"
    "header_flags filters sizes AND 0x40 \<noteq> 0 \<longleftrightarrow> sizes \<noteq> None" "header_flags filters sizes AND 0x80 \<noteq> 0 \<longleftrightarrow> sizes \<noteq> None"
proof -
  have "length filters \<in> {0, 1, 2, 3}" using assms by (simp only: insert_iff empty_iff) linarith
  then show "header_flags filters sizes AND 0x3C = 0" "unat (header_flags filters sizes AND 0x03) = length filters"
    "header_flags filters sizes AND 0x40 \<noteq> 0 \<longleftrightarrow> sizes \<noteq> None" "header_flags filters sizes AND 0x80 \<noteq> 0 \<longleftrightarrow> sizes \<noteq> None"
    by (cases sizes; auto simp: header_flags_def)+
qed

lemma push_sizes_eq: "sizes_ok sizes \<Longrightarrow> push_sizes sizes h = Some (h @ sizes_bytes sizes)"
  by (cases sizes rule: sizes_bytes.cases) (auto simp: push_sizes_def vli_push_eq)

lemma length_vli_push: "v \<le> VLI_MAX \<Longrightarrow> length (vli_bytes (unat v)) \<le> 9"
  by (rule length_vli_bytes_le_9) (simp add: VLI_MAX_nat)

definition header_body :: "filter_flags list \<Rightarrow> u8 \<Rightarrow> (u64 \<times> u64) option \<Rightarrow> bytes" where
  "header_body filters dict_prop sizes =
     sizes_bytes sizes @ concat (map filter_bytes (filters @ [lzma2_filter dict_prop]))"

lemma block_header_size_eq:
  assumes "list_all filter_wf filters"
  shows "block_header_size filters sizes = next_multiple_of (2 + length (header_body filters d sizes)) 4 + 4"
proof -
  have f: "foldl (\<lambda>body f. body + (vli_encoded_len (ff_id f) + vli_encoded_len (of_nat (ff_props_len f)) + ff_props_len f)) n fs =
      n + length (concat (map filter_bytes fs))" if "list_all filter_wf fs" for fs n
    using that
  proof (induction fs arbitrary: n)
    case (Cons f fs)
    then have "filter_wf f" by simp
    with filter_wf_len [OF this] have "vli_encoded_len (ff_id f) + vli_encoded_len (of_nat (ff_props_len f)) + ff_props_len f = length (filter_bytes f)"
      by (simp add: filter_bytes_def vli_encoded_len_eq filter_wf_def)
    then show ?case using Cons by simp
  qed simp
  have l: "length (filter_bytes (lzma2_filter d)) = 3" by (simp only: lzma2_filter_bytes) (simp add: FILTER_LZMA2_def vli_bytes.simps)
  have s: "(case sizes of None \<Rightarrow> 2 + 3 | Some (c, u) \<Rightarrow> 2 + 3 + (vli_encoded_len c + vli_encoded_len u)) = 5 + length (sizes_bytes sizes)"
    by (cases sizes rule: sizes_bytes.cases) (simp_all add: vli_encoded_len_eq)
  have "5 + length (sizes_bytes sizes) + length (concat (map filter_bytes filters)) = 2 + length (header_body filters d sizes)"
    unfolding header_body_def map_append concat_append length_append using l by simp
  then show ?thesis unfolding block_header_size_def Let_def f [OF assms] s by (rule arg_cong)
qed

lemma filter_bytes_le: "filter_wf f \<Longrightarrow> length (filter_bytes f) \<le> 22"
proof -
  assume w: "filter_wf f"
  note len = filter_wf_len [OF w]
  have "length (vli_bytes (unat (ff_id f))) \<le> 9" using w by (intro length_vli_push) (simp add: filter_wf_def)
  moreover have "length (vli_bytes (ff_props_len f)) \<le> 9" using len length_vli_push [of "of_nat (ff_props_len f)"] by simp
  ultimately show ?thesis using len unfolding filter_bytes_def length_append length_take by linarith
qed

lemma header_body_le:
  assumes "list_all filter_wf filters" "sizes_ok sizes" "length filters \<le> 3"
  shows "length (header_body filters d sizes) \<le> 106"
proof -
  have "length (concat (map filter_bytes fs)) \<le> 22 * length fs" if "list_all filter_wf fs" for fs
    using that by (induction fs) (auto dest!: filter_bytes_le)
  from this [of "filters @ [lzma2_filter d]"] assms(1,3) lzma2_filter_wf [of d]
  have "length (concat (map filter_bytes (filters @ [lzma2_filter d]))) \<le> 88" by simp
  moreover have "length (sizes_bytes sizes) \<le> 18"
    using assms(2) by (cases sizes rule: sizes_bytes.cases) (auto dest!: length_vli_push)
  ultimately show ?thesis unfolding header_body_def length_append by linarith
qed

definition header_block :: "crc \<Rightarrow> filter_flags list \<Rightarrow> u8 \<Rightarrow> (u64 \<times> u64) option \<Rightarrow> bytes" where
  "header_block crc filters d sizes =
     (let body = header_body filters d sizes; size = next_multiple_of (2 + length body) 4 + 4;
          h = [of_nat (size div 4 - 1), header_flags filters sizes] @ body @ replicate (size - 6 - length body) 0
      in h @ le_bytes (crc h))"

lemma write_block_header_eq:
  assumes "list_all filter_wf filters" "sizes_ok sizes" "length filters \<le> 3" "alloc_ok (block_header_size filters sizes)"
  shows "write_block_header alloc_ok crc filters d sizes = Some (Inr (header_block crc filters d sizes))"
proof -
  define body where "body = header_body filters d sizes"
  define size where "size = block_header_size filters sizes"
  have s: "size = next_multiple_of (2 + length body) 4 + 4" unfolding size_def body_def by (rule block_header_size_eq [OF assms(1)])
  have le: "length body \<le> 106" unfolding body_def by (rule header_body_le [OF assms(1-3)])
  have max: "\<not> MAX_BLOCK_HEADER_SIZE < size" using next_multiple_of_4 [of "2 + length body"] le by (simp add: s MAX_BLOCK_HEADER_SIZE_def)
  have v: "FILTER_LZMA2 \<le> VLI_MAX" "(1 :: u64) \<le> VLI_MAX" by (simp_all add: FILTER_LZMA2_def VLI_MAX_def)
  have b: "sizes_bytes sizes @ concat (map filter_bytes filters) @ vli_bytes (unat FILTER_LZMA2) @ [1, d] = body"
    unfolding body_def header_body_def map_append concat_append list.map concat.simps append_Nil2 lzma2_filter_bytes by simp
  have r: "resize ([x, y] @ body) (size - 4) 0 = [x, y] @ body @ replicate (size - 6 - length body) 0" for x y
    using next_multiple_of_4 [of "2 + length body"] by (simp add: resize_def s)
  define k where "k = (\<lambda>h. Some (Inr (resize h (size - 4) 0 @ le_bytes (crc (resize h (size - 4) 0)))) :: (lzma_error + bytes) option)"
  have p: "do { h \<leftarrow> push_sizes sizes [x, y]; h \<leftarrow> push_filters filters h; h \<leftarrow> vli_push FILTER_LZMA2 h; h \<leftarrow> vli_push 1 h;
      k (h @ [d]) } = k ([x, y] @ body)" for x y
    unfolding push_sizes_eq [OF assms(2)] bind.bind_lunit push_filters_eq [OF assms(1)] vli_push_eq [OF v(1)] vli_push_eq [OF v(2)] b [symmetric]
    by (simp add: vli_bytes_1)
  define h where "h = [of_nat (size div 4 - 1), header_flags filters sizes] @ body @ replicate (size - 6 - length body) 0"
  have hb: "header_block crc filters d sizes = h @ le_bytes (crc h)"
    unfolding header_block_def Let_def body_def [symmetric] s [symmetric] h_def ..
  have "write_block_header alloc_ok crc filters d sizes = do {
      h \<leftarrow> push_sizes sizes [of_nat (size div 4 - 1), header_flags filters sizes]; h \<leftarrow> push_filters filters h;
      h \<leftarrow> vli_push FILTER_LZMA2 h; h \<leftarrow> vli_push 1 h;
      Some (Inr (resize (h @ [d]) (size - 4) 0 @ le_bytes (crc (resize (h @ [d]) (size - 4) 0)))) }"
    using max assms(4) [folded size_def]
    unfolding write_block_header_def Let_def size_def [symmetric] header_flags_def [unfolded Let_def, symmetric] by simp
  also have "\<dots> = Some (Inr (h @ le_bytes (crc h)))"
    using p unfolding k_def r h_def by simp
  finally show ?thesis unfolding hb .
qed

lemma stored_crc_append: "stored_crc (h @ le_bytes w) = w"
proof -
  have "(h @ le_bytes w) ! (length (h @ le_bytes w) - k) = le_bytes w ! (4 - k)" if "k \<le> 4" for k
  proof -
    have "length (h @ le_bytes w) - k = length h + (4 - k)" using that by simp
    then show ?thesis by (simp only: nth_append_length_plus)
  qed
  from this [of 4] this [of 3] this [of 2] this [of 1] show ?thesis
    unfolding stored_crc_def Let_def using le_bytes_nth [of w] by simp
qed

lemma chain_validate_length: "chain_validate (filters @ [f]) = Inr c \<Longrightarrow> length filters \<le> 3"
  by (simp add: chain_validate_def MAX_FILTERS_def split: if_splits)

lemma sizes_fields:
  assumes "length filters \<le> 3" "sizes_ok sizes"
  shows "compressed_field (pre @ sizes_bytes sizes @ rest) (header_flags filters sizes) (length pre) =
      Inr (map_option fst sizes, length pre + length (case sizes of None \<Rightarrow> [] | Some (c, u) \<Rightarrow> vli_bytes (unat c)))"
    and "uncompressed_field (pre @ sizes_bytes sizes @ rest) (header_flags filters sizes)
        (length pre + length (case sizes of None \<Rightarrow> [] | Some (c, u) \<Rightarrow> vli_bytes (unat c))) =
      Inr (map_option snd sizes, length pre + length (sizes_bytes sizes))"
proof -
  note bits = header_flags_bits(3,4) [OF assms(1), of sizes]
  show "compressed_field (pre @ sizes_bytes sizes @ rest) (header_flags filters sizes) (length pre) =
      Inr (map_option fst sizes, length pre + length (case sizes of None \<Rightarrow> [] | Some (c, u) \<Rightarrow> vli_bytes (unat c)))"
  proof (cases sizes)
    case (Some p)
    then obtain c u where s: "sizes = Some (c, u)" by (cases p) auto
    then have c: "unat c < 2 ^ 63" "c \<noteq> 0" using assms(2) by (simp_all add: VLI_MAX_nat)
    have "vli_decode_at (pre @ sizes_bytes sizes @ rest) (length pre) = Inr (c, length pre + length (vli_bytes (unat c)))"
      using vli_decode_at_push [OF c(1), of pre "vli_bytes (unat u) @ rest"] by (simp add: s)
    then show ?thesis using bits c(2) by (simp add: compressed_field_def s)
  qed (use bits in \<open>simp add: compressed_field_def\<close>)
  show "uncompressed_field (pre @ sizes_bytes sizes @ rest) (header_flags filters sizes)
        (length pre + length (case sizes of None \<Rightarrow> [] | Some (c, u) \<Rightarrow> vli_bytes (unat c))) =
      Inr (map_option snd sizes, length pre + length (sizes_bytes sizes))"
  proof (cases sizes)
    case (Some p)
    then obtain c u where s: "sizes = Some (c, u)" by (cases p) auto
    then have u: "unat u < 2 ^ 63" using assms(2) by (simp add: VLI_MAX_nat)
    have "vli_decode_at (pre @ sizes_bytes sizes @ rest) (length pre + length (vli_bytes (unat c))) =
        Inr (u, length pre + length (sizes_bytes sizes))"
      using vli_decode_at_push [OF u, of "pre @ vli_bytes (unat c)" rest] by (simp add: s)
    then show ?thesis using bits by (simp add: uncompressed_field_def s)
  qed (use bits in \<open>simp add: uncompressed_field_def\<close>)
qed

lemma length_header_block:
  assumes "list_all filter_wf filters" "sizes_ok sizes" "length filters \<le> 3"
  shows "length (header_block crc filters d sizes) = block_header_size filters sizes"
    and "block_header_size filters sizes \<le> 112" "block_header_size filters sizes mod 4 = 0" "12 \<le> block_header_size filters sizes"
proof -
  define body where "body = header_body filters d sizes"
  have s: "block_header_size filters sizes = next_multiple_of (2 + length body) 4 + 4"
    unfolding body_def by (rule block_header_size_eq [OF assms(1)])
  have le: "length body \<le> 106" unfolding body_def by (rule header_body_le [OF assms(1-3)])
  have "length (filter_bytes (lzma2_filter d)) = 3" by (simp only: lzma2_filter_bytes) (simp add: FILTER_LZMA2_def vli_bytes.simps)
  then have ge: "3 \<le> length body" unfolding body_def header_body_def map_append concat_append length_append by simp
  show "length (header_block crc filters d sizes) = block_header_size filters sizes"
    using next_multiple_of_4 [of "2 + length body"] unfolding s header_block_def Let_def body_def [symmetric] by simp
  show "block_header_size filters sizes \<le> 112" "block_header_size filters sizes mod 4 = 0" "12 \<le> block_header_size filters sizes"
    using next_multiple_of_4 [of "2 + length body"] le ge unfolding s by presburger+
qed

lemma header_block_parse:
  assumes wf: "list_all filter_wf filters" "sizes_ok sizes" and c: "chain_validate (filters @ [lzma2_filter d]) = Inr chain"
  shows "block_parse crc (header_block crc filters d sizes) =
    Inr \<lparr>bh_header_size = block_header_size filters sizes, bh_compressed_size = map_option fst sizes,
         bh_uncompressed_size = map_option snd sizes, bh_chain = chain\<rparr>"
    and "header_size_from_first_byte (header_block crc filters d sizes ! 0) = Some (block_header_size filters sizes)"
proof -
  have l3: "length filters \<le> 3" using chain_validate_length [OF c] .
  define size where "size = block_header_size filters sizes"
  define body where "body = header_body filters d sizes"
  define pad where "pad = replicate (size - 6 - length body) (0 :: u8)"
  define pre where "pre = [of_nat (size div 4 - 1), header_flags filters sizes]"
  define h where "h = pre @ body @ pad"
  have s: "size = next_multiple_of (2 + length body) 4 + 4"
    unfolding size_def body_def by (rule block_header_size_eq [OF wf(1)])
  note sz = length_header_block [OF wf l3, folded size_def]
  have hb: "header_block crc filters d sizes = h @ le_bytes (crc h)"
    unfolding header_block_def Let_def body_def [symmetric] s [symmetric] h_def pre_def pad_def by simp
  have lh: "length h = size - 4" using sz(1) [of crc d] by (simp add: hb)
  have t: "take (size - 4) (header_block crc filters d sizes) = h" using lh by (simp add: hb)
  have "unat (of_nat (size div 4 - 1) :: u8) = size div 4 - 1" using sz(2) by (intro unat_of_nat_small) simp
  moreover have "size div 4 - 1 \<noteq> 0" "(size div 4 - 1 + 1) * 4 = size" using sz(2-4) by presburger+
  ultimately have fb: "header_size_from_first_byte (of_nat (size div 4 - 1)) = Some size"
    unfolding header_size_from_first_byte_def unat_eq_0 [symmetric] by simp
  have h01: "header_block crc filters d sizes ! 0 = of_nat (size div 4 - 1)" "h ! 1 = header_flags filters sizes"
    by (simp_all add: hb h_def pre_def)
  then show "header_size_from_first_byte (header_block crc filters d sizes ! 0) = Some (block_header_size filters sizes)"
    using fb by (simp add: size_def)
  have st: "stored_crc (header_block crc filters d sizes) = crc h" by (simp add: hb stored_crc_append)
  define fb where "fb = concat (map filter_bytes (filters @ [lzma2_filter d]))"
  have hs: "h = pre @ sizes_bytes sizes @ (fb @ pad)" "h = (pre @ sizes_bytes sizes) @ fb @ pad"
    by (simp_all add: h_def body_def header_body_def fb_def)
  have lp: "length pre = 2" by (simp add: pre_def)
  define p1 where "p1 = 2 + length (case sizes of None \<Rightarrow> [] | Some (c, u) \<Rightarrow> vli_bytes (unat c))"
  have f1: "compressed_field h (header_flags filters sizes) 2 = Inr (map_option fst sizes, p1)"
    using sizes_fields(1) [OF l3 wf(2), of pre "fb @ pad"] unfolding hs(1) p1_def lp .
  have f2: "uncompressed_field h (header_flags filters sizes) p1 = Inr (map_option snd sizes, length (pre @ sizes_bytes sizes))"
    using sizes_fields(2) [OF l3 wf(2), of pre "fb @ pad"] unfolding hs(1) p1_def length_append lp .
  have "list_all filter_wf (filters @ [lzma2_filter d])" using wf(1) lzma2_filter_wf by simp
  from filters_parse_bytes [OF this, of "pre @ sizes_bytes sizes" pad]
  have f3: "filters_parse (length filters + 1) h (length (pre @ sizes_bytes sizes)) =
      Inr (filters @ [lzma2_filter d], length (pre @ sizes_bytes sizes @ fb))"
    unfolding fb_def [symmetric] hs(2) [symmetric] length_append by (simp only: add.assoc length_append_singleton list.size) simp
  have d: "drop (length (pre @ sizes_bytes sizes @ fb)) h = pad" "\<not> length h < length (pre @ sizes_bytes sizes @ fb)" by (simp_all add: hs)
  have p0: "\<not> list_ex (\<lambda>b. b \<noteq> 0) pad" by (simp add: pad_def list_ex_iff)
  have sz1: "\<not> (size < MIN_BLOCK_HEADER_SIZE \<or> MAX_BLOCK_HEADER_SIZE < size \<or> size mod 4 \<noteq> 0)"
    using sz by (simp add: MIN_BLOCK_HEADER_SIZE_def MAX_BLOCK_HEADER_SIZE_def)
  show "block_parse crc (header_block crc filters d sizes) =
    Inr \<lparr>bh_header_size = block_header_size filters sizes, bh_compressed_size = map_option fst sizes,
         bh_uncompressed_size = map_option snd sizes, bh_chain = chain\<rparr>"
    unfolding block_parse_def Let_def sz(1) h01 t st header_flags_bits(2) [OF l3]
    using sz1 sz(1) \<open>header_size_from_first_byte (of_nat (size div 4 - 1)) = Some size\<close> header_flags_bits(1) [OF l3, of sizes] d p0
    by (simp only: f1 f2 f3 res_bind_simps prod.case if_False simp_thms c size_def)
qed

end
