(* ===== verification/XzIndex.thy ===== *)
theory XzIndex
  imports XzBlock
begin

text \<open>
  \<open>src/src/xz/index.rs\<close> up to the reads of a file: the index and its totals, the running fold a streaming
  reader compares with it, and the writer of the index in \<open>enc/xz_enc.rs\<close>. The writer's output is
  proved to be exactly what the parser accepts.
\<close>

subsection \<open>Records\<close>

definition MAX_INDEX_SIZE :: u64 where "MAX_INDEX_SIZE = push_bit 34 1"
definition MIN_RECORD_BYTES :: nat where "MIN_RECORD_BYTES = 2"

record xz_record =
  xr_unpadded_size :: u64
  xr_uncompressed_size :: u64

definition padded_size :: "xz_record \<Rightarrow> u64 option" where
  "padded_size r = do { n \<leftarrow> checked_add64 (xr_unpadded_size r) 3; Some (n AND NOT 3) }"

record block_entry =
  be_file_offset :: u64
  be_uncompressed_offset :: u64
  be_record :: xz_record

subsection \<open>The running fold\<close>

text \<open>The digest is what was fed to the CRC-64; \<open>crc64\<close> is its value. A failing push leaves the fold as it
  had become by then.\<close>

record index_fold =
  if_count :: u64
  if_blocks_size :: u64
  if_uncompressed :: u64
  if_digest :: bytes

definition fold_default :: index_fold where
  "fold_default = \<lparr>if_count = 0, if_blocks_size = 0, if_uncompressed = 0, if_digest = []\<rparr>"

definition fold_push :: "u64 \<Rightarrow> u64 \<Rightarrow> index_fold \<Rightarrow> index_fold \<times> (xz_error_kind + unit)" where
  "fold_push unpadded uncompressed f =
     (let f = f\<lparr>if_count := if_count f + 1\<rparr> in
      case checked_add64 unpadded 3 of None \<Rightarrow> (f, Inl SizeMismatch)
      | Some n \<Rightarrow>
     (case checked_add64 (if_blocks_size f) (n AND NOT 3) of None \<Rightarrow> (f, Inl SizeMismatch)
      | Some blocks \<Rightarrow>
        let f = f\<lparr>if_blocks_size := blocks\<rparr> in
     (case checked_add64 (if_uncompressed f) uncompressed of None \<Rightarrow> (f, Inl SizeMismatch)
      | Some u \<Rightarrow>
        let f = f\<lparr>if_uncompressed := u\<rparr>;
            f = f\<lparr>if_digest := if_digest f @ u64_to_le_bytes unpadded\<rparr>;
            f = f\<lparr>if_digest := if_digest f @ u64_to_le_bytes uncompressed\<rparr>
        in (f, Inr ()))))"

definition fold_finish :: "(bytes \<Rightarrow> u64) \<Rightarrow> index_fold \<Rightarrow> index_fold \<times> (u64 \<times> u64 \<times> u64 \<times> u64)" where
  "fold_finish crc64 f =
     (let digest = crc64 (if_digest f); f = f\<lparr>if_digest := []\<rparr>
      in (f, (if_count f, if_blocks_size f, if_uncompressed f, digest)))"

subsection \<open>The parser\<close>

record xz_index =
  xi_records :: "xz_record list"
  xi_index_size :: u64

primrec records_parse :: "nat \<Rightarrow> bytes \<Rightarrow> nat \<Rightarrow> u64 \<Rightarrow> xz_record list \<Rightarrow> xz_error_kind + xz_record list \<times> nat" where
  "records_parse 0 body pos total_unpadded records = Inr (records, pos)"
| "records_parse (Suc n) body pos total_unpadded records =
     res_bind (vli_decode_at body pos) (\<lambda>(unpadded, pos).
     res_bind (vli_decode_at body pos) (\<lambda>(uncompressed, pos).
       if unpadded < 5 then Inl IndexMismatch
       else let rec = \<lparr>xr_unpadded_size = unpadded, xr_uncompressed_size = uncompressed\<rparr>
         in case padded_size rec of None \<Rightarrow> Inl IndexMismatch
           | Some p \<Rightarrow> (case checked_add64 total_unpadded p of None \<Rightarrow> Inl IndexMismatch
             | Some total_unpadded \<Rightarrow> records_parse n body pos total_unpadded (records @ [rec]))))"

text \<open>What follows the count: the records and the padding.\<close>

definition index_rest :: "(nat \<Rightarrow> bool) \<Rightarrow> bytes \<Rightarrow> u64 \<Rightarrow> nat \<Rightarrow> xz_error_kind + xz_record list" where
  "index_rest alloc_ok body count pos =
     (let room = (length body - pos) div MIN_RECORD_BYTES in
      if room < unat count then Inl IndexMismatch
      else if \<not> alloc_ok (unat count) then Inl IndexMismatch
      else res_bind (records_parse (unat count) body pos 0 []) (\<lambda>(records, pos).
        if length body < pos then Inl IndexMismatch
        else let pad = drop pos body in
          if 3 < length pad \<or> list_ex (\<lambda>b. b \<noteq> 0) pad then Inl IndexMismatch else Inr records))"

definition index_parse :: "(nat \<Rightarrow> bool) \<Rightarrow> crc \<Rightarrow> bytes \<Rightarrow> xz_error_kind + xz_index" where
  "index_parse alloc_ok crc buf =
     (let n = length buf in
      if n < 8 \<or> n mod 4 \<noteq> 0 \<or> unat MAX_INDEX_SIZE < n then Inl IndexMismatch
      else
        let body = take (n - 4) buf in
        if crc body \<noteq> stored_crc buf then Inl HeaderCrc
        else if body ! 0 \<noteq> 0x00 then Inl IndexMismatch
        else res_bind (vli_decode_at body 1) (\<lambda>(count, pos).
          res_bind (index_rest alloc_ok body count pos) (\<lambda>records.
            Inr \<lparr>xi_records = records, xi_index_size = of_nat n\<rparr>)))"

definition xi_block_count :: "xz_index \<Rightarrow> nat" where
  "xi_block_count xi = length (xi_records xi)"

primrec fold_sizes :: "(xz_record \<Rightarrow> u64 option) \<Rightarrow> xz_record list \<Rightarrow> u64 \<Rightarrow> u64 option" where
  "fold_sizes sz [] a = Some a"
| "fold_sizes sz (r # rs) a = do { n \<leftarrow> sz r; a \<leftarrow> checked_add64 a n; fold_sizes sz rs a }"

definition xi_uncompressed_size :: "xz_index \<Rightarrow> u64 option" where
  "xi_uncompressed_size xi = fold_sizes (Some \<circ> xr_uncompressed_size) (xi_records xi) 0"

definition xi_blocks_size :: "xz_index \<Rightarrow> u64 option" where
  "xi_blocks_size xi = fold_sizes padded_size (xi_records xi) 0"

primrec blocks_loop :: "xz_record list \<Rightarrow> u64 \<Rightarrow> u64 \<Rightarrow> block_entry list option" where
  "blocks_loop [] file_offset uncompressed_offset = Some []"
| "blocks_loop (r # rs) file_offset uncompressed_offset = do {
     p \<leftarrow> padded_size r;
     f \<leftarrow> checked_add64 file_offset p;
     u \<leftarrow> checked_add64 uncompressed_offset (xr_uncompressed_size r);
     out \<leftarrow> blocks_loop rs f u;
     Some (\<lparr>be_file_offset = file_offset, be_uncompressed_offset = uncompressed_offset, be_record = r\<rparr> # out) }"

definition xi_blocks :: "xz_index \<Rightarrow> u64 \<Rightarrow> block_entry list option" where
  "xi_blocks xi stream_offset = do {
     file_offset \<leftarrow> checked_add64 stream_offset (of_nat STREAM_HEADER_SIZE);
     blocks_loop (xi_records xi) file_offset 0 }"

definition xi_largest_block :: "xz_index \<Rightarrow> u64" where
  "xi_largest_block xi = foldl max 0 (map xr_uncompressed_size (xi_records xi))"

subsection \<open>The writer\<close>

primrec push_records :: "(u64 \<times> u64) list \<Rightarrow> bytes \<Rightarrow> bytes option" where
  "push_records [] out = Some out"
| "push_records (r # rs) out = do { out \<leftarrow> vli_push (fst r) out; out \<leftarrow> vli_push (snd r) out; push_records rs out }"

definition write_index :: "crc \<Rightarrow> (u64 \<times> u64) list \<Rightarrow> bytes \<Rightarrow> bytes option" where
  "write_index crc records out = do {
     let start = length out;
     let out = out @ [0x00];
     out \<leftarrow> vli_push (of_nat (length records)) out;
     out \<leftarrow> push_records records out;
     let body = length out - start;
     let out = pad_to_four out body;
     Some (out @ le_bytes (crc (drop start out))) }"

definition index_size :: "(u64 \<times> u64) list \<Rightarrow> u64" where
  "index_size records =
     (let n = 1 + vli_encoded_len (of_nat (length records));
          n = foldl (\<lambda>n r. n + (vli_encoded_len (fst r) + vli_encoded_len (snd r))) n records
      in of_nat (next_multiple_of n 4 + 4))"

subsection \<open>Sizes\<close>

text \<open>The size of a block in the file, on \<open>nat\<close>.\<close>

definition padded :: "u64 \<Rightarrow> nat" where
  "padded n = (unat n + 3) div 4 * 4"

lemma checked_add64_Some: "checked_add64 a b = Some c \<longleftrightarrow> unat a + unat b < 2 ^ 64 \<and> c = a + b"
  by (auto simp: checked_add64_def)

lemma unat_checked_add64: "checked_add64 a b = Some c \<Longrightarrow> unat c = unat a + unat b"
  by (auto simp: checked_add64_def unat_word_ariths split: if_splits)

lemma unat64_lt: "unat (n :: u64) < 2 ^ 64"
  using unsigned_less [of n] by simp

lemma checked_add64_iff: "checked_add64 a b = Some c \<longleftrightarrow> unat c = unat a + unat b"
proof
  assume c: "unat c = unat a + unat b"
  have lt: "unat a + unat b < 2 ^ 64" unfolding c [symmetric] by (rule unat64_lt)
  then have "unat (a + b) = unat a + unat b" by (simp add: unat_word_ariths)
  then have "a + b = c" using c by (intro word_eq_unatI) simp
  then show "checked_add64 a b = Some c" using lt by (simp add: checked_add64_def)
qed (rule unat_checked_add64)

lemma unat_and_not_3: "unat ((n :: u64) AND NOT 3) = unat n div 4 * 4"
proof -
  have m: "(NOT 3 :: u64) = NOT (mask 2)" by (simp add: mask_eq_exp_minus_1)
  have [simp]: "2 \<le> k \<Longrightarrow> Suc (Suc (k - 2)) = k" for k :: nat by arith
  have "n AND NOT 3 = push_bit 2 (drop_bit 2 n)"
    unfolding m by (rule bit_word_eqI) (auto simp: bit_simps dest: bit_imp_le_length)
  moreover have "unat n div 2 ^ 2 * 2 ^ 2 < 2 ^ LENGTH(64)"
    by (rule le_less_trans [OF div_times_less_eq_dividend]) (rule unsigned_less)
  then have "unat (push_bit 2 (drop_bit 2 n)) = unat n div 2 ^ 2 * 2 ^ 2"
    by (subst unat_push_bit) (simp_all only: unat_drop_bit)
  ultimately show ?thesis by simp
qed

lemma padded_size_iff: "padded_size r = Some p \<longleftrightarrow> unat p = padded (xr_unpadded_size r) \<and> unat (xr_unpadded_size r) + 3 < 2 ^ 64"
proof
  assume "padded_size r = Some p"
  then obtain n where n: "checked_add64 (xr_unpadded_size r) 3 = Some n" "p = n AND NOT 3"
    unfolding padded_size_def by (cases "checked_add64 (xr_unpadded_size r) 3") auto
  then show "unat p = padded (xr_unpadded_size r) \<and> unat (xr_unpadded_size r) + 3 < 2 ^ 64"
    using unat64_lt [of n] unat_checked_add64 [OF n(1)] unfolding n(2) unat_and_not_3 padded_def by simp
next
  assume a: "unat p = padded (xr_unpadded_size r) \<and> unat (xr_unpadded_size r) + 3 < 2 ^ 64"
  then have c: "checked_add64 (xr_unpadded_size r) 3 = Some (xr_unpadded_size r + 3)" by (simp add: checked_add64_def)
  have "(xr_unpadded_size r + 3) AND NOT 3 = p"
    using unat_checked_add64 [OF c] a by (intro word_eq_unatI) (simp only: unat_and_not_3 padded_def, simp)
  then show "padded_size r = Some p" using c by (simp add: padded_size_def)
qed

definition nat_blocks :: "xz_record list \<Rightarrow> nat" where
  "nat_blocks rs = (\<Sum>r\<leftarrow>rs. padded (xr_unpadded_size r))"

lemma padded_ge: "unat n \<le> padded n" "padded n < unat n + 4" "padded n mod 4 = 0"
  unfolding padded_def by presburger+

subsection \<open>The index as bytes\<close>

definition record_of :: "u64 \<times> u64 \<Rightarrow> xz_record" where
  "record_of r = \<lparr>xr_unpadded_size = fst r, xr_uncompressed_size = snd r\<rparr>"

definition record_bytes :: "u64 \<times> u64 \<Rightarrow> bytes" where
  "record_bytes r = vli_bytes (unat (fst r)) @ vli_bytes (unat (snd r))"

definition record_ok :: "u64 \<times> u64 \<Rightarrow> bool" where
  "record_ok r \<longleftrightarrow> 5 \<le> fst r \<and> fst r \<le> VLI_MAX \<and> snd r \<le> VLI_MAX"

definition index_body :: "(u64 \<times> u64) list \<Rightarrow> bytes" where
  "index_body records = [0] @ vli_bytes (length records) @ concat (map record_bytes records)"

definition index_bytes :: "crc \<Rightarrow> (u64 \<times> u64) list \<Rightarrow> bytes" where
  "index_bytes crc records =
     (let h = pad_to_four (index_body records) (length (index_body records)) in h @ le_bytes (crc h))"

abbreviation pair_blocks :: "(u64 \<times> u64) list \<Rightarrow> nat" where
  "pair_blocks rs \<equiv> \<Sum>r\<leftarrow>rs. padded (fst r)"

lemma push_records_eq:
  "list_all record_ok rs \<Longrightarrow> push_records rs out = Some (out @ concat (map record_bytes rs))"
  by (induction rs arbitrary: out) (auto simp: record_ok_def vli_push_eq record_bytes_def)

lemma vli_push_length: "length rs < 2 ^ 63 \<Longrightarrow> vli_push (of_nat (length rs)) out = Some (out @ vli_bytes (length rs))"
  by (subst vli_push_eq) (simp_all add: VLI_MAX_nat unat_of_nat_small)

lemma pad_to_four_append: "pad_to_four (xs @ ys) n = xs @ pad_to_four ys n"
  by (simp add: pad_to_four_def)

lemma write_index_eq:
  assumes "list_all record_ok rs" "length rs < 2 ^ 63"
  shows "write_index crc rs out = Some (out @ index_bytes crc rs)"
proof -
  have "vli_push (of_nat (length rs)) (out @ [0]) = Some (out @ [0] @ vli_bytes (length rs))"
    by (simp only: vli_push_length [OF assms(2)] append_assoc)
  moreover have "push_records rs (out @ [0] @ vli_bytes (length rs)) = Some (out @ index_body rs)"
    by (simp only: push_records_eq [OF assms(1)] index_body_def append_assoc)
  ultimately show ?thesis
    unfolding write_index_def Let_def by (simp add: pad_to_four_append index_bytes_def Let_def)
qed

lemma records_parse_bytes:
  assumes "list_all record_ok rs" "unat total0 + pair_blocks rs < 2 ^ 64"
  shows "records_parse (length rs) (pre @ concat (map record_bytes rs) @ rest) (length pre) total0 acc =
    Inr (acc @ map record_of rs, length pre + length (concat (map record_bytes rs)))"
  using assms
proof (induction rs arbitrary: pre total0 acc)
  case (Cons r rs)
  obtain n u where r: "r = (n, u)" by (cases r)
  then have ok: "unat n < 2 ^ 63" "unat u < 2 ^ 63" "\<not> n < 5" using Cons.prems(1) by (auto simp: record_ok_def VLI_MAX_nat)
  define tl where "tl = concat (map record_bytes rs) @ rest"
  define p1 where "p1 = pre @ vli_bytes (unat n)"
  define p2 where "p2 = p1 @ vli_bytes (unat u)"
  define buf where "buf = pre @ concat (map record_bytes (r # rs)) @ rest"
  have b: "buf = pre @ vli_bytes (unat n) @ (vli_bytes (unat u) @ tl)" "buf = p1 @ vli_bytes (unat u) @ tl" "buf = p2 @ tl"
    by (simp_all add: buf_def p1_def p2_def tl_def r record_bytes_def)
  have d1: "vli_decode_at buf (length pre) = Inr (n, length p1)"
    by (subst b(1), subst vli_decode_at_push [OF ok(1)]) (simp add: p1_def)
  have d2: "vli_decode_at buf (length p1) = Inr (u, length p2)"
    by (subst b(2), subst vli_decode_at_push [OF ok(2)]) (simp add: p2_def)
  obtain p where p: "padded_size (record_of r) = Some p" "unat p = padded n"
  proof -
    have "padded n < 2 ^ 64" using Cons.prems(2) by (simp add: r)
    then have "unat (of_nat (padded n) :: u64) = padded n" by (intro unat_of_nat_small) simp
    moreover have "unat n + 3 < 2 ^ 64" using ok(1) by simp
    ultimately show ?thesis using that [of "of_nat (padded n)"] by (simp add: padded_size_iff record_of_def r)
  qed
  obtain t where t: "checked_add64 total0 p = Some t" "unat t = unat total0 + padded n"
    using Cons.prems(2) p(2) by (auto simp: r checked_add64_def unat_word_ariths)
  have "records_parse (length rs) (p2 @ concat (map record_bytes rs) @ rest) (length p2) t (acc @ [record_of r]) =
      Inr ((acc @ [record_of r]) @ map record_of rs, length p2 + length (concat (map record_bytes rs)))"
    using Cons.prems t(2) by (intro Cons.IH) (simp_all add: r)
  moreover have "records_parse (length (r # rs)) buf (length pre) total0 acc = records_parse (length rs) buf (length p2) t (acc @ [record_of r])"
    using d1 d2 p(1) t(1) ok(3) by (simp add: record_of_def r)
  moreover have "buf = p2 @ concat (map record_bytes rs) @ rest" by (simp add: b(3) tl_def)
  moreover have "length p2 = length pre + length (record_bytes r)" by (simp add: p2_def p1_def r record_bytes_def)
  ultimately show ?case unfolding buf_def [symmetric] by (simp del: records_parse.simps)
qed simp

lemma record_bytes_ge: "2 \<le> length (record_bytes r)"
  using length_vli_bytes_pos [of "unat (fst r)"] length_vli_bytes_pos [of "unat (snd r)"]
  unfolding record_bytes_def length_append by linarith

lemma records_bytes_ge: "2 * length rs \<le> length (concat (map record_bytes rs))"
proof (induction rs)
  case (Cons r rs)
  then show ?case using record_bytes_ge [of r] by simp
qed simp

lemma index_bytes_length:
  "length (index_bytes crc rs) = next_multiple_of (length (index_body rs)) 4 + 4"
  "2 \<le> length (index_body rs)" "length rs < length (index_body rs)"
proof -
  have "length (index_body rs) = 1 + length (vli_bytes (length rs)) + length (concat (map record_bytes rs))"
    by (simp add: index_body_def)
  then show "2 \<le> length (index_body rs)" "length rs < length (index_body rs)"
    using records_bytes_ge [of rs] length_vli_bytes_pos [of "length rs"] by linarith+
  show "length (index_bytes crc rs) = next_multiple_of (length (index_body rs)) 4 + 4"
    using next_multiple_of_4 [of "length (index_body rs)"] by (simp add: index_bytes_def pad_to_four_def Let_def)
qed

lemma index_size_eq:
  assumes "length rs < 2 ^ 63"
  shows "index_size rs = of_nat (length (index_bytes crc rs))"
proof -
  have f: "foldl (\<lambda>n r. n + (vli_encoded_len (fst r) + vli_encoded_len (snd r))) n rs = n + length (concat (map record_bytes rs))" for n
    by (induction rs arbitrary: n) (simp_all add: record_bytes_def vli_encoded_len_eq)
  have "1 + vli_encoded_len (of_nat (length rs)) + length (concat (map record_bytes rs)) = length (index_body rs)"
    unfolding vli_encoded_len_eq using assms by (simp add: unat_of_nat_small index_body_def)
  then show ?thesis unfolding index_size_def Let_def f index_bytes_length(1) by simp
qed

lemma index_parse_bytes:
  assumes ok: "list_all record_ok rs" "pair_blocks rs < 2 ^ 64" "alloc_ok (length rs)"
    and len: "length (index_bytes crc rs) \<le> unat MAX_INDEX_SIZE"
  shows "index_parse alloc_ok crc (index_bytes crc rs) =
    Inr \<lparr>xi_records = map record_of rs, xi_index_size = of_nat (length (index_bytes crc rs))\<rparr>"
proof -
  define body where "body = index_body rs"
  define pad where "pad = replicate (next_multiple_of (length body) 4 - length body) (0 :: u8)"
  define h where "h = body @ pad"
  define n where "n = length (index_bytes crc rs)"
  have ib: "index_bytes crc rs = h @ le_bytes (crc h)" by (simp add: index_bytes_def Let_def h_def body_def pad_def pad_to_four_def)
  note nm = next_multiple_of_4 [of "length body"]
  have n: "n = next_multiple_of (length body) 4 + 4" unfolding n_def body_def by (rule index_bytes_length(1))
  have "2 \<le> length body" unfolding body_def by (rule index_bytes_length)
  then have n8: "\<not> (n < 8 \<or> n mod 4 \<noteq> 0 \<or> unat MAX_INDEX_SIZE < n)"
    using len nm unfolding n_def [symmetric] unfolding n by presburger
  have t: "take (n - 4) (index_bytes crc rs) = h" unfolding n_def ib by simp
  have st: "stored_crc (index_bytes crc rs) = crc h" unfolding ib by (rule stored_crc_append)
  have h0: "h ! 0 = 0" by (simp add: h_def body_def index_body_def)
  define p where "p = 1 + length (vli_bytes (length rs))"
  define rb where "rb = concat (map record_bytes rs)"
  have hs: "h = [0] @ vli_bytes (length rs) @ (rb @ pad)" "h = ([0] @ vli_bytes (length rs)) @ rb @ pad"
    by (simp_all add: h_def body_def index_body_def rb_def)
  have l63: "length rs < 2 ^ 63"
    using index_bytes_length(3) [of rs] len nm unfolding n_def [symmetric] n body_def [symmetric]
    by (simp add: MAX_INDEX_SIZE_def)
  then have u: "unat (of_nat (length rs) :: u64) = length rs" by (intro unat_of_nat_small) simp
  have d: "vli_decode_at h 1 = Inr (of_nat (length rs), p)"
    using vli_decode_at_push [OF l63, of "[0]" "rb @ pad"] unfolding hs(1) p_def by simp
  have room: "\<not> (length h - p) div MIN_RECORD_BYTES < length rs"
    using records_bytes_ge [of rs] by (simp add: hs p_def rb_def MIN_RECORD_BYTES_def)
  have r: "records_parse (length rs) h p 0 [] = Inr (map record_of rs, length ([0] @ vli_bytes (length rs) @ rb))"
    using records_parse_bytes [OF ok(1), of 0 "[0] @ vli_bytes (length rs)" pad "[]"] ok(2)
    unfolding rb_def [symmetric] hs(2) [symmetric] by (simp add: p_def)
  have pd: "drop (length ([0] @ vli_bytes (length rs) @ rb)) h = pad" "\<not> length h < length ([0] @ vli_bytes (length rs) @ rb)"
    by (simp_all add: hs)
  have p0: "\<not> (3 < length pad \<or> list_ex (\<lambda>b. b \<noteq> 0) pad)" using nm by (auto simp: pad_def list_ex_iff)
  show ?thesis
    unfolding index_parse_def index_rest_def Let_def n_def [symmetric] t st
    using n8 h0 by (simp only: d res_bind_simps prod.case u room ok(3) r pd p0 if_False simp_thms)
qed

lemma take_drop_split: "i \<le> j \<Longrightarrow> j \<le> k \<Longrightarrow> take (k - i) (drop i xs) = take (j - i) (drop i xs) @ take (k - j) (drop j xs)"
  using take_add [of "j - i" "k - j" "drop i xs"] by simp

lemma records_parse_inv:
  assumes "records_parse n body pos total0 acc = Inr (records, pos')" "pos \<le> length body"
  shows "\<exists>rs. records = acc @ map record_of rs \<and> length rs = n \<and> list_all record_ok rs \<and>
    unat total0 + pair_blocks rs < 2 ^ 64 \<and> pos' \<le> length body \<and> pos \<le> pos' \<and>
    take (pos' - pos) (drop pos body) = concat (map record_bytes rs)"
  using assms
proof (induction n arbitrary: pos total0 acc)
  case 0
  then show ?case using unat64_lt [of total0] by (intro exI [of _ "[]"]) simp
next
  case (Suc n)
  then obtain a p1 b p2 where d1: "vli_decode_at body pos = Inr (a, p1)" and d2: "vli_decode_at body p1 = Inr (b, p2)"
    by auto
  define r where "r = record_of (a, b)"
  obtain q t where q: "\<not> a < 5" "padded_size r = Some q" "checked_add64 total0 q = Some t"
    and rec: "records_parse n body p2 t (acc @ [r]) = Inr (records, pos')"
    using Suc.prems(1) d1 d2 by (auto simp: Let_def r_def record_of_def split: if_splits option.splits)
  note i1 = vli_decode_at_inv [OF d1] and i2 = vli_decode_at_inv [OF d2]
  obtain rs where rs: "records = (acc @ [r]) @ map record_of rs" "length rs = n" "list_all record_ok rs"
    "unat t + pair_blocks rs < 2 ^ 64" "pos' \<le> length body" "p2 \<le> pos'"
    "take (pos' - p2) (drop p2 body) = concat (map record_bytes rs)"
    using Suc.IH [OF rec] i2 by auto
  have "unat q = padded a" using q(2) by (simp add: padded_size_iff r_def record_of_def)
  then have "unat total0 + (padded a + pair_blocks rs) < 2 ^ 64"
    using unat_checked_add64 [OF q(3)] rs(4) by simp
  moreover have "record_ok (a, b)" using q(1) i1 i2 by (simp add: record_ok_def)
  moreover have "take (pos' - pos) (drop pos body) = record_bytes (a, b) @ concat (map record_bytes rs)"
  proof -
    have "take (pos' - pos) (drop pos body) = take (p1 - pos) (drop pos body) @ take (p2 - p1) (drop p1 body) @ take (pos' - p2) (drop p2 body)"
      using take_drop_split [of pos p1 pos' body] take_drop_split [of p1 p2 pos' body] i1 i2 rs(6) by simp
    moreover have "take (p1 - pos) (drop pos body) = vli_bytes (unat a)" "take (p2 - p1) (drop p1 body) = vli_bytes (unat b)"
      using i1 i2 by blast+
    ultimately show ?thesis unfolding rs(7) by (simp only: record_bytes_def fst_conv snd_conv append_assoc)
  qed
  ultimately show ?case
    using rs i1 i2 by (intro exI [of _ "(a, b) # rs"]) (simp add: r_def)
qed

lemma list4: "length xs = 4 \<Longrightarrow> xs = [xs ! 0, xs ! 1, xs ! 2, xs ! 3]"
  by (auto simp: length_Suc_conv eval_nat_numeral)

text \<open>The parser accepts exactly what the writer writes.\<close>

lemma index_parse_only:
  assumes "index_parse alloc_ok crc buf = Inr xi"
  shows "\<exists>rs. list_all record_ok rs \<and> pair_blocks rs < 2 ^ 64 \<and> alloc_ok (length rs) \<and> buf = index_bytes crc rs \<and>
    length buf \<le> unat MAX_INDEX_SIZE \<and> xi = \<lparr>xi_records = map record_of rs, xi_index_size = of_nat (length buf)\<rparr>"
proof -
  define n where "n = length buf"
  define body where "body = take (n - 4) buf"
  have n: "8 \<le> n" "n mod 4 = 0" "n \<le> unat MAX_INDEX_SIZE" and c: "crc body = stored_crc buf" and b0: "body ! 0 = 0"
    using assms by (simp_all add: index_parse_def Let_def n_def body_def split: if_splits)
  have "\<exists>count p records. vli_decode_at body 1 = Inr (count, p) \<and> index_rest alloc_ok body count p = Inr records \<and>
      xi = \<lparr>xi_records = records, xi_index_size = of_nat n\<rparr>"
    using assms by (simp add: index_parse_def Let_def n_def body_def split: if_splits) blast
  then obtain count p records where d: "vli_decode_at body 1 = Inr (count, p)" and rec: "index_rest alloc_ok body count p = Inr records"
    and xi: "xi = \<lparr>xi_records = records, xi_index_size = of_nat n\<rparr>" by blast
  note i = vli_decode_at_inv [OF d]
  obtain p' where room: "alloc_ok (unat count)" and r: "records_parse (unat count) body p 0 [] = Inr (records, p')"
    and pad: "length (drop p' body) \<le> 3" "\<not> list_ex (\<lambda>b. b \<noteq> 0) (drop p' body)"
    using rec by (auto simp: index_rest_def Let_def split: if_splits)
  obtain rs where rs: "records = map record_of rs" "length rs = unat count" "list_all record_ok rs" "pair_blocks rs < 2 ^ 64"
    "p' \<le> length body" "p \<le> p'" "take (p' - p) (drop p body) = concat (map record_bytes rs)"
    using records_parse_inv [OF r] i by auto
  have lb: "length body = n - 4" by (simp add: body_def n_def)
  have "take 1 body = [0]" using b0 lb n by (cases body) auto
  moreover have "take (p - 1) (drop 1 body) = vli_bytes (length rs)" using i unfolding rs(2) by blast
  ultimately have body: "take p' body = index_body rs"
    using take_drop_split [of 0 1 p' body] take_drop_split [of 1 p p' body] i rs(6,7) by (simp add: index_body_def)
  have z: "drop p' body = replicate (length (drop p' body)) 0"
    using pad(2) by (intro replicate_length_same [symmetric]) (auto simp: list_ex_iff)
  have li: "length (index_body rs) = p'" using arg_cong [OF body, of length] rs(5) by simp
  have "length (drop p' body) = next_multiple_of p' 4 - p'"
    using next_multiple_of_4 [of p'] pad(1) n rs(5) lb by simp presburger
  then have "pad_to_four (index_body rs) (length (index_body rs)) = body"
    using z body append_take_drop_id [of p' body] by (simp add: pad_to_four_def li)
  moreover have "drop (n - 4) buf = le_bytes (crc body)"
  proof -
    have "n - 4 + 1 = n - 3" "n - 4 + 2 = n - 2" "n - 4 + 3 = n - 1" using n(1) by linarith+
    moreover have "drop (n - 4) buf ! k = buf ! (n - 4 + k)" for k using n(1) by (simp add: n_def)
    moreover have "length (drop (n - 4) buf) = 4" using n(1) by (simp add: n_def)
    ultimately have "drop (n - 4) buf = [buf ! (n - 4), buf ! (n - 3), buf ! (n - 2), buf ! (n - 1)]"
      using list4 [of "drop (n - 4) buf"] by (simp only: add_0_right)
    then show ?thesis unfolding c stored_crc_def n_def [symmetric] Let_def by simp
  qed
  ultimately have "buf = index_bytes crc rs"
    using append_take_drop_id [of "n - 4" buf] by (simp add: index_bytes_def Let_def body_def)
  then show ?thesis using rs n room xi by (auto simp: n_def)
qed

end
