(* ===== verification/XzEnc.thy ===== *)
theory XzEnc
  imports XzIndex
begin

text \<open>
  \<open>src/src/enc/xz_enc.rs\<close>: the \<open>.xz\<close> stream writer. The LZMA2 encoder and its pipe are the record of
  operations \<open>lzma2_ops\<close>, on states \<open>'e\<close> and \<open>'p\<close> that the writer never looks into; the digests, third-party
  functions, are the record \<open>digests\<close>, a running digest being the bytes it has seen. An operation of the writer
  takes its state to a new one and a \<open>Result\<close>; \<open>None\<close> is a panic. \<open>alloc_ok n\<close> says whether a request for
  \<open>n\<close> more elements is granted. The buffers kept only to be refilled (\<open>spare\<close>, \<open>spares\<close>, the packed buffer of
  the pool) hold no data and are left out, as is \<open>recycle_output\<close>, and the \<open>std::io::Write\<close> forms
  \<open>push_to\<close> and \<open>finish_to\<close>.
\<close>

subsection \<open>Parameters\<close>

record digests =
  dg_crc32 :: "bytes \<Rightarrow> u32"
  dg_crc64 :: "bytes \<Rightarrow> u64"
  dg_sha256 :: "(bytes \<Rightarrow> bytes) option"

record ('e, 'p) lzma2_ops =
  l2_new :: "lzma_error + 'e"
  l2_properties :: "'e \<Rightarrow> u8"
  l2_dict_size :: "'e \<Rightarrow> u32"
  l2_encode :: "'e \<Rightarrow> u64 \<Rightarrow> bytes \<Rightarrow> 'e \<times> (lzma_error + bytes)"
  pipe_start :: "'e \<Rightarrow> 'e + 'p"
  pipe_write :: "'p \<Rightarrow> bytes \<Rightarrow> bytes \<Rightarrow> 'p \<times> bytes \<times> (lzma_error + unit)"
  pipe_write_owned :: "'p \<Rightarrow> bytes \<Rightarrow> bytes \<Rightarrow> 'p \<times> bytes \<times> (lzma_error + unit)"
  pipe_finish :: "'p \<Rightarrow> bytes \<Rightarrow> bytes \<times> (lzma_error + u64)"

subsection \<open>Checks\<close>

definition check_bytes :: "digests \<Rightarrow> check_type \<Rightarrow> bytes \<Rightarrow> bytes option" where
  "check_bytes dg c data = (case c of
       CheckNone \<Rightarrow> Some []
     | CheckCrc32 \<Rightarrow> Some (le_bytes (dg_crc32 dg data))
     | CheckCrc64 \<Rightarrow> Some (u64_to_le_bytes (dg_crc64 dg data))
     | CheckSha256 \<Rightarrow> map_option (\<lambda>h. h data) (dg_sha256 dg)
     | CheckReserved _ \<Rightarrow> None)"

definition compute_check :: "digests \<Rightarrow> check_type \<Rightarrow> bytes \<Rightarrow> bytes \<Rightarrow> lzma_error + bytes" where
  "compute_check dg c data out = (case check_bytes dg c data of None \<Rightarrow> Inl Param | Some b \<Rightarrow> Inr (out @ b))"

definition check_supported :: "digests \<Rightarrow> check_type \<Rightarrow> bool" where
  "check_supported dg c = (case c of
       CheckNone \<Rightarrow> True | CheckCrc32 \<Rightarrow> True | CheckCrc64 \<Rightarrow> True
     | CheckSha256 \<Rightarrow> dg_sha256 dg \<noteq> None
     | CheckReserved _ \<Rightarrow> False)"

text \<open>A check computed as the bytes go by.\<close>

record running_check =
  rc_type :: check_type
  rc_seen :: bytes

definition running_new :: "digests \<Rightarrow> check_type \<Rightarrow> lzma_error + running_check" where
  "running_new dg c = (if check_supported dg c then Inr \<lparr>rc_type = c, rc_seen = []\<rparr> else Inl Param)"

definition running_update :: "running_check \<Rightarrow> bytes \<Rightarrow> running_check" where
  "running_update r data = r\<lparr>rc_seen := rc_seen r @ data\<rparr>"

definition running_finish :: "digests \<Rightarrow> running_check \<Rightarrow> bytes \<Rightarrow> bytes" where
  "running_finish dg r out = out @ (case check_bytes dg (rc_type r) (rc_seen r) of None \<Rightarrow> [] | Some b \<Rightarrow> b)"

subsection \<open>One block\<close>

record block =
  bk_header :: bytes
  bk_compressed :: bytes
  bk_check :: bytes
  bk_unpadded :: nat
  bk_uncompressed :: u64

text \<open>The filters over a whole block, fresh for it.\<close>

definition filter_data :: "bool \<Rightarrow> (nat \<Rightarrow> bool) \<Rightarrow> filter_flags list \<Rightarrow> u8 \<Rightarrow> bytes \<Rightarrow> (lzma_error + bytes) option" where
  "filter_data x86 alloc_ok filters dict_prop data =
     (if filters = [] then Some (Inr data)
      else case chain_for_props alloc_ok filters dict_prop of Inl e \<Rightarrow> Some (Inl e)
        | Inr chain \<Rightarrow> (case chain_build chain of Inl _ \<Rightarrow> Some (Inl Param)
          | Inr convs \<Rightarrow> do { (_, data) \<leftarrow> encode_in_place x86 convs data; Some (Inr data) }))"

definition compress_block ::
    "bool \<Rightarrow> (nat \<Rightarrow> bool) \<Rightarrow> digests \<Rightarrow> ('e, 'p) lzma2_ops \<Rightarrow> 'e \<Rightarrow> check_type \<Rightarrow> filter_flags list \<Rightarrow> u8 \<Rightarrow> bytes \<Rightarrow>
     ('e \<times> (lzma_error + block)) option" where
  "compress_block x86 alloc_ok dg ops lzma2 c filters dict_prop data =
     (let uncompressed = of_nat (length data) in
      case compute_check dg c data [] of Inl e \<Rightarrow> Some (lzma2, Inl e)
      | Inr chk \<Rightarrow> do {
          d \<leftarrow> filter_data x86 alloc_ok filters dict_prop data;
          case d of Inl e \<Rightarrow> Some (lzma2, Inl e)
          | Inr data \<Rightarrow>
              (let (lzma2, r) = l2_encode ops lzma2 uncompressed data in
               case r of Inl e \<Rightarrow> Some (lzma2, Inl e)
               | Inr compressed \<Rightarrow> do {
                   h \<leftarrow> write_block_header alloc_ok (dg_crc32 dg) filters dict_prop
                          (Some (of_nat (length compressed), uncompressed));
                   case h of Inl e \<Rightarrow> Some (lzma2, Inl e)
                   | Inr header \<Rightarrow> Some (lzma2, Inr \<lparr>bk_header = header, bk_compressed = compressed, bk_check = chk,
                         bk_unpadded = length header + length compressed + check_size c, bk_uncompressed = uncompressed\<rparr>) }) })"

subsection \<open>The encoder\<close>

definition DEFAULT_BLOCK_SIZE :: u64 where "DEFAULT_BLOCK_SIZE = - 1"

record 'p solid_stream =
  ss_pipe :: 'p
  ss_check :: running_check
  ss_convs :: "converters option"
  ss_header_len :: nat
  ss_uncompressed :: u64

record ('e, 'p) xz_encoder =
  en_check :: check_type
  en_block_size :: u64
  en_lzma2 :: "'e option"
  en_dict_prop :: u8
  en_solid_threshold :: u64
  en_stream :: "'p solid_stream option"
  en_may_stream :: bool
  en_filters :: "filter_flags list"
  en_pending :: bytes
  en_records :: "(u64 \<times> u64) list"
  en_out :: bytes
  en_finished :: bool
  en_threads :: nat
  en_queue :: "bytes list"
  en_pool :: "'e list"

definition encoder_new :: "digests \<Rightarrow> ('e, 'p) lzma2_ops \<Rightarrow> lzma_error + ('e, 'p) xz_encoder" where
  "encoder_new dg ops = res_bind (l2_new ops) (\<lambda>lzma2. Inr
     \<lparr>en_check = CheckCrc64, en_block_size = DEFAULT_BLOCK_SIZE, en_lzma2 = Some lzma2, en_dict_prop = l2_properties ops lzma2,
      en_solid_threshold = ucast (l2_dict_size ops lzma2), en_stream = None, en_may_stream = True, en_filters = [], en_pending = [],
      en_records = [], en_out = write_stream_header (dg_crc32 dg) CheckCrc64 [], en_finished = False, en_threads = 1,
      en_queue = [], en_pool = []\<rparr>)"

definition started :: "('e, 'p) xz_encoder \<Rightarrow> bool" where
  "started s \<longleftrightarrow> en_records s \<noteq> [] \<or> en_pending s \<noteq> [] \<or> en_stream s \<noteq> None"

definition set_check :: "digests \<Rightarrow> check_type \<Rightarrow> ('e, 'p) xz_encoder \<Rightarrow> ('e, 'p) xz_encoder \<times> (lzma_error + unit)" where
  "set_check dg c s =
     (if \<not> check_supported dg c then (s, Inl Param)
      else if started s then (s, Inl Param)
      else let s = s\<lparr>en_check := c, en_out := []\<rparr>
        in (s\<lparr>en_out := write_stream_header (dg_crc32 dg) c (en_out s)\<rparr>, Inr ()))"

definition set_filters ::
    "(nat \<Rightarrow> bool) \<Rightarrow> filter_flags list \<Rightarrow> ('e, 'p) xz_encoder \<Rightarrow> ('e, 'p) xz_encoder \<times> (lzma_error + unit)" where
  "set_filters alloc_ok filters s =
     (if started s then (s, Inl Param)
      else if MAX_FILTERS \<le> length filters then (s, Inl Param)
      else case chain_for_props alloc_ok filters (en_dict_prop s) of Inl e \<Rightarrow> (s, Inl e)
        | Inr _ \<Rightarrow> if \<not> alloc_ok (length filters) then (s, Inl Alloc) else (s\<lparr>en_filters := filters\<rparr>, Inr ()))"

definition set_block_size :: "u64 \<Rightarrow> ('e, 'p) xz_encoder \<Rightarrow> ('e, 'p) xz_encoder" where
  "set_block_size n s = s\<lparr>en_block_size := (if n = 0 then DEFAULT_BLOCK_SIZE else n)\<rparr>"

definition set_threads :: "nat \<Rightarrow> ('e, 'p) xz_encoder \<Rightarrow> ('e, 'p) xz_encoder" where
  "set_threads n s = s\<lparr>en_threads := max n 1\<rparr>"

definition take_output :: "('e, 'p) xz_encoder \<Rightarrow> ('e, 'p) xz_encoder \<times> bytes" where
  "take_output s = (s\<lparr>en_out := []\<rparr>, en_out s)"

text \<open>The steps of the writer: a state to a state and a \<open>Result\<close>, and the \<open>?\<close> on such a step.\<close>

type_synonym ('e, 'p, 'a) enc_step = "(('e, 'p) xz_encoder \<times> (lzma_error + 'a)) option"

definition enc_bind :: "('e, 'p, 'a) enc_step \<Rightarrow> (('e, 'p) xz_encoder \<Rightarrow> 'a \<Rightarrow> ('e, 'p, 'b) enc_step) \<Rightarrow> ('e, 'p, 'b) enc_step" where
  "enc_bind m f = (case m of None \<Rightarrow> None
     | Some (s, Inl e) \<Rightarrow> Some (s, Inl e)
     | Some (s, Inr x) \<Rightarrow> f s x)"

lemma enc_bind_simps [simp]:
  "enc_bind None f = None" "enc_bind (Some (s, Inl e)) f = Some (s, Inl e)" "enc_bind (Some (s, Inr x)) f = f s x"
  by (simp_all add: enc_bind_def)

definition reserve_pending :: "(nat \<Rightarrow> bool) \<Rightarrow> nat \<Rightarrow> ('e, 'p) xz_encoder \<Rightarrow> ('e, 'p, unit) enc_step" where
  "reserve_pending alloc_ok additional s = Some (s, if alloc_ok additional then Inr () else Inl Alloc)"

subsection \<open>Blocks into the output\<close>

definition append_block :: "(nat \<Rightarrow> bool) \<Rightarrow> block \<Rightarrow> ('e, 'p) xz_encoder \<Rightarrow> ('e, 'p, unit) enc_step" where
  "append_block alloc_ok b s =
     (if \<not> alloc_ok (bk_unpadded b + 3) then Some (s, Inl Alloc)
      else
        let s = s\<lparr>en_out := en_out s @ bk_header b\<rparr>;
            s = s\<lparr>en_out := en_out s @ bk_compressed b\<rparr>;
            s = s\<lparr>en_out := pad_to_four (en_out s) (length (bk_compressed b))\<rparr>;
            s = s\<lparr>en_out := en_out s @ bk_check b\<rparr>
        in if \<not> alloc_ok 1 then Some (s, Inl Alloc)
           else Some (s\<lparr>en_records := en_records s @ [(of_nat (bk_unpadded b), bk_uncompressed b)]\<rparr>, Inr ()))"

definition compress_pending ::
    "bool \<Rightarrow> (nat \<Rightarrow> bool) \<Rightarrow> digests \<Rightarrow> ('e, 'p) lzma2_ops \<Rightarrow> ('e, 'p) xz_encoder \<Rightarrow> ('e, 'p, block) enc_step" where
  "compress_pending x86 alloc_ok dg ops s =
     (let data = en_pending s; s = s\<lparr>en_pending := []\<rparr> in
      case en_lzma2 s of None \<Rightarrow> Some (s, Inl InternalFailure)
      | Some lzma2 \<Rightarrow> do {
          (lzma2, r) \<leftarrow> compress_block x86 alloc_ok dg ops lzma2 (en_check s) (en_filters s) (en_dict_prop s) data;
          Some (s\<lparr>en_lzma2 := Some lzma2\<rparr>, r) })"

definition emit_block ::
    "bool \<Rightarrow> (nat \<Rightarrow> bool) \<Rightarrow> digests \<Rightarrow> ('e, 'p) lzma2_ops \<Rightarrow> ('e, 'p) xz_encoder \<Rightarrow> ('e, 'p, unit) enc_step" where
  "emit_block x86 alloc_ok dg ops s =
     enc_bind (compress_pending x86 alloc_ok dg ops s) (\<lambda>s b.
     enc_bind (append_block alloc_ok b s) (\<lambda>s _. Some (s\<lparr>en_pending := []\<rparr>, Inr ())))"

text \<open>\<open>while self.pool.len() < want\<close>\<close>

primrec fill_pool :: "(nat \<Rightarrow> bool) \<Rightarrow> ('e, 'p) lzma2_ops \<Rightarrow> nat \<Rightarrow> ('e, 'p) xz_encoder \<Rightarrow> ('e, 'p, unit) enc_step" where
  "fill_pool alloc_ok ops 0 s = Some (s, Inr ())"
| "fill_pool alloc_ok ops (Suc n) s =
     (if \<not> alloc_ok 1 then Some (s, Inl Alloc)
      else case l2_new ops of Inl e \<Rightarrow> Some (s, Inl e)
        | Inr enc \<Rightarrow> fill_pool alloc_ok ops n (s\<lparr>en_pool := en_pool s @ [enc]\<rparr>))"

text \<open>The scope: every queued block on the encoder of its own thread, joined in order.\<close>

fun compress_all ::
    "bool \<Rightarrow> (nat \<Rightarrow> bool) \<Rightarrow> digests \<Rightarrow> ('e, 'p) lzma2_ops \<Rightarrow> check_type \<Rightarrow> filter_flags list \<Rightarrow> u8 \<Rightarrow> 'e list \<Rightarrow> bytes list \<Rightarrow>
     ('e list \<times> (lzma_error + block) list) option" where
  "compress_all x86 alloc_ok dg ops c filters dict_prop (enc # pool) (data # queue) = do {
     (enc, r) \<leftarrow> compress_block x86 alloc_ok dg ops enc c filters dict_prop data;
     (pool, rs) \<leftarrow> compress_all x86 alloc_ok dg ops c filters dict_prop pool queue;
     Some (enc # pool, r # rs) }"
| "compress_all x86 alloc_ok dg ops c filters dict_prop pool queue = Some (pool, [])"

definition compress_queue ::
    "bool \<Rightarrow> (nat \<Rightarrow> bool) \<Rightarrow> digests \<Rightarrow> ('e, 'p) lzma2_ops \<Rightarrow> ('e, 'p) xz_encoder \<Rightarrow> ('e, 'p, (lzma_error + block) list) enc_step" where
  "compress_queue x86 alloc_ok dg ops s =
     (if en_queue s = [] then Some (s, Inr [])
      else
        let want = length (en_queue s) in
        enc_bind (fill_pool alloc_ok ops (want - length (en_pool s)) s) (\<lambda>s _.
          let queue = en_queue s; s = s\<lparr>en_queue := []\<rparr> in
          if \<not> alloc_ok want then Some (s, Inl Alloc)
          else do {
            (pool, rs) \<leftarrow> compress_all x86 alloc_ok dg ops (en_check s) (en_filters s) (en_dict_prop s) (en_pool s) queue;
            Some (s\<lparr>en_pool := pool\<rparr>, Inr rs) }))"

primrec append_all :: "(nat \<Rightarrow> bool) \<Rightarrow> (lzma_error + block) list \<Rightarrow> ('e, 'p) xz_encoder \<Rightarrow> ('e, 'p, unit) enc_step" where
  "append_all alloc_ok [] s = Some (s, Inr ())"
| "append_all alloc_ok (r # rs) s =
     (case r of Inl e \<Rightarrow> Some (s, Inl e)
      | Inr b \<Rightarrow> enc_bind (append_block alloc_ok b s) (\<lambda>s _. append_all alloc_ok rs s))"

definition flush_queue ::
    "bool \<Rightarrow> (nat \<Rightarrow> bool) \<Rightarrow> digests \<Rightarrow> ('e, 'p) lzma2_ops \<Rightarrow> ('e, 'p) xz_encoder \<Rightarrow> ('e, 'p, unit) enc_step" where
  "flush_queue x86 alloc_ok dg ops s =
     enc_bind (compress_queue x86 alloc_ok dg ops s) (\<lambda>s done.
       let space = sum_list (map (\<lambda>r. case r of Inl _ \<Rightarrow> 0 | Inr b \<Rightarrow> bk_unpadded b + 3) done) in
       if \<not> alloc_ok space then Some (s, Inl Alloc)
       else if \<not> alloc_ok (length done) then Some (s, Inl Alloc)
       else append_all alloc_ok done s)"

definition queue_pending :: "(nat \<Rightarrow> bool) \<Rightarrow> ('e, 'p) xz_encoder \<Rightarrow> ('e, 'p, bool) enc_step" where
  "queue_pending alloc_ok s =
     (if \<not> alloc_ok 1 then Some (s, Inl Alloc)
      else let s = s\<lparr>en_queue := en_queue s @ [en_pending s], en_pending := []\<rparr>
        in Some (s, Inr (en_threads s \<le> length (en_queue s))))"

definition block_ready ::
    "bool \<Rightarrow> (nat \<Rightarrow> bool) \<Rightarrow> digests \<Rightarrow> ('e, 'p) lzma2_ops \<Rightarrow> ('e, 'p) xz_encoder \<Rightarrow> ('e, 'p, unit) enc_step" where
  "block_ready x86 alloc_ok dg ops s =
     (if 1 < en_threads s
      then enc_bind (queue_pending alloc_ok s) (\<lambda>s full.
        enc_bind (if full then flush_queue x86 alloc_ok dg ops s else Some (s, Inr ())) (\<lambda>s _.
          Some (s\<lparr>en_pending := []\<rparr>, Inr ())))
      else emit_block x86 alloc_ok dg ops s)"

subsection \<open>The solid block as it arrives\<close>

text \<open>\<open>data.chunks(64 << 10)\<close>\<close>

function chunks :: "nat \<Rightarrow> 'a list \<Rightarrow> 'a list list" where
  "chunks n xs = (if xs = [] \<or> n = 0 then [] else take n xs # chunks n (drop n xs))"
  by pat_completeness auto
termination
  by (relation "measure (\<lambda>(n, xs). length xs)") auto
declare chunks.simps [simp del]

primrec push_parts ::
    "bool \<Rightarrow> ('e, 'p) lzma2_ops \<Rightarrow> bytes list \<Rightarrow> converters \<Rightarrow> 'p \<Rightarrow> bytes \<Rightarrow> (converters \<times> 'p \<times> bytes \<times> (lzma_error + unit)) option" where
  "push_parts x86 ops [] convs pipe out = Some (convs, pipe, out, Inr ())"
| "push_parts x86 ops (part # parts) convs pipe out = do {
     (convs, converted) \<leftarrow> cv_encode_push x86 convs part [];
     let (pipe, out, r) = pipe_write ops pipe converted out;
     case r of Inl e \<Rightarrow> Some (convs, pipe, out, Inl e) | Inr _ \<Rightarrow> push_parts x86 ops parts convs pipe out }"

definition solid_push ::
    "bool \<Rightarrow> ('e, 'p) lzma2_ops \<Rightarrow> 'p solid_stream \<Rightarrow> bytes \<Rightarrow> bytes \<Rightarrow> ('p solid_stream \<times> bytes \<times> (lzma_error + unit)) option" where
  "solid_push x86 ops st data out =
     (let st = st\<lparr>ss_check := running_update (ss_check st) data\<rparr>;
          st = st\<lparr>ss_uncompressed := ss_uncompressed st + of_nat (length data)\<rparr>
      in case ss_convs st of
          Some convs \<Rightarrow> do {
            (convs, pipe, out, r) \<leftarrow> push_parts x86 ops (chunks 65536 data) convs (ss_pipe st) out;
            Some (st\<lparr>ss_convs := Some convs, ss_pipe := pipe\<rparr>, out, r) }
        | None \<Rightarrow> (let (pipe, out, r) = pipe_write ops (ss_pipe st) data out in Some (st\<lparr>ss_pipe := pipe\<rparr>, out, r)))"

definition solid_push_owned ::
    "bool \<Rightarrow> ('e, 'p) lzma2_ops \<Rightarrow> 'p solid_stream \<Rightarrow> bytes \<Rightarrow> bytes \<Rightarrow> ('p solid_stream \<times> bytes \<times> (lzma_error + unit)) option" where
  "solid_push_owned x86 ops st held out =
     (if ss_convs st \<noteq> None then solid_push x86 ops st held out
      else
        let st = st\<lparr>ss_check := running_update (ss_check st) held\<rparr>;
            st = st\<lparr>ss_uncompressed := ss_uncompressed st + of_nat (length held)\<rparr>;
            (pipe, out, r) = pipe_write_owned ops (ss_pipe st) held out
        in Some (st\<lparr>ss_pipe := pipe\<rparr>, out, r))"

text \<open>The converters of the solid block, or \<open>None\<close> for a bare LZMA2 chain.\<close>

definition solid_converters ::
    "(nat \<Rightarrow> bool) \<Rightarrow> ('e, 'p) xz_encoder \<Rightarrow> lzma_error + converters option" where
  "solid_converters alloc_ok s =
     (if en_filters s = [] then Inr None
      else case chain_for_props alloc_ok (en_filters s) (en_dict_prop s) of Inl e \<Rightarrow> Inl e
        | Inr chain \<Rightarrow> (case chain_build chain of Inl _ \<Rightarrow> Inl Param | Inr convs \<Rightarrow> Inr (Some convs)))"

definition start_stream ::
    "bool \<Rightarrow> (nat \<Rightarrow> bool) \<Rightarrow> digests \<Rightarrow> ('e, 'p) lzma2_ops \<Rightarrow> ('e, 'p) xz_encoder \<Rightarrow> ('e, 'p, unit) enc_step" where
  "start_stream x86 alloc_ok dg ops s =
     enc_bind (flush_queue x86 alloc_ok dg ops s) (\<lambda>s _.
       case en_lzma2 s of None \<Rightarrow> Some (s, Inl InternalFailure)
       | Some lzma2 \<Rightarrow>
           let s = s\<lparr>en_lzma2 := None\<rparr> in
           (case pipe_start ops lzma2 of
              Inl lzma2 \<Rightarrow> Some (s\<lparr>en_lzma2 := Some lzma2, en_may_stream := False\<rparr>, Inr ())
            | Inr pipe \<Rightarrow>
                (case solid_converters alloc_ok s of Inl e \<Rightarrow> Some (s, Inl e)
                 | Inr convs \<Rightarrow> do {
                     h \<leftarrow> write_block_header alloc_ok (dg_crc32 dg) (en_filters s) (en_dict_prop s) None;
                     case h of Inl e \<Rightarrow> Some (s, Inl e)
                     | Inr header \<Rightarrow>
                         if \<not> alloc_ok (length header) then Some (s, Inl Alloc)
                         else
                           let s = s\<lparr>en_out := en_out s @ header\<rparr> in
                           (case running_new dg (en_check s) of Inl e \<Rightarrow> Some (s, Inl e)
                            | Inr check \<Rightarrow>
                                let held = en_pending s; s = s\<lparr>en_pending := [], en_pool := []\<rparr> in do {
                                  (st, out, r) \<leftarrow> solid_push_owned x86 ops
                                    \<lparr>ss_pipe = pipe, ss_check = check, ss_convs = convs, ss_header_len = length header, ss_uncompressed = 0\<rparr>
                                    held (en_out s);
                                  case r of Inl e \<Rightarrow> Some (s\<lparr>en_out := out\<rparr>, Inl e)
                                  | Inr _ \<Rightarrow> Some (s\<lparr>en_out := out, en_stream := Some st\<rparr>, Inr ()) }) })))"

definition finish_stream_output ::
    "bool \<Rightarrow> digests \<Rightarrow> ('e, 'p) lzma2_ops \<Rightarrow> check_type \<Rightarrow> 'p solid_stream \<Rightarrow> bytes \<Rightarrow> (bytes \<times> (lzma_error + u64 \<times> u64)) option" where
  "finish_stream_output x86 dg ops c st out = do {
     (pipe, out, r) \<leftarrow> (case ss_convs st of None \<Rightarrow> Some (ss_pipe st, out, Inr ())
       | Some convs \<Rightarrow> do { (_, converted) \<leftarrow> cv_encode_finish x86 convs [] []; Some (pipe_write ops (ss_pipe st) converted out) });
     case r of Inl e \<Rightarrow> Some (out, Inl e)
     | Inr _ \<Rightarrow>
         (let (out, r) = pipe_finish ops pipe out in
          case r of Inl e \<Rightarrow> Some (out, Inl e)
          | Inr compressed \<Rightarrow>
              let trailer = pad_to_four [] (unat (compressed mod 4));
                  trailer = running_finish dg (ss_check st) trailer;
                  out = out @ trailer;
                  unpadded = of_nat (ss_header_len st) + compressed + of_nat (check_size c)
              in Some (out, Inr (unpadded, ss_uncompressed st))) }"

definition finish_stream ::
    "bool \<Rightarrow> (nat \<Rightarrow> bool) \<Rightarrow> digests \<Rightarrow> ('e, 'p) lzma2_ops \<Rightarrow> 'p solid_stream \<Rightarrow> ('e, 'p) xz_encoder \<Rightarrow> ('e, 'p, unit) enc_step" where
  "finish_stream x86 alloc_ok dg ops st s = do {
     (out, r) \<leftarrow> finish_stream_output x86 dg ops (en_check s) st (en_out s);
     let s = s\<lparr>en_out := out\<rparr>;
     case r of Inl e \<Rightarrow> Some (s, Inl e)
     | Inr record \<Rightarrow> if \<not> alloc_ok 1 then Some (s, Inl Alloc) else Some (s\<lparr>en_records := en_records s @ [record]\<rparr>, Inr ()) }"

subsection \<open>\<open>push\<close> and \<open>finish\<close>\<close>

text \<open>\<open>while !data.is_empty()\<close>; a loop that does not end is \<open>None\<close>.\<close>

partial_function (option) push_loop ::
    "bool \<Rightarrow> (nat \<Rightarrow> bool) \<Rightarrow> digests \<Rightarrow> ('e, 'p) lzma2_ops \<Rightarrow> bytes \<Rightarrow> ('e, 'p) xz_encoder \<Rightarrow> ('e, 'p, unit) enc_step" where
  [code]: "push_loop x86 alloc_ok dg ops data s =
     (if data = [] then Some (s, Inr ())
      else
        let room = unat (en_block_size s) - length (en_pending s);
            n = min room (length data)
        in if \<not> alloc_ok n then Some (s, Inl Alloc)
           else
             let s = s\<lparr>en_pending := en_pending s @ take n data\<rparr>; data = drop n data in
             if unat (en_block_size s) \<le> length (en_pending s)
             then do {
               (s, r) \<leftarrow> block_ready x86 alloc_ok dg ops s;
               case r of Inl e \<Rightarrow> Some (s, Inl e) | Inr _ \<Rightarrow> push_loop x86 alloc_ok dg ops data s }
             else push_loop x86 alloc_ok dg ops data s)"

definition push_stream ::
    "bool \<Rightarrow> ('e, 'p) lzma2_ops \<Rightarrow> 'p solid_stream \<Rightarrow> bytes \<Rightarrow> ('e, 'p) xz_encoder \<Rightarrow> ('e, 'p, unit) enc_step" where
  "push_stream x86 ops st data s = do {
     (st, out, r) \<leftarrow> solid_push x86 ops st data (en_out s);
     Some (s\<lparr>en_stream := Some st, en_out := out\<rparr>, r) }"

definition encoder_push ::
    "bool \<Rightarrow> (nat \<Rightarrow> bool) \<Rightarrow> digests \<Rightarrow> ('e, 'p) lzma2_ops \<Rightarrow> bytes \<Rightarrow> ('e, 'p) xz_encoder \<Rightarrow> ('e, 'p, unit) enc_step" where
  "encoder_push x86 alloc_ok dg ops data s =
     (if en_finished s then Some (s, Inl Param)
      else case en_stream s of
        Some st \<Rightarrow> push_stream x86 ops st data s
      | None \<Rightarrow>
          if en_block_size s = DEFAULT_BLOCK_SIZE \<and> en_may_stream s
          then
            let room = unat (en_solid_threshold s) - length (en_pending s);
                n = min room (length data)
            in if \<not> alloc_ok n then Some (s, Inl Alloc)
               else
                 let s = s\<lparr>en_pending := en_pending s @ take n data\<rparr>; data = drop n data in
                 if data = [] then Some (s, Inr ())
                 else enc_bind (start_stream x86 alloc_ok dg ops s) (\<lambda>s _.
                   case en_stream s of
                     Some st \<Rightarrow> push_stream x86 ops st data s
                   | None \<Rightarrow> push_loop x86 alloc_ok dg ops data s)
          else push_loop x86 alloc_ok dg ops data s)"

definition encoder_finish ::
    "bool \<Rightarrow> (nat \<Rightarrow> bool) \<Rightarrow> digests \<Rightarrow> ('e, 'p) lzma2_ops \<Rightarrow> ('e, 'p) xz_encoder \<Rightarrow> ('e, 'p, unit) enc_step" where
  "encoder_finish x86 alloc_ok dg ops s =
     (if en_finished s then Some (s, Inl Param)
      else
        enc_bind (case en_stream s of None \<Rightarrow> Some (s, Inr ())
          | Some st \<Rightarrow> finish_stream x86 alloc_ok dg ops st (s\<lparr>en_stream := None\<rparr>)) (\<lambda>s _.
        enc_bind (if en_pending s \<noteq> [] then block_ready x86 alloc_ok dg ops s else Some (s, Inr ())) (\<lambda>s _.
        enc_bind (flush_queue x86 alloc_ok dg ops s) (\<lambda>s _. do {
          out \<leftarrow> write_index (dg_crc32 dg) (en_records s) (en_out s);
          out \<leftarrow> write_footer (dg_crc32 dg) (en_check s) (index_size (en_records s)) out;
          Some (s\<lparr>en_out := out, en_finished := True\<rparr>, Inr ()) }))))"

text \<open>The one-shot encoder.\<close>

definition encode_xz_mt ::
    "bool \<Rightarrow> (nat \<Rightarrow> bool) \<Rightarrow> digests \<Rightarrow> ('e, 'p) lzma2_ops \<Rightarrow> bytes \<Rightarrow> check_type \<Rightarrow> u64 \<Rightarrow> filter_flags list \<Rightarrow> nat \<Rightarrow>
     (lzma_error + bytes) option" where
  "encode_xz_mt x86 alloc_ok dg ops src c block_size filters threads =
     (case encoder_new dg ops of Inl e \<Rightarrow> Some (Inl e)
      | Inr s \<Rightarrow>
     (case set_check dg c s of (_, Inl e) \<Rightarrow> Some (Inl e)
      | (s, Inr _) \<Rightarrow>
     (case set_filters alloc_ok filters s of (_, Inl e) \<Rightarrow> Some (Inl e)
      | (s, Inr _) \<Rightarrow>
          let s = set_threads threads (set_block_size block_size s);
              s = s\<lparr>en_may_stream := False\<rparr>
          in do {
            (s, r) \<leftarrow> enc_bind (encoder_push x86 alloc_ok dg ops src s) (\<lambda>s _. encoder_finish x86 alloc_ok dg ops s);
            case r of Inl e \<Rightarrow> Some (Inl e) | Inr _ \<Rightarrow> Some (Inr (snd (take_output s))) })))"

definition encode_xz_with_filters ::
    "bool \<Rightarrow> (nat \<Rightarrow> bool) \<Rightarrow> digests \<Rightarrow> ('e, 'p) lzma2_ops \<Rightarrow> bytes \<Rightarrow> check_type \<Rightarrow> u64 \<Rightarrow> filter_flags list \<Rightarrow> (lzma_error + bytes) option" where
  "encode_xz_with_filters x86 alloc_ok dg ops src c block_size filters = encode_xz_mt x86 alloc_ok dg ops src c block_size filters 1"

definition encode_xz ::
    "bool \<Rightarrow> (nat \<Rightarrow> bool) \<Rightarrow> digests \<Rightarrow> ('e, 'p) lzma2_ops \<Rightarrow> bytes \<Rightarrow> check_type \<Rightarrow> u64 \<Rightarrow> (lzma_error + bytes) option" where
  "encode_xz x86 alloc_ok dg ops src c block_size = encode_xz_with_filters x86 alloc_ok dg ops src c block_size []"

end
