(* ===== verification/XzSeek.thy ===== *)
theory XzSeek
  imports XzIndex
begin

text \<open>
  The seekable reads of \<open>src/src/xz/index.rs\<close>: the index of the stream that ends at an offset, the table of
  a file's streams and of its blocks. The reader is a byte string \<open>src\<close> shorter than \<open>2 ^ 63\<close>: a seek always
  succeeds, \<open>read_exact\<close> fails past the end. The format side is \<open>stream_frame\<close>, the bytes the writer's
  header, index and footer put around the blocks: the reader accepts them and nothing else.
\<close>

subsection \<open>The code\<close>

definition read_exact_at :: "bytes \<Rightarrow> u64 \<Rightarrow> nat \<Rightarrow> bytes option" where
  "read_exact_at src off n =
     (if n = 0 then Some [] else if unat off + n \<le> length src then Some (take n (drop (unat off) src)) else None)"

definition checked_sub64 :: "u64 \<Rightarrow> u64 \<Rightarrow> u64 option" where
  "checked_sub64 a b = (if b \<le> a then Some (a - b) else None)"

record stream_index =
  si_stream_offset :: u64
  si_stream_size :: u64
  si_header :: stream_header
  si_index :: xz_index

definition or_err :: "'a option \<Rightarrow> 'e \<Rightarrow> 'e + 'a" where
  "or_err x e = (case x of None \<Rightarrow> Inl e | Some y \<Rightarrow> Inr y)"

definition map_err :: "('e \<Rightarrow> 'f) \<Rightarrow> 'e + 'a \<Rightarrow> 'f + 'a" where
  "map_err g r = (case r of Inl e \<Rightarrow> Inl (g e) | Inr x \<Rightarrow> Inr x)"

definition truncated_at :: "u64 \<Rightarrow> xz_error" where
  "truncated_at off = xz_error_at TruncatedInput 0 off"

definition read_footer_ending_at :: "crc \<Rightarrow> bytes \<Rightarrow> u64 \<Rightarrow> xz_error + u64 \<times> stream_footer" where
  "read_footer_ending_at crc src end =
     res_bind (or_err (checked_sub64 end (of_nat STREAM_FOOTER_SIZE)) (truncated_at end)) (\<lambda>footer_offset.
     res_bind (or_err (read_exact_at src footer_offset STREAM_FOOTER_SIZE) (truncated_at footer_offset)) (\<lambda>footer.
     res_bind (map_err (\<lambda>k. xz_error_at k 0 footer_offset) (footer_parse crc footer)) (\<lambda>footer.
       Inr (footer_offset, footer))))"

definition read_index_before ::
    "(nat \<Rightarrow> bool) \<Rightarrow> crc \<Rightarrow> bytes \<Rightarrow> u64 \<Rightarrow> u64 \<Rightarrow> stream_footer \<Rightarrow> xz_error + u64 \<times> xz_index" where
  "read_index_before alloc_ok crc src memory_limit footer_offset footer =
     (let size = st_index_size footer in
      if MAX_INDEX_SIZE < size \<or> memory_limit < size
      then Inl (xz_error_at (XzMemoryLimit size memory_limit) 0 footer_offset)
      else
        res_bind (or_err (checked_sub64 footer_offset size) (truncated_at footer_offset)) (\<lambda>index_offset.
          if index_offset < of_nat STREAM_HEADER_SIZE then Inl (xz_error_at IndexMismatch 0 index_offset)
          else if \<not> alloc_ok (unat size) then Inl (xz_error_at (XzMemoryLimit size memory_limit) 0 index_offset)
          else
            res_bind (or_err (read_exact_at src index_offset (unat size)) (truncated_at index_offset)) (\<lambda>buf.
            res_bind (map_err (\<lambda>k. xz_error_at k 0 index_offset) (index_parse alloc_ok crc buf)) (\<lambda>index.
              Inr (index_offset, index)))))"

definition read_stream_index_ending_at ::
    "(nat \<Rightarrow> bool) \<Rightarrow> crc \<Rightarrow> bytes \<Rightarrow> u64 \<Rightarrow> u64 \<Rightarrow> xz_error + stream_index" where
  "read_stream_index_ending_at alloc_ok crc src end memory_limit =
     res_bind (read_footer_ending_at crc src end) (\<lambda>(footer_offset, footer).
     res_bind (read_index_before alloc_ok crc src memory_limit footer_offset footer) (\<lambda>(index_offset, index).
     res_bind (or_err (xi_blocks_size index) (xz_error_at IndexMismatch 0 index_offset)) (\<lambda>blocks_size.
     res_bind (or_err (do { v \<leftarrow> checked_sub64 index_offset blocks_size; checked_sub64 v (of_nat STREAM_HEADER_SIZE) })
         (xz_error_at IndexMismatch 0 index_offset)) (\<lambda>stream_offset.
     res_bind (or_err (read_exact_at src stream_offset STREAM_HEADER_SIZE) (truncated_at stream_offset)) (\<lambda>head.
     res_bind (map_err (\<lambda>k. xz_error_at k 0 stream_offset) (header_parse crc head)) (\<lambda>header.
       if sf_raw (sh_flags header) \<noteq> sf_raw (st_flags footer) then Inl (xz_error_at StreamFlagsMismatch 0 footer_offset)
       else Inr \<lparr>si_stream_offset = stream_offset, si_stream_size = end - stream_offset, si_header = header,
                 si_index = index\<rparr>))))))"

subsection \<open>Small facts\<close>

lemma or_err_Inr [simp]: "or_err x e = Inr y \<longleftrightarrow> x = Some y"
  by (cases x) (simp_all add: or_err_def)

lemma map_err_Inr [simp]: "map_err g r = Inr y \<longleftrightarrow> r = Inr y"
  by (cases r) (simp_all add: map_err_def)

lemma or_err_Some [simp]: "or_err (Some y) e = Inr y" and map_err_Inr_simp [simp]: "map_err g (Inr y) = Inr y"
  by simp_all

lemma checked_sub64_iff: "checked_sub64 a b = Some c \<longleftrightarrow> unat a = unat c + unat b"
proof
  assume "checked_sub64 a b = Some c"
  then show "unat a = unat c + unat b" by (auto simp: checked_sub64_def unat_sub word_le_nat_alt split: if_splits)
next
  assume a: "unat a = unat c + unat b"
  then have le: "b \<le> a" by (simp add: word_le_nat_alt)
  then have "unat (a - b) = unat c" using a by (simp add: unat_sub)
  then show "checked_sub64 a b = Some c" using le by (simp add: checked_sub64_def word_unat_eq_iff)
qed

lemma read_exact_at_iff:
  "0 < n \<Longrightarrow> read_exact_at src off n = Some xs \<longleftrightarrow> unat off + n \<le> length src \<and> xs = take n (drop (unat off) src)"
  by (auto simp: read_exact_at_def)

lemma fold_sizes_padded:
  "fold_sizes padded_size rs a = Some n \<longleftrightarrow>
     unat n = unat a + nat_blocks rs \<and> list_all (\<lambda>r. unat (xr_unpadded_size r) + 3 < 2 ^ 64) rs"
proof (induction rs arbitrary: a)
  case Nil
  then show ?case by (auto simp: nat_blocks_def word_unat_eq_iff)
next
  case (Cons r rs)
  show ?case
  proof
    assume "fold_sizes padded_size (r # rs) a = Some n"
    then obtain p t where "padded_size r = Some p" "checked_add64 a p = Some t" "fold_sizes padded_size rs t = Some n"
      by (auto split: bind_splits)
    then show "unat n = unat a + nat_blocks (r # rs) \<and> list_all (\<lambda>r. unat (xr_unpadded_size r) + 3 < 2 ^ 64) (r # rs)"
      using Cons by (simp add: padded_size_iff checked_add64_iff nat_blocks_def)
  next
    assume a: "unat n = unat a + nat_blocks (r # rs) \<and> list_all (\<lambda>r. unat (xr_unpadded_size r) + 3 < 2 ^ 64) (r # rs)"
    define q where "q = padded (xr_unpadded_size r)"
    have s: "unat n = unat a + q + nat_blocks rs" using a by (simp add: nat_blocks_def q_def)
    have lt: "unat a + q < 2 ^ 64" using unat64_lt [of n] unfolding s by linarith
    then have uq: "unat (of_nat q :: u64) = q" by (intro unat_of_nat_small) simp
    have p: "padded_size r = Some (of_nat q)" using a uq by (simp add: padded_size_iff q_def)
    have ut: "unat (of_nat (unat a + q) :: u64) = unat a + q" using lt by (intro unat_of_nat_small) simp
    have t: "checked_add64 a (of_nat q) = Some (of_nat (unat a + q))"
      unfolding checked_add64_iff ut uq ..
    show "fold_sizes padded_size (r # rs) a = Some n"
      using Cons [of "of_nat (unat a + q)"] a s ut by (simp add: p t)
  qed
qed

subsection \<open>A stream as the writer frames it\<close>

definition stream_frame :: "crc \<Rightarrow> check_type \<Rightarrow> bytes \<Rightarrow> (u64 \<times> u64) list \<Rightarrow> bytes option" where
  "stream_frame crc c area rs = do {
     let out = write_stream_header crc c [];
     let out = out @ area;
     out \<leftarrow> write_index crc rs out;
     write_footer crc c (index_size rs) out }"

text \<open>Block sizes and an index the format allows, over the bytes of the blocks.\<close>

definition frame_ok :: "crc \<Rightarrow> check_type \<Rightarrow> bytes \<Rightarrow> (u64 \<times> u64) list \<Rightarrow> bool" where
  "frame_ok crc c area rs \<longleftrightarrow> check_ok c \<and> list_all record_ok rs \<and> length area = pair_blocks rs \<and>
     length (index_bytes crc rs) \<le> unat MAX_INDEX_SIZE"

definition header_of :: "check_type \<Rightarrow> stream_header" where
  "header_of c = \<lparr>sh_flags = \<lparr>sf_check = c, sf_raw = (0, check_id c)\<rparr>\<rparr>"

definition index_of_frame :: "nat \<Rightarrow> nat \<Rightarrow> check_type \<Rightarrow> crc \<Rightarrow> (u64 \<times> u64) list \<Rightarrow> stream_index" where
  "index_of_frame off sz c crc rs =
     \<lparr>si_stream_offset = of_nat off, si_stream_size = of_nat sz, si_header = header_of c,
      si_index = \<lparr>xi_records = map record_of rs, xi_index_size = of_nat (length (index_bytes crc rs))\<rparr>\<rparr>"

lemma write_header_append: "write_stream_header crc c out = out @ write_stream_header crc c []"
  by (simp add: write_stream_header_def Let_def)

lemma write_footer_append: "write_footer crc c n out = map_option (\<lambda>F. out @ F) (write_footer crc c n [])"
  by (simp add: write_footer_def Let_def)

lemma index_length:
  assumes "length (index_bytes crc rs) \<le> unat MAX_INDEX_SIZE"
  shows "length rs < 2 ^ 63" "length (index_bytes crc rs) mod 4 = 0" "8 \<le> length (index_bytes crc rs)"
    "unat (of_nat (length (index_bytes crc rs)) :: u64) = length (index_bytes crc rs)" "length (index_bytes crc rs) \<le> 2 ^ 34"
proof -
  note l = index_bytes_length(1) [of crc rs] index_bytes_length(2,3) [of rs] and nm = next_multiple_of_4 [of "length (index_body rs)"]
  have m: "unat MAX_INDEX_SIZE = 2 ^ 34" by (simp add: MAX_INDEX_SIZE_def)
  show le: "length (index_bytes crc rs) \<le> 2 ^ 34" using assms by (simp only: m)
  show "length rs < 2 ^ 63" using l nm le by simp
  show "length (index_bytes crc rs) mod 4 = 0" "8 \<le> length (index_bytes crc rs)" unfolding l(1) using nm l(2) by presburger+
  show "unat (of_nat (length (index_bytes crc rs)) :: u64) = length (index_bytes crc rs)"
    using le by (intro unat_of_nat_small) simp
qed

lemma footer_written:
  assumes "length (index_bytes crc rs) \<le> unat MAX_INDEX_SIZE"
  obtains F where "write_footer crc c (of_nat (length (index_bytes crc rs))) [] = Some F" "length F = 12" "drop 8 F = [0, check_id c, 0x59, 0x5A]"
proof -
  define n where "n = (of_nat (length (index_bytes crc rs)) :: u64)"
  note l = index_length [OF assms]
  have "unat (n div 4) = length (index_bytes crc rs) div 4" using l(4) by (simp add: n_def unat_div)
  moreover have "length (index_bytes crc rs) div 4 \<noteq> 0" using l(3) by linarith
  ultimately have "n div 4 \<noteq> 0" unfolding unat_eq_0 [symmetric] by linarith
  then show thesis using that unfolding n_def [symmetric]
    by (simp add: write_footer_def Let_def stream_flag_bytes_def XZ_FOOTER_MAGIC_def)
qed

lemma stream_frame_eq:
  assumes "frame_ok crc c area rs"
  shows "stream_frame crc c area rs =
    map_option (\<lambda>F. write_stream_header crc c [] @ area @ index_bytes crc rs @ F) (write_footer crc c (of_nat (length (index_bytes crc rs))) [])"
proof -
  have len: "length (index_bytes crc rs) \<le> unat MAX_INDEX_SIZE" "list_all record_ok rs" using assms by (simp_all add: frame_ok_def)
  show ?thesis
    unfolding stream_frame_def Let_def write_index_eq [OF len(2) index_length(1) [OF len(1)]] bind.bind_lunit index_size_eq [OF index_length(1) [OF len(1)], of crc]
    by (subst write_footer_append) (rule option.map_cong0; simp)
qed

lemma footer_parse_only:
  assumes "length buf = 12" "footer_parse crc buf = Inr ft"
  shows "\<exists>c. check_ok c \<and> write_footer crc c (st_index_size ft) [] = Some buf \<and> sf_raw (st_flags ft) = (0, check_id c) \<and>
    sf_check (st_flags ft) = c \<and> 4 dvd unat (st_index_size ft) \<and> 4 \<le> unat (st_index_size ft)"
proof -
  define bw where "bw = u32_from_le_bytes (buf ! 4) (buf ! 5) (buf ! 6) (buf ! 7)"
  have m: "take 2 (drop 10 buf) = XZ_FOOTER_MAGIC"
    and c: "crc (take 6 (drop 4 buf)) = u32_from_le_bytes (buf ! 0) (buf ! 1) (buf ! 2) (buf ! 3)"
    and f: "flags_parse (buf ! 8, buf ! 9) = Inr (st_flags ft)" and n: "st_index_size ft = (ucast bw + 1) * 4"
    using assms(2) by (auto simp: footer_parse_def Let_def bw_def split: if_splits sum.splits)
  define c where "c = sf_check (st_flags ft)"
  note fl = flags_parse_Inr [OF f, folded c_def]
  have un: "unat (st_index_size ft) = (unat bw + 1) * 4"
  proof -
    have lt: "unat bw < 4294967296" by (rule unat_u32_lt)
    then have "unat bw < 2 ^ 64" by (rule less_trans) simp
    then have "take_bit 64 (unat bw) = unat bw" by (rule take_bit_nat_eq_self)
    then have u: "unat (ucast bw :: u64) = unat bw" by (simp add: unsigned_ucast_eq)
    have "k + 1 < 2 ^ LENGTH(64) \<and> (k + 1) * 4 < 2 ^ LENGTH(64)" if "k < 4294967296" for k :: nat using that by simp
    note b = conjunct1 [OF this [OF lt]] conjunct2 [OF this [OF lt]]
    have a: "unat (ucast bw + 1 :: u64) = unat bw + 1"
      using b(1) u unat_add_lem [of "ucast bw :: u64" 1] by simp
    show ?thesis unfolding n using b(2) a unat_mult_lem [of "ucast bw + 1 :: u64" 4] by simp
  qed
  have "unat (st_index_size ft div 4 - 1) = unat bw"
  proof -
    have "unat (st_index_size ft div 4) = unat bw + 1" using un by (simp add: unat_div)
    moreover from this have "1 \<le> st_index_size ft div 4" by (simp add: word_le_nat_alt)
    ultimately show ?thesis by (simp add: unat_sub)
  qed
  then have b: "(ucast (st_index_size ft div 4 - 1) :: u32) = bw"
    using unsigned_less [of bw] by (intro word_eq_unatI) (simp add: unsigned_ucast_eq take_bit_nat_eq_self)
  have nz: "st_index_size ft div 4 \<noteq> 0"
  proof
    assume "st_index_size ft div 4 = 0"
    moreover have "unat (st_index_size ft div 4) = unat bw + 1" using un by (simp add: unat_div)
    ultimately show False by simp
  qed
  have t: "take 6 (drop 4 buf) = [buf ! 4, buf ! 5, buf ! 6, buf ! 7, buf ! 8, buf ! 9]" "take 4 buf = [buf ! 0, buf ! 1, buf ! 2, buf ! 3]"
    by (subst list12 [OF assms(1)]; simp add: eval_nat_numeral)+
  have "buf = take 4 buf @ take 6 (drop 4 buf) @ take 2 (drop 10 buf)"
    using assms(1) take_drop_split [of 0 4 12 buf] take_drop_split [of 4 10 12 buf] by simp
  moreover have "take 6 (drop 4 buf) = le_bytes bw @ stream_flag_bytes c" using fl by (simp add: t bw_def stream_flag_bytes_def)
  moreover from c have "le_bytes (crc (take 6 (drop 4 buf))) = take 4 buf" by (simp only: le_bytes_of_bytes t)
  ultimately have "buf = le_bytes (crc (le_bytes bw @ stream_flag_bytes c)) @ (le_bytes bw @ stream_flag_bytes c) @ XZ_FOOTER_MAGIC"
    by (simp only: m)
  then have "write_footer crc c (st_index_size ft) [] = Some buf"
    using nz unfolding write_footer_def Let_def b by simp
  then show ?thesis using fl un by (auto simp: c_def)
qed

subsection \<open>The reader finds exactly the frames\<close>

lemma word_less_nat: "a < (of_nat n :: u64) \<longleftrightarrow> unat a < n" if "n < 2 ^ 64" for a :: u64
  using that by (simp add: word_less_nat_alt unat_of_nat_small)

lemma unat_of_nat64: "n < 2 ^ 64 \<Longrightarrow> unat (of_nat n :: u64) = n"
  by (rule unat_of_nat_small) simp

lemma nat_blocks_pairs: "nat_blocks (map record_of rs) = pair_blocks rs"
  by (simp add: nat_blocks_def record_of_def o_def)

lemma records_size:
  assumes "list_all record_ok rs" "pair_blocks rs < 2 ^ 64"
  shows "fold_sizes padded_size (map record_of rs) 0 = Some (of_nat (pair_blocks rs))"
proof -
  have "list_all (\<lambda>r. unat (xr_unpadded_size r) + 3 < 2 ^ 64) (map record_of rs)"
    using assms(1) by (auto simp: list_all_iff record_ok_def record_of_def VLI_MAX_nat)
  then show ?thesis using assms(2) by (simp only: fold_sizes_padded nat_blocks_pairs unat_of_nat64) simp
qed

lemma read_written_footer:
  assumes ok: "frame_ok crc c area rs" and F: "write_footer crc c (of_nat (length (index_bytes crc rs))) [] = Some F" "length F = 12"
    and len: "length pre + 12 < 2 ^ 63"
  shows "read_footer_ending_at crc (pre @ F @ post) (of_nat (length pre + 12)) =
    Inr (of_nat (length pre), \<lparr>st_flags = \<lparr>sf_check = c, sf_raw = (0, check_id c)\<rparr>, st_index_size = of_nat (length (index_bytes crc rs))\<rparr>)"
proof -
  have il: "length (index_bytes crc rs) \<le> unat MAX_INDEX_SIZE" "check_ok c" using ok by (simp_all add: frame_ok_def)
  note l = index_length [OF il(1)]
  have p: "footer_parse crc F = Inr \<lparr>st_flags = \<lparr>sf_check = c, sf_raw = (0, check_id c)\<rparr>, st_index_size = of_nat (length (index_bytes crc rs))\<rparr>"
    using footer_parse_write [OF il(2) F(1)] l by (simp add: dvd_eq_mod_eq_0)
  have s: "checked_sub64 (of_nat (length pre + 12)) (of_nat STREAM_FOOTER_SIZE) = Some (of_nat (length pre))"
    unfolding checked_sub64_iff using len by (subst (1 2 3) unat_of_nat64) (simp_all add: STREAM_FOOTER_SIZE_def)
  have r: "read_exact_at (pre @ F @ post) (of_nat (length pre)) STREAM_FOOTER_SIZE = Some F"
    using len F(2) by (subst read_exact_at_iff) (simp_all add: STREAM_FOOTER_SIZE_def unat_of_nat64)
  show ?thesis unfolding read_footer_ending_at_def s or_err_Some res_bind_simps r p map_err_Inr_simp ..
qed

lemma read_written_index:
  assumes ok: "frame_ok crc c area rs" and alloc: "alloc_ok (length (index_bytes crc rs))" "alloc_ok (length rs)"
    and size: "pair_blocks rs < 2 ^ 64" and lim: "length (index_bytes crc rs) \<le> unat limit"
    and len: "12 \<le> length pre" "length pre + length (index_bytes crc rs) < 2 ^ 63"
  shows "read_index_before alloc_ok crc (pre @ index_bytes crc rs @ post) limit (of_nat (length pre + length (index_bytes crc rs)))
      \<lparr>st_flags = fl, st_index_size = of_nat (length (index_bytes crc rs))\<rparr> =
    Inr (of_nat (length pre), \<lparr>xi_records = map record_of rs, xi_index_size = of_nat (length (index_bytes crc rs))\<rparr>)"
proof -
  define n where "n = length (index_bytes crc rs)"
  have il: "n \<le> unat MAX_INDEX_SIZE" "list_all record_ok rs" using ok by (simp_all add: frame_ok_def n_def)
  note l = index_length [OF il(1) [unfolded n_def], folded n_def]
  have s: "checked_sub64 (of_nat (length pre + n)) (of_nat n) = Some (of_nat (length pre))"
    unfolding checked_sub64_iff using len l(4) by (subst (1 2) unat_of_nat64) (simp_all add: n_def)
  have m: "\<not> (MAX_INDEX_SIZE < (of_nat n :: u64) \<or> limit < of_nat n)" using il(1) lim l(4) by (simp add: word_less_nat_alt n_def)
  have h: "\<not> (of_nat (length pre) :: u64) < of_nat STREAM_HEADER_SIZE"
    using len by (simp add: word_less_nat_alt unat_of_nat64 STREAM_HEADER_SIZE_def)
  have r: "read_exact_at (pre @ index_bytes crc rs @ post) (of_nat (length pre)) n = Some (index_bytes crc rs)"
    using len l(3) by (subst read_exact_at_iff) (auto simp: unat_of_nat64 n_def)
  have p: "index_parse alloc_ok crc (index_bytes crc rs) = Inr \<lparr>xi_records = map record_of rs, xi_index_size = of_nat n\<rparr>"
    unfolding n_def using index_parse_bytes [of rs alloc_ok crc] il size alloc(2) by (simp add: n_def)
  show ?thesis
    unfolding read_index_before_def Let_def n_def [symmetric] stream_footer.select_convs s or_err_Some res_bind_simps l(4) r p map_err_Inr_simp
    using m h alloc(1) by (simp add: n_def)
qed

lemma read_frame:
  assumes ok: "frame_ok crc c area rs" and f: "stream_frame crc c area rs = Some f"
    and alloc: "alloc_ok (length (index_bytes crc rs))" "alloc_ok (length rs)"
    and lim: "length (index_bytes crc rs) \<le> unat limit" and len: "length pre + length f < 2 ^ 63"
  shows "read_stream_index_ending_at alloc_ok crc (pre @ f @ post) (of_nat (length pre + length f)) limit =
    Inr (index_of_frame (length pre) (length f) c crc rs)"
proof -
  have il: "length (index_bytes crc rs) \<le> unat MAX_INDEX_SIZE" and rs: "list_all record_ok rs" and area: "length area = pair_blocks rs"
    and c: "check_ok c" using ok by (simp_all add: frame_ok_def)
  define H where "H = write_stream_header crc c []"
  define I where "I = index_bytes crc rs"
  define n where "n = length I"
  obtain F where F: "write_footer crc c (of_nat n) [] = Some F" "length F = 12"
    using footer_written [OF il, of c] by (auto simp: n_def I_def)
  have fe: "f = H @ area @ I @ F" using stream_frame_eq [OF ok] f F(1) by (simp add: H_def I_def n_def)
  have lh: "length H = 12" by (simp add: H_def)
  define b where "b = pair_blocks rs"
  have lens: "length pre + 12 + b + n + 12 = length pre + length f" "length area = b"
    using fe F(2) lh area by (simp_all add: b_def n_def)
  define src where "src = pre @ f @ post"
  have s: "src = (pre @ H @ area @ I) @ F @ post" "src = (pre @ H @ area) @ I @ (F @ post)" "src = pre @ H @ (area @ I @ F @ post)"
    by (simp_all add: src_def fe)
  have e: "length (pre @ H @ area @ I) + 12 = length pre + length f" "length (pre @ H @ area) + n = length (pre @ H @ area @ I)"
    using lens lh by (simp_all add: n_def)
  have b64: "pair_blocks rs < 2 ^ 64" using lens len by (simp add: b_def)
  have r1: "read_footer_ending_at crc src (of_nat (length pre + length f)) =
      Inr (of_nat (length (pre @ H @ area @ I)), \<lparr>st_flags = \<lparr>sf_check = c, sf_raw = (0, check_id c)\<rparr>, st_index_size = of_nat n\<rparr>)"
    unfolding s(1) e(1) [symmetric] n_def I_def
    by (rule read_written_footer [OF ok]) (use F e(1) len in \<open>simp_all add: n_def I_def\<close>)
  have r2: "read_index_before alloc_ok crc src limit (of_nat (length (pre @ H @ area @ I)))
      \<lparr>st_flags = \<lparr>sf_check = c, sf_raw = (0, check_id c)\<rparr>, st_index_size = of_nat n\<rparr> =
      Inr (of_nat (length (pre @ H @ area)), \<lparr>xi_records = map record_of rs, xi_index_size = of_nat n\<rparr>)"
  proof -
    have "12 \<le> length (pre @ H @ area)" "length (pre @ H @ area) + length I < 2 ^ 63" using e len lh by (simp_all add: n_def)
    from read_written_index [OF ok alloc b64 lim this [unfolded I_def]] show ?thesis
      unfolding I_def [symmetric] n_def [symmetric] e(2) s(2) .
  qed
  have bs: "xi_blocks_size \<lparr>xi_records = map record_of rs, xi_index_size = of_nat n\<rparr> = Some (of_nat b)"
    using records_size [OF rs b64] by (simp add: xi_blocks_size_def b_def)
  have c1: "checked_sub64 (of_nat (length (pre @ H @ area))) (of_nat b) = Some (of_nat (length pre + 12))"
    unfolding checked_sub64_iff using lens len lh by (subst (1 2 3) unat_of_nat64) simp_all
  have c2: "checked_sub64 (of_nat (length pre + 12)) (of_nat STREAM_HEADER_SIZE) = Some (of_nat (length pre))"
    unfolding checked_sub64_iff using lens len by (subst (1 2 3) unat_of_nat64) (simp_all add: STREAM_HEADER_SIZE_def)
  have r3: "read_exact_at src (of_nat (length pre)) STREAM_HEADER_SIZE = Some H"
    unfolding s(3) using lens len lh by (subst read_exact_at_iff) (simp_all add: unat_of_nat64 STREAM_HEADER_SIZE_def)
  have h: "header_parse crc H = Inr (header_of c)" unfolding H_def header_of_def by (rule header_parse_write [OF c])
  have z: "of_nat (length pre + length f) - of_nat (length pre) = (of_nat (length f) :: u64)" by simp
  show ?thesis
    unfolding src_def [symmetric] read_stream_index_ending_at_def r1 res_bind_simps prod.case r2 bs or_err_Some c1 bind.bind_lunit c2 r3 h
      map_err_Inr_simp z
    by (simp add: header_of_def index_of_frame_def n_def I_def)
qed

text \<open>Conversely, what the reader returns it found in that shape.\<close>

lemma take_app: "i \<le> j \<Longrightarrow> take j xs = take i xs @ take (j - i) (drop i xs)"
  using take_drop_split [of 0 i j xs] by simp

lemma read_frame_only:
  assumes r: "read_stream_index_ending_at alloc_ok crc src end limit = Inr si" and len: "length src < 2 ^ 63"
  shows "\<exists>c area rs f pre. frame_ok crc c area rs \<and> stream_frame crc c area rs = Some f \<and>
    take (unat end) src = pre @ f \<and> unat end \<le> length src \<and> si = index_of_frame (length pre) (length f) c crc rs \<and>
    alloc_ok (length (index_bytes crc rs)) \<and> alloc_ok (length rs) \<and> length (index_bytes crc rs) \<le> unat limit"
proof -
  obtain fo ft io idx bs so hd' where rf: "read_footer_ending_at crc src end = Inr (fo, ft)"
    and ri: "read_index_before alloc_ok crc src limit fo ft = Inr (io, idx)"
    and bs: "xi_blocks_size idx = Some bs"
    and so: "do { v \<leftarrow> checked_sub64 io bs; checked_sub64 v (of_nat STREAM_HEADER_SIZE) } = Some so"
    and rh: "read_exact_at src so STREAM_HEADER_SIZE = Some hd'"
    using r by (auto simp: read_stream_index_ending_at_def)
  obtain hdr where hp: "header_parse crc hd' = Inr hdr" and raw: "sf_raw (sh_flags hdr) = sf_raw (st_flags ft)"
    and si: "si = \<lparr>si_stream_offset = so, si_stream_size = end - so, si_header = hdr, si_index = idx\<rparr>"
    using r by (auto simp: read_stream_index_ending_at_def rf ri bs so rh split: if_splits)
  obtain fbuf where fo: "checked_sub64 end (of_nat STREAM_FOOTER_SIZE) = Some fo"
    and fb: "read_exact_at src fo STREAM_FOOTER_SIZE = Some fbuf" and fp: "footer_parse crc fbuf = Inr ft"
    using rf by (auto simp: read_footer_ending_at_def)
  define n where "n = unat (st_index_size ft)"
  obtain ibuf where io: "checked_sub64 fo (st_index_size ft) = Some io" and ib: "read_exact_at src io n = Some ibuf"
    and ip: "index_parse alloc_ok crc ibuf = Inr idx" and al: "alloc_ok n" "n \<le> unat limit"
    using ri by (auto simp: read_index_before_def Let_def n_def word_less_nat_alt split: if_splits)
  have e1: "unat end = unat fo + 12" using fo by (simp add: checked_sub64_iff STREAM_FOOTER_SIZE_def)
  have e2: "unat fo = unat io + n" using io by (simp add: checked_sub64_iff n_def)
  obtain v where v: "checked_sub64 io bs = Some v" "checked_sub64 v (of_nat STREAM_HEADER_SIZE) = Some so"
    using so by (cases "checked_sub64 io bs") auto
  have e3: "unat io = unat so + 12 + unat bs" using v by (simp add: checked_sub64_iff STREAM_HEADER_SIZE_def)
  have fl: "unat fo + 12 \<le> length src" "fbuf = take 12 (drop (unat fo) src)" using fb by (simp_all add: read_exact_at_iff STREAM_FOOTER_SIZE_def)
  obtain c where c: "check_ok c" "write_footer crc c (st_index_size ft) [] = Some fbuf" "sf_raw (st_flags ft) = (0, check_id c)"
      "4 \<le> n"
    using footer_parse_only [OF _ fp] fl by (auto simp: n_def)
  have il: "unat io + n \<le> length src" "ibuf = take n (drop (unat io) src)" using ib c(4) by (simp_all add: read_exact_at_iff)
  obtain rs where rs: "list_all record_ok rs" "pair_blocks rs < 2 ^ 64" "ibuf = index_bytes crc rs" "length ibuf \<le> unat MAX_INDEX_SIZE" "alloc_ok (length rs)"
    "idx = \<lparr>xi_records = map record_of rs, xi_index_size = of_nat (length ibuf)\<rparr>"
    using index_parse_only [OF ip] by blast
  have ln: "length ibuf = n" using il by simp
  have isz: "st_index_size ft = of_nat n" by (simp add: n_def)
  have hl: "hd' = take 12 (drop (unat so) src)" using rh by (simp add: read_exact_at_iff STREAM_HEADER_SIZE_def)
  have hl2: "length hd' = 12" using hl fl(1) e2 e3 by simp
  note ho = header_parse_only [OF hl2 hp]
  have cc: "sf_check (sh_flags hdr) = c"
  proof -
    have "header_parse crc hd' = Inr (header_of (sf_check (sh_flags hdr)))"
      using ho header_parse_write [of "sf_check (sh_flags hdr)" crc] by (simp add: header_of_def)
    then have h: "hdr = header_of (sf_check (sh_flags hdr))" using hp by simp
    have "check_id (sf_check (sh_flags hdr)) = check_id c"
      using raw c(3) arg_cong [OF h, of "\<lambda>h. sf_raw (sh_flags h)"] by (simp add: header_of_def)
    then show ?thesis using c(1) ho unfolding check_ok_def by simp
  qed
  have hdr: "hdr = header_of c"
    using ho header_parse_write [OF c(1), of crc] hp by (simp add: cc header_of_def)
  have bsn: "unat bs = pair_blocks rs"
  proof -
    have "bs = of_nat (pair_blocks rs)" using bs records_size [OF rs(1,2)] rs(6) by (simp add: xi_blocks_size_def)
    then show ?thesis by (simp only: unat_of_nat64 [OF rs(2)])
  qed
  define area where "area = take (pair_blocks rs) (drop (unat so + 12) src)"
  have la: "length area = pair_blocks rs" using e1 e2 e3 fl(1) bsn by (simp add: area_def)
  have ok: "frame_ok crc c area rs" using c(1) rs la by (simp add: frame_ok_def)
  define f where "f = hd' @ area @ ibuf @ fbuf"
  have fr: "stream_frame crc c area rs = Some f"
    using stream_frame_eq [OF ok] c(2) ho by (simp add: f_def cc rs(3) [symmetric] ln isz)
  have t: "take (unat end) src = take (unat so) src @ f"
  proof -
    have "take (unat end) src = take (unat so) src @ take (12 + (pair_blocks rs + (n + 12))) (drop (unat so) src)"
      using take_app [of "unat so" "unat end" src] e1 e2 e3 bsn by (simp add: ac_simps)
    also have "take (12 + (pair_blocks rs + (n + 12))) (drop (unat so) src) = f"
      unfolding take_add drop_drop f_def hl area_def il(2) fl(2) using e2 e3 bsn by (simp add: ac_simps)
    finally show ?thesis .
  qed
  have lf: "length f = unat end - unat so" using e1 e2 e3 hl2 la ln fl bsn by (simp add: f_def)
  have so_len: "length (take (unat so) src) = unat so" using e1 e2 e3 fl(1) by simp
  have "end - so = of_nat (length f)" 
  proof -
    have "so \<le> end" using e1 e2 e3 by (simp add: word_le_nat_alt)
    then show ?thesis unfolding lf by (simp add: unat_sub [symmetric])
  qed
  then have "si = index_of_frame (length (take (unat so) src)) (length f) c crc rs"
    unfolding so_len si hdr rs(6) index_of_frame_def rs(3) by simp
  then show ?thesis using ok fr t fl(1) e1 al rs(5) ln [unfolded rs(3)] by (metis add.commute)
qed

subsection \<open>All the streams of a file\<close>

lemma read_stream_less:
  assumes "read_stream_index_ending_at alloc_ok crc src end limit = Inr si"
  shows "unat (si_stream_offset si) < unat end"
  using assms
  by (auto simp: read_stream_index_ending_at_def read_footer_ending_at_def read_index_before_def Let_def checked_sub64_iff
      STREAM_FOOTER_SIZE_def STREAM_HEADER_SIZE_def split: if_splits bind_splits)

function skip_padding :: "bytes \<Rightarrow> u64 \<Rightarrow> xz_error + u64" where
  "skip_padding src end =
     (if unat end < 4 then Inl (xz_error_at TrailingGarbage 0 end)
      else case read_exact_at src (end - 4) 4 of
          None \<Rightarrow> Inl (xz_error_at TruncatedInput 0 end)
        | Some tail \<Rightarrow> (if tail = [0, 0, 0, 0] then skip_padding src (end - 4) else Inr end))"
  by pat_completeness auto
termination
  by (relation "measure (\<lambda>(src, end). unat end)") (auto simp: unat_sub word_le_nat_alt not_less)
declare skip_padding.simps [simp del]

lemma skip_padding_le: "skip_padding src end = Inr e \<Longrightarrow> unat e \<le> unat end"
proof (induction src "end" rule: skip_padding.induct)
  case (1 src "end")
  show ?case
  proof (cases "unat end < 4")
    case True
    then show ?thesis using "1.prems" by (subst (asm) skip_padding.simps) simp
  next
    case False
    then have "unat (end - 4) \<le> unat end" by (simp add: unat_sub word_le_nat_alt not_less)
    then show ?thesis using "1.prems" "1.IH" False
      by (subst (asm) skip_padding.simps) (force split: option.splits if_splits)
  qed
qed

function table_loop ::
    "(nat \<Rightarrow> bool) \<Rightarrow> crc \<Rightarrow> bytes \<Rightarrow> u64 \<Rightarrow> u64 \<Rightarrow> stream_index list \<Rightarrow> xz_error + stream_index list" where
  "table_loop alloc_ok crc src memory_limit end streams =
     (if end = 0 then Inr streams
      else case skip_padding src end of Inl e \<Rightarrow> Inl e
        | Inr end' \<Rightarrow>
      (case read_stream_index_ending_at alloc_ok crc src end' memory_limit of Inl e \<Rightarrow> Inl e
        | Inr idx \<Rightarrow> table_loop alloc_ok crc src memory_limit (si_stream_offset idx) (streams @ [idx])))"
  by pat_completeness auto
termination
  by (relation "measure (\<lambda>(a, c, src, m, end, s). unat end)")
    (auto dest!: skip_padding_le read_stream_less)
declare table_loop.simps [simp del]

definition stream_table :: "(nat \<Rightarrow> bool) \<Rightarrow> crc \<Rightarrow> bytes \<Rightarrow> u64 \<Rightarrow> xz_error + stream_index list" where
  "stream_table alloc_ok crc src memory_limit =
     (let len = of_nat (length src) in
      if len < (of_nat (STREAM_HEADER_SIZE * 2) :: u64) then Inl (xz_error_at TruncatedInput 0 len)
      else res_bind (table_loop alloc_ok crc src memory_limit len []) (\<lambda>streams. Inr (rev streams)))"

primrec rebase :: "u64 \<Rightarrow> u64 \<Rightarrow> block_entry list \<Rightarrow> xz_error + block_entry list" where
  "rebase offset base [] = Inr []"
| "rebase offset base (b # bs) =
     res_bind (or_err (checked_add64 (be_uncompressed_offset b) base) (xz_error_at IndexMismatch 0 offset)) (\<lambda>u.
     res_bind (rebase offset base bs) (\<lambda>out. Inr (b\<lparr>be_uncompressed_offset := u\<rparr> # out)))"

primrec block_loop :: "stream_index list \<Rightarrow> u64 \<Rightarrow> block_entry list \<Rightarrow> xz_error + block_entry list" where
  "block_loop [] base out = Inr out"
| "block_loop (s # ss) base out =
     res_bind (or_err (xi_blocks (si_index s) (si_stream_offset s)) (xz_error_at IndexMismatch 0 (si_stream_offset s))) (\<lambda>blocks.
     res_bind (rebase (si_stream_offset s) base blocks) (\<lambda>blocks.
     res_bind (or_err (checked_add64 base (case xi_uncompressed_size (si_index s) of None \<Rightarrow> 0 | Some n \<Rightarrow> n))
         (xz_error_at IndexMismatch 0 (si_stream_offset s))) (\<lambda>base.
       block_loop ss base (out @ blocks))))"

definition block_table :: "(nat \<Rightarrow> bool) \<Rightarrow> crc \<Rightarrow> bytes \<Rightarrow> u64 \<Rightarrow> xz_error + block_entry list" where
  "block_table alloc_ok crc src memory_limit =
     res_bind (stream_table alloc_ok crc src memory_limit) (\<lambda>streams. block_loop streams 0 [])"

definition single_stream_block_count :: "(nat \<Rightarrow> bool) \<Rightarrow> crc \<Rightarrow> bytes \<Rightarrow> nat option" where
  "single_stream_block_count alloc_ok crc src =
     (case read_stream_index_ending_at alloc_ok crc src (of_nat (length src)) MAX_INDEX_SIZE of
        Inl _ \<Rightarrow> None
      | Inr idx \<Rightarrow> if si_stream_offset idx = 0 then Some (xi_block_count (si_index idx)) else None)"

definition is_single_stream_multi_block :: "(nat \<Rightarrow> bool) \<Rightarrow> crc \<Rightarrow> bytes \<Rightarrow> bool" where
  "is_single_stream_multi_block alloc_ok crc src =
     (case single_stream_block_count alloc_ok crc src of None \<Rightarrow> False | Some n \<Rightarrow> n > 1)"

subsection \<open>The table of streams is the list of frames\<close>

text \<open>A stream of a file: its bytes, how many four-byte groups of padding follow, its check and its records.\<close>

type_synonym stream_item = "bytes \<times> nat \<times> check_type \<times> (u64 \<times> u64) list"

definition item_ok :: "(nat \<Rightarrow> bool) \<Rightarrow> crc \<Rightarrow> u64 \<Rightarrow> stream_item \<Rightarrow> bool" where
  "item_ok alloc_ok crc limit = (\<lambda>(f, k, c, rs).
     (\<exists>area. frame_ok crc c area rs \<and> stream_frame crc c area rs = Some f) \<and>
     alloc_ok (length (index_bytes crc rs)) \<and> alloc_ok (length rs) \<and> length (index_bytes crc rs) \<le> unat limit)"

fun item_bytes :: "stream_item \<Rightarrow> bytes" where
  "item_bytes (f, k, c, rs) = f @ replicate (4 * k) 0"

primrec stream_entries :: "crc \<Rightarrow> nat \<Rightarrow> stream_item list \<Rightarrow> stream_index list" where
  "stream_entries crc off [] = []"
| "stream_entries crc off (x # xs) =
     (case x of (f, k, c, rs) \<Rightarrow> index_of_frame off (length f) c crc rs # stream_entries crc (off + length (item_bytes x)) xs)"

lemma stream_entries_append:
  "stream_entries crc off (xs @ ys) = stream_entries crc off xs @ stream_entries crc (off + length (concat (map item_bytes xs))) ys"
  by (induction xs arbitrary: off) (auto simp: add.assoc split: prod.splits)

lemma frame_last:
  assumes "frame_ok crc c area rs" "stream_frame crc c area rs = Some f"
  shows "\<exists>g. f = g @ [0, check_id c, 0x59, 0x5A] \<and> 24 \<le> length f"
proof -
  have il: "length (index_bytes crc rs) \<le> unat MAX_INDEX_SIZE" using assms(1) by (simp add: frame_ok_def)
  obtain F where F: "write_footer crc c (of_nat (length (index_bytes crc rs))) [] = Some F" "length F = 12" "drop 8 F = [0, check_id c, 0x59, 0x5A]"
    using footer_written [OF il] .
  have "F = take 8 F @ [0, check_id c, 0x59, 0x5A]" using append_take_drop_id [of 8 F] F(3) by simp
  moreover have "f = write_stream_header crc c [] @ area @ index_bytes crc rs @ F"
    using stream_frame_eq [OF assms(1)] assms(2) F(1) by simp
  ultimately show ?thesis using F(2) by (metis append_assoc length_append le_add1 write_header_length add_mono numeral_Bit0 add.commute trans_le_add2)
qed

lemma skip_padding_zeros:
  assumes "length pre + 4 * k < 2 ^ 63" "pre = g @ [a, b, c, d]" "[a, b, c, d] \<noteq> [0, 0, 0, 0]"
  shows "skip_padding (pre @ replicate (4 * k) 0 @ post) (of_nat (length pre + 4 * k)) = Inr (of_nat (length pre))"
  using assms(1)
proof (induction k arbitrary: post)
  case 0
  define e where "e = (of_nat (length pre) :: u64)"
  have e: "unat e = length g + 4" using 0 by (simp add: e_def unat_of_nat64 del: of_nat_add) (simp add: assms(2))
  then have "unat (e - 4) = length g" by (subst unat_sub) (simp_all add: word_le_nat_alt)
  then have r: "read_exact_at (pre @ post) (e - 4) 4 = Some [a, b, c, d]" by (simp add: read_exact_at_iff assms(2))
  have "skip_padding (pre @ post) e = Inr e"
    using e assms(3) by (subst skip_padding.simps) (simp only: r, auto)
  then show ?case by (simp add: e_def)
next
  case (Suc k)
  have rep: "replicate (4 * Suc k) (0 :: u8) = replicate (4 * k) 0 @ [0, 0, 0, 0]"
    by (simp add: replicate_add [symmetric] replicate_append_same [symmetric] eval_nat_numeral)
  define e where "e = (of_nat (length pre + 4 * Suc k) :: u64)"
  have e: "unat e = length pre + 4 * Suc k" unfolding e_def by (rule unat_of_nat64) (use Suc.prems in simp)
  have e4: "unat (e - 4) = length pre + 4 * k" using e by (subst unat_sub) (simp_all add: word_le_nat_alt)
  moreover have "unat (of_nat (length pre + 4 * k) :: u64) = length pre + 4 * k" by (rule unat_of_nat64) (use Suc.prems in simp)
  ultimately have e4': "e - 4 = of_nat (length pre + 4 * k)" by (intro word_eq_unatI) (simp only:)
  have "read_exact_at (pre @ replicate (4 * Suc k) 0 @ post) (e - 4) 4 = Some [0, 0, 0, 0]"
    unfolding rep by (simp add: read_exact_at_iff e4)
  moreover have "skip_padding (pre @ replicate (4 * Suc k) 0 @ post) (e - 4) = Inr (of_nat (length pre))"
    unfolding rep e4' using Suc.IH [of "[0, 0, 0, 0] @ post"] Suc.prems by simp
  ultimately show ?case using e unfolding e_def [symmetric] by (subst skip_padding.simps) simp
qed

lemma skip_padding_only:
  "skip_padding src end = Inr e \<Longrightarrow> unat end \<le> length src \<Longrightarrow>
   \<exists>k. unat end = unat e + 4 * k \<and> take (4 * k) (drop (unat e) src) = replicate (4 * k) 0"
proof (induction src "end" rule: skip_padding.induct)
  case (1 src "end")
  have ge: "\<not> unat end < 4" using "1.prems"(1) by (subst (asm) skip_padding.simps) (simp split: if_splits)
  then have e4: "unat (end - 4) + 4 = unat end" by (simp add: unat_sub word_le_nat_alt not_less)
  show ?case
  proof (cases "read_exact_at src (end - 4) 4 = Some [0, 0, 0, 0]")
    case True
    then have t: "take 4 (drop (unat (end - 4)) src) = replicate 4 0" by (simp add: read_exact_at_iff eval_nat_numeral)
    have "skip_padding src (end - 4) = Inr e" using "1.prems"(1) ge True by (subst (asm) skip_padding.simps) simp
    from "1.IH" [OF ge True refl this] "1.prems"(2) e4
    obtain k where k: "unat (end - 4) = unat e + 4 * k" "take (4 * k) (drop (unat e) src) = replicate (4 * k) 0" by auto
    have "take (4 * Suc k) (drop (unat e) src) = replicate (4 * k) 0 @ replicate 4 0"
      using take_add [of "4 * k" 4 "drop (unat e) src"] k t by (simp add: add.commute)
    then show ?thesis using k(1) e4 by (intro exI [of _ "Suc k"]) (simp add: replicate_add [symmetric])
  next
    case False
    then have "end = e" using "1.prems"(1) ge by (subst (asm) skip_padding.simps) (auto split: option.splits if_splits)
    then show ?thesis by (intro exI [of _ 0]) simp
  qed
qed

lemma table_loop_items:
  assumes "list_all (item_ok alloc_ok crc limit) items" "length (concat (map item_bytes items)) < 2 ^ 63"
  shows "table_loop alloc_ok crc (concat (map item_bytes items) @ post) limit (of_nat (length (concat (map item_bytes items)))) acc =
    Inr (acc @ rev (stream_entries crc 0 items))"
  using assms
proof (induction items arbitrary: post acc rule: rev_induct)
  case Nil
  then show ?case by (simp add: table_loop.simps)
next
  case (snoc x xs)
  obtain f k c rs where x: "x = (f, k, c, rs)" by (cases x)
  obtain area where fr: "frame_ok crc c area rs" "stream_frame crc c area rs = Some f"
    and al: "alloc_ok (length (index_bytes crc rs))" "alloc_ok (length rs)" "length (index_bytes crc rs) \<le> unat limit"
    using snoc.prems(1) by (auto simp: x item_ok_def)
  obtain g where g: "f = g @ [0, check_id c, 0x59, 0x5A]" "24 \<le> length f" using frame_last [OF fr] by blast
  define pre where "pre = concat (map item_bytes xs)"
  define src where "src = concat (map item_bytes (xs @ [x])) @ post"
  have s: "src = (pre @ f) @ replicate (4 * k) 0 @ post" "src = pre @ f @ (replicate (4 * k) 0 @ post)"
      "src = pre @ (item_bytes x @ post)"
    by (simp_all add: src_def x pre_def)
  have l: "length (concat (map item_bytes (xs @ [x]))) = length (pre @ f) + 4 * k" by (simp add: x pre_def)
  have lt: "length (pre @ f) + 4 * k < 2 ^ 63" using snoc.prems(2) unfolding l .
  have sp: "skip_padding src (of_nat (length (pre @ f) + 4 * k)) = Inr (of_nat (length (pre @ f)))"
    unfolding s(1) by (rule skip_padding_zeros [OF lt, of "pre @ g" 0 "check_id c" "0x59" "0x5A"]) (simp_all add: g(1))
  have rd: "read_stream_index_ending_at alloc_ok crc src (of_nat (length (pre @ f))) limit =
      Inr (index_of_frame (length pre) (length f) c crc rs)"
    unfolding s(2) length_append by (rule read_frame [OF fr al(1,2,3)]) (use lt in simp)
  have ih: "table_loop alloc_ok crc src limit (of_nat (length pre)) (acc @ [index_of_frame (length pre) (length f) c crc rs]) =
      Inr ((acc @ [index_of_frame (length pre) (length f) c crc rs]) @ rev (stream_entries crc 0 xs))"
    unfolding s(3) pre_def by (rule snoc.IH) (use snoc.prems lt in \<open>simp_all add: pre_def\<close>)
  have nz: "(of_nat (length (pre @ f) + 4 * k) :: u64) \<noteq> 0"
  proof -
    have "unat (of_nat (length (pre @ f) + 4 * k) :: u64) \<noteq> 0" using lt g(2) by (subst unat_of_nat64) auto
    then show ?thesis by (simp only: unat_eq_0) simp
  qed
  have off: "si_stream_offset (index_of_frame (length pre) (length f) c crc rs) = of_nat (length pre)" by (simp add: index_of_frame_def)
  show ?case
    unfolding src_def [symmetric] l
    by (subst table_loop.simps) (simp only: nz if_False sp sum.case rd off ih, simp add: stream_entries_append x pre_def)
qed

lemma table_loop_only:
  assumes "table_loop alloc_ok crc src limit end acc = Inr out" "length src < 2 ^ 63" "unat end \<le> length src"
  shows "\<exists>items. list_all (item_ok alloc_ok crc limit) items \<and> take (unat end) src = concat (map item_bytes items) \<and>
    out = acc @ rev (stream_entries crc 0 items)"
  using assms
proof (induction alloc_ok crc src limit "end" acc rule: table_loop.induct)
  case (1 alloc_ok crc src limit "end" acc)
  show ?case
  proof (cases "end = 0")
    case True
    then show ?thesis using "1.prems"(1) by (subst (asm) table_loop.simps) (auto intro: exI [of _ "[]"])
  next
    case False
    obtain e idx where e: "skip_padding src end = Inr e" and idx: "read_stream_index_ending_at alloc_ok crc src e limit = Inr idx"
      and rec: "table_loop alloc_ok crc src limit (si_stream_offset idx) (acc @ [idx]) = Inr out"
      using "1.prems"(1) False by (subst (asm) table_loop.simps) (auto split: sum.splits)
    obtain c area rs f pre where fr: "frame_ok crc c area rs" "stream_frame crc c area rs = Some f" and t: "take (unat e) src = pre @ f"
      and le: "unat e \<le> length src" and si: "idx = index_of_frame (length pre) (length f) c crc rs"
      and al: "alloc_ok (length (index_bytes crc rs))" "alloc_ok (length rs)" "length (index_bytes crc rs) \<le> unat limit"
      using read_frame_only [OF idx "1.prems"(2)] by blast
    have lp: "length pre + length f = unat e" using arg_cong [OF t, of length] le by simp
    have off: "unat (si_stream_offset idx) = length pre" using lp le "1.prems"(2) by (simp add: si index_of_frame_def unat_of_nat64)
    obtain k where k: "unat end = unat e + 4 * k" "take (4 * k) (drop (unat e) src) = replicate (4 * k) 0"
      using skip_padding_only [OF e "1.prems"(3)] by blast
    have "unat (si_stream_offset idx) \<le> length src" using off lp le by linarith
    from "1.IH" [OF False e idx rec "1.prems"(2) this] obtain items where it: "list_all (item_ok alloc_ok crc limit) items"
      "take (unat (si_stream_offset idx)) src = concat (map item_bytes items)" "out = (acc @ [idx]) @ rev (stream_entries crc 0 items)" by blast
    have "take (length pre) src = pre" using arg_cong [OF t, of "take (length pre)"] lp by simp
    then have pre: "pre = concat (map item_bytes items)" using it(2) off by simp
    have "take (unat end) src = pre @ f @ replicate (4 * k) 0"
      using take_app [of "unat e" "unat end" src] k t by simp
    moreover have "item_ok alloc_ok crc limit (f, k, c, rs)" using fr al by (auto simp: item_ok_def)
    ultimately show ?thesis
      using it by (intro exI [of _ "items @ [(f, k, c, rs)]"]) (simp add: pre stream_entries_append si)
  qed
qed

lemma stream_table_iff:
  assumes "length src < 2 ^ 63"
  shows "stream_table alloc_ok crc src limit = Inr sis \<longleftrightarrow>
    (\<exists>items. items \<noteq> [] \<and> list_all (item_ok alloc_ok crc limit) items \<and> src = concat (map item_bytes items) \<and>
       sis = stream_entries crc 0 items)"
proof
  have u: "unat (of_nat (length src) :: u64) = length src" using assms by (simp add: unat_of_nat64)
  assume a: "stream_table alloc_ok crc src limit = Inr sis"
  then have "\<not> (of_nat (length src) :: u64) < of_nat (STREAM_HEADER_SIZE * 2)" by (auto simp: stream_table_def Let_def)
  then have ge: "24 \<le> length src" using u by (simp add: word_less_nat_alt STREAM_HEADER_SIZE_def)
  obtain out where out: "table_loop alloc_ok crc src limit (of_nat (length src)) [] = Inr out" "sis = rev out"
    using a by (auto simp: stream_table_def Let_def split: if_splits)
  obtain items where it: "list_all (item_ok alloc_ok crc limit) items" "src = concat (map item_bytes items)"
      "out = rev (stream_entries crc 0 items)"
    using table_loop_only [OF out(1) assms] u by auto
  then show "\<exists>items. items \<noteq> [] \<and> list_all (item_ok alloc_ok crc limit) items \<and> src = concat (map item_bytes items) \<and>
       sis = stream_entries crc 0 items"
    using ge out(2) by (intro exI [of _ items]) auto
next
  assume "\<exists>items. items \<noteq> [] \<and> list_all (item_ok alloc_ok crc limit) items \<and> src = concat (map item_bytes items) \<and>
       sis = stream_entries crc 0 items"
  then obtain items where it: "items \<noteq> []" "list_all (item_ok alloc_ok crc limit) items" "src = concat (map item_bytes items)"
      "sis = stream_entries crc 0 items" by blast
  obtain f k c rs xs where items: "items = (f, k, c, rs) # xs" using it(1) by (cases items) auto
  then obtain area where "frame_ok crc c area rs" "stream_frame crc c area rs = Some f" using it(2) by (auto simp: item_ok_def)
  then have "24 \<le> length f" using frame_last by blast
  then have "24 \<le> length src" by (simp add: it(3) items)
  moreover have "unat (of_nat (length src) :: u64) = length src" using assms by (simp add: unat_of_nat64)
  ultimately have "\<not> (of_nat (length src) :: u64) < of_nat (STREAM_HEADER_SIZE * 2)" by (simp add: word_less_nat_alt STREAM_HEADER_SIZE_def)
  then show "stream_table alloc_ok crc src limit = Inr sis"
    using table_loop_items [OF it(2), of "[]" "[]"] assms by (simp add: stream_table_def Let_def it(3,4))
qed

subsection \<open>The table of blocks\<close>

primrec block_entries :: "nat \<Rightarrow> nat \<Rightarrow> (u64 \<times> u64) list \<Rightarrow> block_entry list" where
  "block_entries off u [] = []"
| "block_entries off u (r # rs) =
     \<lparr>be_file_offset = of_nat off, be_uncompressed_offset = of_nat u, be_record = record_of r\<rparr> #
     block_entries (off + padded (fst r)) (u + unat (snd r)) rs"

abbreviation unpacked :: "(u64 \<times> u64) list \<Rightarrow> nat" where
  "unpacked rs \<equiv> \<Sum>r\<leftarrow>rs. unat (snd r)"

primrec file_blocks :: "nat \<Rightarrow> nat \<Rightarrow> stream_item list \<Rightarrow> block_entry list" where
  "file_blocks off u [] = []"
| "file_blocks off u (x # xs) =
     (case x of (f, k, c, rs) \<Rightarrow> block_entries (off + 12) u rs @ file_blocks (off + length (item_bytes x)) (u + unpacked rs) xs)"

lemma checked_add64_ok:
  assumes "unat a + unat b < 2 ^ 64"
  shows "checked_add64 a b = Some (a + b) \<and> unat (a + b) = unat a + unat b"
proof -
  have c: "checked_add64 a b = Some (a + b)" using assms by (simp add: checked_add64_def)
  with unat_checked_add64 [OF c] show ?thesis by simp
qed

lemma blocks_loop_entries:
  assumes "list_all record_ok rs" "unat f + pair_blocks rs < 2 ^ 64" "unat u + unpacked rs < 2 ^ 64"
  shows "blocks_loop (map record_of rs) f u = Some (block_entries (unat f) (unat u) rs)"
  using assms
proof (induction rs arbitrary: f u)
  case (Cons r rs)
  obtain p where p: "padded_size (record_of r) = Some p" "unat p = padded (fst r)"
  proof -
    have "unat (of_nat (padded (fst r)) :: u64) = padded (fst r)" using Cons.prems(2) by (intro unat_of_nat64) simp
    moreover have "unat (fst r) + 3 < 2 ^ 64" using Cons.prems(1) by (simp add: record_ok_def VLI_MAX_nat)
    ultimately show ?thesis using that by (simp add: padded_size_iff record_of_def)
  qed
  obtain f' where f: "checked_add64 f p = Some f'" "unat f' = unat f + padded (fst r)"
  proof -
    have "unat f + unat p < 2 ^ 64" using Cons.prems(2) unfolding p(2) by simp
    from checked_add64_ok [OF this] show ?thesis using that p(2) by simp
  qed
  obtain u' where u: "checked_add64 u (snd r) = Some u'" "unat u' = unat u + unat (snd r)"
  proof -
    have "unat u + unat (snd r) < 2 ^ 64" using Cons.prems(3) by simp
    from checked_add64_ok [OF this] show ?thesis using that by simp
  qed
  have "blocks_loop (map record_of rs) f' u' = Some (block_entries (unat f') (unat u') rs)"
    using Cons.prems f(2) u(2) by (intro Cons.IH) simp_all
  then show ?case unfolding f(2) u(2)
    by (simp only: list.map blocks_loop.simps p(1) f(1) bind.bind_lunit) (simp add: record_of_def u(1))
qed simp

lemma rebase_entries:
  assumes "base + u + unpacked rs < 2 ^ 64"
  shows "rebase off (of_nat base) (block_entries f u rs) = Inr (block_entries f (u + base) rs)"
  using assms
proof (induction rs arbitrary: f u)
  case (Cons r rs)
  have "checked_add64 (of_nat u) (of_nat base) = Some (of_nat (u + base))"
    unfolding checked_add64_iff using Cons.prems by (subst (1 2 3) unat_of_nat64) simp_all
  moreover have "rebase off (of_nat base) (block_entries (f + padded (fst r)) (u + unat (snd r)) rs) =
      Inr (block_entries (f + padded (fst r)) (u + unat (snd r) + base) rs)"
    using Cons.prems by (intro Cons.IH) simp
  ultimately show ?case by (simp add: ac_simps)
qed simp

lemma sizes_total:
  assumes "unat a + unpacked rs < 2 ^ 64"
  shows "fold_sizes (Some \<circ> xr_uncompressed_size) (map record_of rs) a = Some (of_nat (unat a + unpacked rs))"
  using assms
proof (induction rs arbitrary: a)
  case (Cons r rs)
  have "unat a + unat (snd r) < 2 ^ 64" using Cons.prems by simp
  note c = checked_add64_ok [OF this]
  have "fold_sizes (Some \<circ> xr_uncompressed_size) (map record_of rs) (a + snd r) = Some (of_nat (unat (a + snd r) + unpacked rs))"
    by (rule Cons.IH) (use c Cons.prems in simp)
  moreover have "fold_sizes (Some \<circ> xr_uncompressed_size) (map record_of (r # rs)) a =
      fold_sizes (Some \<circ> xr_uncompressed_size) (map record_of rs) (a + snd r)"
    using c by (simp add: record_of_def)
  moreover have "unat (a + snd r) + unpacked rs = unat a + unpacked (r # rs)" using c by simp
  ultimately show ?case by (simp only:)
qed simp

lemma block_loop_items:
  assumes "list_all (item_ok alloc_ok crc limit) items" "off + length (concat (map item_bytes items)) < 2 ^ 63"
    and "u + (\<Sum>x\<leftarrow>items. unpacked (snd (snd (snd x)))) < 2 ^ 64"
  shows "block_loop (stream_entries crc off items) (of_nat u) out = Inr (out @ file_blocks off u items)"
  using assms
proof (induction items arbitrary: off u out)
  case (Cons x xs)
  obtain f k c rs where x: "x = (f, k, c, rs)" by (cases x)
  obtain area where fr: "frame_ok crc c area rs" "stream_frame crc c area rs = Some f"
    using Cons.prems(1) by (auto simp: x item_ok_def)
  have ok: "list_all record_ok rs" "length area = pair_blocks rs" using fr(1) by (simp_all add: frame_ok_def)
  have "12 + pair_blocks rs \<le> length f"
    using stream_frame_eq [OF fr(1), unfolded fr(2), symmetric] ok(2) by auto
  then have lt: "off + 12 + pair_blocks rs < 2 ^ 63" using Cons.prems(2) by (simp add: x)
  have ut: "u + unpacked rs < 2 ^ 64" using Cons.prems(3) by (simp add: x)
  have so: "checked_add64 (of_nat off) (of_nat STREAM_HEADER_SIZE) = Some (of_nat (off + 12))"
    unfolding checked_add64_iff using lt by (subst (1 2 3) unat_of_nat64) (simp_all add: STREAM_HEADER_SIZE_def)
  have uo: "unat (of_nat (off + 12) :: u64) = off + 12" using lt by (intro unat_of_nat64) simp
  have b: "xi_blocks (si_index (index_of_frame off (length f) c crc rs)) (of_nat off) = Some (block_entries (off + 12) 0 rs)"
    unfolding xi_blocks_def index_of_frame_def stream_index.select_convs xz_index.select_convs so bind.bind_lunit
    using blocks_loop_entries [OF ok(1), of "of_nat (off + 12)" 0] lt ut unfolding uo by simp
  have r: "rebase so' (of_nat u) (block_entries (off + 12) 0 rs) = Inr (block_entries (off + 12) u rs)" for so'
    using rebase_entries [of u 0 rs] ut by simp
  have s: "xi_uncompressed_size (si_index (index_of_frame off (length f) c crc rs)) = Some (of_nat (unpacked rs))"
    using sizes_total [of 0 rs] ut by (simp add: xi_uncompressed_size_def index_of_frame_def)
  have a: "checked_add64 (of_nat u) (of_nat (unpacked rs)) = Some (of_nat (u + unpacked rs))"
    unfolding checked_add64_iff using ut by (subst (1 2 3) unat_of_nat64) simp_all
  have ih: "block_loop (stream_entries crc (off + length (item_bytes x)) xs) (of_nat (u + unpacked rs)) (out @ block_entries (off + 12) u rs) =
      Inr ((out @ block_entries (off + 12) u rs) @ file_blocks (off + length (item_bytes x)) (u + unpacked rs) xs)"
    using Cons.prems by (intro Cons.IH) (simp_all add: x add.assoc)
  have o: "si_stream_offset (index_of_frame off (length f) c crc rs) = of_nat off" by (simp add: index_of_frame_def)
  show ?case
    unfolding x stream_entries.simps file_blocks.simps prod.case block_loop.simps o b or_err_Some res_bind_simps r s option.case a ih [unfolded x]
    by simp
qed simp

lemma block_table_items:
  assumes "items \<noteq> []" "list_all (item_ok alloc_ok crc limit) items" "length (concat (map item_bytes items)) < 2 ^ 63"
    and "(\<Sum>x\<leftarrow>items. unpacked (snd (snd (snd x)))) < 2 ^ 64"
  shows "block_table alloc_ok crc (concat (map item_bytes items)) limit = Inr (file_blocks 0 0 items)"
proof -
  have "stream_table alloc_ok crc (concat (map item_bytes items)) limit = Inr (stream_entries crc 0 items)"
    unfolding stream_table_iff [OF assms(3)] using assms(1,2) by blast
  then show ?thesis using block_loop_items [OF assms(2), of 0 0 "[]"] assms(3,4) by (simp add: block_table_def)
qed

end
