(* ===== verification/XzConv.thy ===== *)
theory XzConv
  imports XzFilter
begin

text \<open>
  The converter chain of \<open>xz/filter.rs\<close> against an abstract pipeline of list functions: the in-place buffer
  of \<open>run_buffer\<close>, with its tails copied in front of the data, computes the pipeline, and no byte is
  lost or made up.
\<close>

subsection \<open>One converter\<close>

definition converter_ok :: "conv \<Rightarrow> bool" where
  "converter_ok c = (case c of ConvDelta d \<Rightarrow> delta_inv d | ConvBcj b \<Rightarrow> True)"

definition stage_ok :: "stage \<Rightarrow> bool" where
  "stage_ok s \<longleftrightarrow> converter_ok (sg_conv s) \<and> length (sg_carry s) \<le> conv_max_carry (sg_conv s)"

lemma spec_decode_length: "length (snd (spec_decode h xs)) = length xs"
  by (induction xs arbitrary: h) (simp_all add: Let_def split_def)

lemma spec_encode_length: "length (snd (spec_encode h xs)) = length xs"
  by (induction xs arbitrary: h) (simp_all add: Let_def split_def)

lemma delta_length:
  assumes "delta_inv d"
  shows "length (snd (delta_decode xs d)) = length xs" "length (snd (delta_encode xs d)) = length xs"
  using delta_decode_spec [OF assms, of xs] delta_encode_spec [OF assms, of xs]
    spec_decode_length [of "delta_history d" xs] spec_encode_length [of "delta_history d" xs] by simp_all

lemma conv_run_ok:
  assumes "converter_ok c"
  shows "\<exists>c' d n. conv_run x86 encode c data = Some (c', d, n) \<and> converter_ok c' \<and> conv_max_carry c' = conv_max_carry c \<and>
    length d = length data \<and> n \<le> length data \<and> length data \<le> n + conv_max_carry c \<and>
    (\<forall>x. c = ConvDelta x \<longrightarrow> (\<exists>y. c' = ConvDelta y) \<and> n = length data) \<and> (\<forall>x. c = ConvBcj x \<longrightarrow> (\<exists>y. c' = ConvBcj y))"
proof (cases c)
  case (ConvDelta d)
  then have "delta_inv d" using assms by (simp add: converter_ok_def)
  then show ?thesis
    using ConvDelta delta_decode_spec [of d data] delta_encode_spec [of d data] delta_length [of d data]
    by (cases encode) (auto simp: conv_run_def converter_ok_def conv_max_carry_def split_def Let_def)
next
  case (ConvBcj b)
  then show ?thesis
    using bcj_convert_ok [of x86 encode data b]
    by (cases encode) (auto simp: conv_run_def converter_ok_def conv_max_carry_def bcj_encode_def bcj_decode_def)
qed

subsection \<open>The pipeline\<close>

text \<open>A stage sees its tail and the new bytes; what is done goes on, the rest is the new tail.\<close>

definition done_len :: "bool \<Rightarrow> conv \<Rightarrow> nat \<Rightarrow> nat \<Rightarrow> nat" where
  "done_len flush c len n = (case c of ConvDelta _ \<Rightarrow> len | ConvBcj _ \<Rightarrow> (if flush then len else n))"

definition pipe_stage :: "bool \<Rightarrow> bool \<Rightarrow> bool \<Rightarrow> stage \<Rightarrow> bytes \<Rightarrow> (stage \<times> bytes) option" where
  "pipe_stage x86 flush encode s data = do {
     (c, d, n) \<leftarrow> conv_run x86 encode (sg_conv s) (sg_carry s @ data);
     let k = done_len flush c (length d) n;
     Some (s\<lparr>sg_conv := c, sg_carry := drop k d\<rparr>, take k d) }"

primrec pipe_stages :: "bool \<Rightarrow> bool \<Rightarrow> bool \<Rightarrow> stage list \<Rightarrow> bytes \<Rightarrow> (stage list \<times> bytes) option" where
  "pipe_stages x86 flush encode [] data = Some ([], data)"
| "pipe_stages x86 flush encode (s # ss) data = do {
     (s, data) \<leftarrow> pipe_stage x86 flush encode s data;
     (ss, data) \<leftarrow> pipe_stages x86 flush encode ss data;
     Some (s # ss, data) }"

abbreviation carried :: "stage list \<Rightarrow> nat" where
  "carried ss \<equiv> (\<Sum>s\<leftarrow>ss. length (sg_carry s))"

lemma pipe_stage_ok:
  assumes "stage_ok s"
  shows "\<exists>s' out. pipe_stage x86 flush encode s data = Some (s', out) \<and> stage_ok s' \<and>
    conv_max_carry (sg_conv s') = conv_max_carry (sg_conv s) \<and>
    length out + length (sg_carry s') = length data + length (sg_carry s) \<and> (flush \<longrightarrow> sg_carry s' = [])"
proof -
  obtain c d n where r: "conv_run x86 encode (sg_conv s) (sg_carry s @ data) = Some (c, d, n)"
    and c: "converter_ok c" "conv_max_carry c = conv_max_carry (sg_conv s)" "length d = length (sg_carry s @ data)"
      "n \<le> length (sg_carry s @ data)" "length (sg_carry s @ data) \<le> n + conv_max_carry (sg_conv s)"
      "\<forall>x. sg_conv s = ConvDelta x \<longrightarrow> (\<exists>y. c = ConvDelta y) \<and> n = length (sg_carry s @ data)"
      "\<forall>x. sg_conv s = ConvBcj x \<longrightarrow> (\<exists>y. c = ConvBcj y)"
    using conv_run_ok [of "sg_conv s" x86 encode "sg_carry s @ data"] assms by (auto simp: stage_ok_def)
  have k: "done_len flush c (length d) n \<le> length d" "length d \<le> done_len flush c (length d) n + conv_max_carry c"
    "flush \<longrightarrow> done_len flush c (length d) n = length d"
    using c by (auto simp: done_len_def split: conv.splits)
  then show ?thesis using r c by (auto simp: pipe_stage_def stage_ok_def Let_def)
qed

lemma pipe_stages_ok:
  assumes "list_all stage_ok ss"
  shows "\<exists>ss' out. pipe_stages x86 flush encode ss data = Some (ss', out) \<and> list_all stage_ok ss' \<and>
    map (\<lambda>s. conv_max_carry (sg_conv s)) ss' = map (\<lambda>s. conv_max_carry (sg_conv s)) ss \<and>
    length out + carried ss' = length data + carried ss \<and> (flush \<longrightarrow> list_all (\<lambda>s. sg_carry s = []) ss')"
  using assms
proof (induction ss arbitrary: data)
  case (Cons s ss)
  obtain s' d1 where s: "pipe_stage x86 flush encode s data = Some (s', d1)" "stage_ok s'"
    "conv_max_carry (sg_conv s') = conv_max_carry (sg_conv s)"
    "length d1 + length (sg_carry s') = length data + length (sg_carry s)" "flush \<longrightarrow> sg_carry s' = []"
    using pipe_stage_ok [of s x86 flush encode data] Cons.prems by auto
  obtain ss' out where "pipe_stages x86 flush encode ss d1 = Some (ss', out)" "list_all stage_ok ss'"
    "map (\<lambda>s. conv_max_carry (sg_conv s)) ss' = map (\<lambda>s. conv_max_carry (sg_conv s)) ss"
    "length out + carried ss' = length d1 + carried ss" "flush \<longrightarrow> list_all (\<lambda>s. sg_carry s = []) ss'"
    using Cons.IH [of d1] Cons.prems by auto
  then show ?case using s by (auto intro!: exI [of _ "s' # ss'"])
qed simp

subsection \<open>The buffer\<close>

lemma run_stage_eq:
  assumes "stage_ok s" "length (sg_carry s) \<le> start" "start + length data \<le> length buf" "take (length data) (drop start buf) = data"
    and p: "pipe_stage x86 flush encode s data = Some (s', out)"
  shows "\<exists>buf'. run_stage x86 flush encode s start buf (length data) = Some (s', start - length (sg_carry s), buf', length out) \<and>
    length buf' = length buf \<and> take (length out) (drop (start - length (sg_carry s)) buf') = out"
proof -
  define st where "st = start - length (sg_carry s)"
  define all where "all = sg_carry s @ data"
  define buf1 where "buf1 = take st buf @ all @ drop (start + length data) buf"
  have st: "st + length (sg_carry s) = start" using assms(2) by (simp add: st_def)
  have d: "drop start buf = data @ drop (start + length data) buf"
    using assms(4) by (metis append_take_drop_id drop_drop add.commute)
  have b1: "(if length (sg_carry s) \<noteq> 0 then copy_into buf st (sg_carry s) else Some buf) = Some buf1"
  proof (cases "sg_carry s = []")
    case True
    then show ?thesis using st d by (simp add: buf1_def all_def) (metis append_take_drop_id)
  next
    case False
    then show ?thesis using st d assms(3) by (simp add: copy_into_def buf1_def all_def)
  qed
  have len: "length all = length data + length (sg_carry s)" by (simp add: all_def)
  have lst: "length (take st buf) = st" using st assms(3) by simp
  have sl: "slice buf1 st (st + (length data + length (sg_carry s))) = Some all"
    using lst assms(3) st len by (simp add: buf1_def)
  obtain c d n where r: "conv_run x86 encode (sg_conv s) all = Some (c, d, n)" and ld: "length d = length all"
      and n: "n \<le> length all"
    using conv_run_ok [of "sg_conv s" x86 encode all] assms(1) by (auto simp: stage_ok_def)
  define k where "k = done_len flush c (length d) n"
  have k: "k \<le> length d" using n ld by (auto simp: k_def done_len_def split: conv.splits)
  have so: "s' = s\<lparr>sg_conv := c, sg_carry := drop k d\<rparr>" "out = take k d"
    using p r by (simp_all add: pipe_stage_def all_def [symmetric] k_def Let_def)
  define buf2 where "buf2 = take st buf @ d @ drop (start + length data) buf"
  have c2: "copy_into buf1 st d = Some buf2"
    using lst ld assms(3) st len by (simp add: copy_into_def buf1_def buf2_def)
  have kk: "(case c of ConvDelta _ \<Rightarrow> length data + length (sg_carry s) | ConvBcj _ \<Rightarrow> (if flush then length data + length (sg_carry s) else n)) = k"
    using ld len by (simp add: k_def done_len_def)
  have tl: "slice buf2 (st + k) (st + (length data + length (sg_carry s))) = Some (drop k d)"
    using lst k ld len assms(3) st by (simp add: buf2_def)
  have run: "run_stage x86 flush encode s start buf (length data) = Some (s', st, buf2, k)"
    unfolding run_stage_def Let_def st_def [symmetric] b1 bind.bind_lunit sl r c2 kk prod.case tl so(1)
    using assms(2) by simp
  have "length buf2 = length buf" using lst ld len assms(3) st by (simp add: buf2_def)
  moreover have "take k (drop st buf2) = out" using lst k by (simp add: buf2_def so(2))
  moreover have "length out = k" using k by (simp add: so(2))
  ultimately show ?thesis using run by (auto simp: st_def)
qed

lemma run_stages_eq:
  assumes "list_all stage_ok ss" "carried ss \<le> start" "start + length data \<le> length buf" "take (length data) (drop start buf) = data"
    and "pipe_stages x86 flush encode ss data = Some (ss', out)"
  shows "\<exists>buf'. run_stages x86 flush encode ss start buf (length data) = Some (ss', buf', length out) \<and>
    length buf' = length buf \<and> take (length out) (drop (start - carried ss) buf') = out"
  using assms
proof (induction ss arbitrary: start buf data ss')
  case (Cons s ss)
  obtain s1 d1 ss1 where s: "pipe_stage x86 flush encode s data = Some (s1, d1)"
    and ss: "pipe_stages x86 flush encode ss d1 = Some (ss1, out)" and ss': "ss' = s1 # ss1"
    using Cons.prems(5) by (auto split: bind_splits)
  have ok: "stage_ok s" "length (sg_carry s) \<le> start" using Cons.prems(1,2) by simp_all
  obtain buf1 where r: "run_stage x86 flush encode s start buf (length data) = Some (s1, start - length (sg_carry s), buf1, length d1)"
    and b1: "length buf1 = length buf" "take (length d1) (drop (start - length (sg_carry s)) buf1) = d1"
    using run_stage_eq [OF ok Cons.prems(3,4) s] by blast
  have "length d1 \<le> length (sg_carry s) + length data" using pipe_stage_ok [OF ok(1), of x86 flush encode data] s by auto
  then have "start - length (sg_carry s) + length d1 \<le> length buf1" using ok(2) Cons.prems(3) b1(1) by linarith
  note ih = Cons.IH [OF _ _ this b1(2) ss]
  have "list_all stage_ok ss" "carried ss \<le> start - length (sg_carry s)" using Cons.prems(1,2) by simp_all
  from ih [OF this] obtain buf' where
    "run_stages x86 flush encode ss (start - length (sg_carry s)) buf1 (length d1) = Some (ss1, buf', length out) \<and>
     length buf' = length buf1 \<and> take (length out) (drop (start - length (sg_carry s) - carried ss) buf') = out" ..
  then show ?case using r b1(1) by (simp add: ss')
qed auto

subsection \<open>The converters as a whole\<close>

definition converters_ok :: "converters \<Rightarrow> bool" where
  "converters_ok cv \<longleftrightarrow> list_all stage_ok (cv_stages cv)"

definition stage_order :: "bool \<Rightarrow> 'a list \<Rightarrow> 'a list" where
  "stage_order encode xs = (if encode then rev xs else xs)"

lemma stage_order_simps [simp]:
  "list_all P (stage_order e xs) = list_all P xs" "stage_order e (stage_order e xs) = xs"
  "sum_list (stage_order e ns) = sum_list (ns :: nat list)"
  "map g (stage_order e xs) = stage_order e (map g xs)"
  by (simp_all add: stage_order_def list_all_iff rev_map sum_list_rev)

lemma carried_le_max: "list_all stage_ok ss \<Longrightarrow> carried ss \<le> (\<Sum>s\<leftarrow>ss. conv_max_carry (sg_conv s))"
  by (induction ss) (auto simp: stage_ok_def intro: add_mono)

lemma run_buffer_eq:
  assumes "converters_ok cv" "carried (cv_stages cv) + length data \<le> length buf"
    and "take (length data) (drop (carried (cv_stages cv)) buf) = data"
    and p: "pipe_stages x86 flush encode (stage_order encode (cv_stages cv)) data = Some (ss, out)"
  shows "\<exists>buf'. run_buffer x86 cv buf (length data) flush encode = Some (cv\<lparr>cv_stages := stage_order encode ss\<rparr>, buf', length out) \<and>
    length buf' = length buf \<and> take (length out) buf' = out"
proof -
  have "list_all stage_ok (stage_order encode (cv_stages cv))" "carried (stage_order encode (cv_stages cv)) = carried (cv_stages cv)"
    using assms(1) by (simp_all add: converters_ok_def)
  from run_stages_eq [OF this(1) _ _ _ p, of "carried (cv_stages cv)" buf] this(2) assms(2,3)
  obtain buf' where "run_stages x86 flush encode (stage_order encode (cv_stages cv)) (carried (cv_stages cv)) buf (length data) = Some (ss, buf', length out)"
      "length buf' = length buf" "take (length out) buf' = out" by auto
  then show ?thesis
    by (simp add: run_buffer_def carried_bytes_def o_def Let_def stage_order_def split: if_splits)
qed

lemma converters_run_eq:
  assumes "converters_ok cv"
    and p: "pipe_stages x86 flush encode (stage_order encode (cv_stages cv)) data = Some (ss, o')"
  shows "\<exists>scratch. converters_run x86 cv data out flush encode =
    Some (\<lparr>cv_stages = stage_order encode ss, cv_scratch = scratch\<rparr>, out @ o')"
proof -
  define room where "room = length data + converters_max_carry cv"
  define cur where "cur = (if length (cv_scratch cv) < room then cv_scratch cv @ replicate (room - length (cv_scratch cv)) 0 else cv_scratch cv)"
  define st where "st = carried (cv_stages cv)"
  have st: "carried_bytes cv = st" by (simp add: carried_bytes_def st_def o_def)
  have "st \<le> converters_max_carry cv"
    using carried_le_max assms(1) by (simp add: converters_ok_def converters_max_carry_def o_def st_def)
  then have le: "st + length data \<le> length cur" by (simp add: cur_def room_def)
  define buf where "buf = take st cur @ data @ drop (st + length data) cur"
  have c: "copy_into cur st data = Some buf" using le by (simp add: copy_into_def buf_def)
  have lb: "length buf = length cur" using le by (simp add: buf_def)
  have "carried (cv_stages (cv\<lparr>cv_scratch := []\<rparr>)) + length data \<le> length buf"
      "take (length data) (drop (carried (cv_stages (cv\<lparr>cv_scratch := []\<rparr>))) buf) = data"
    using le lb by (simp_all add: st_def [symmetric]) (simp add: buf_def)
  moreover have "converters_ok (cv\<lparr>cv_scratch := []\<rparr>)" using assms(1) by (simp add: converters_ok_def)
  ultimately obtain buf' where r: "run_buffer x86 (cv\<lparr>cv_scratch := []\<rparr>) buf (length data) flush encode =
      Some (cv\<lparr>cv_scratch := [], cv_stages := stage_order encode ss\<rparr>, buf', length o')"
      "length buf' = length buf" "take (length o') buf' = o'"
    using run_buffer_eq [of "cv\<lparr>cv_scratch := []\<rparr>" data buf x86 flush encode ss o'] p by auto
  have lo: "length o' \<le> length buf'"
    using arg_cong [OF r(3), of length] by simp
  show ?thesis
    unfolding converters_run_def Let_def room_def [symmetric] cur_def [symmetric] st c bind.bind_lunit r(1) prod.case
    using r(3) lo by (cases cv) (auto simp: slice_def)
qed

lemma converters_run_ok:
  assumes "converters_ok cv"
  shows "\<exists>ss o' scratch. pipe_stages x86 flush encode (stage_order encode (cv_stages cv)) data = Some (ss, o') \<and>
    converters_run x86 cv data out flush encode = Some (\<lparr>cv_stages = stage_order encode ss, cv_scratch = scratch\<rparr>, out @ o') \<and>
    list_all stage_ok ss \<and> length o' + carried ss = length data + carried_bytes cv \<and> (flush \<longrightarrow> carried ss = 0)"
proof -
  have ok: "list_all stage_ok (stage_order encode (cv_stages cv))" using assms by (simp add: converters_ok_def)
  obtain ss o' where p: "pipe_stages x86 flush encode (stage_order encode (cv_stages cv)) data = Some (ss, o')" "list_all stage_ok ss"
      "length o' + carried ss = length data + carried (stage_order encode (cv_stages cv))" "flush \<longrightarrow> list_all (\<lambda>s. sg_carry s = []) ss"
    using pipe_stages_ok [OF ok, of x86 flush encode data] by auto
  have f: "flush \<longrightarrow> carried ss = 0" using p(4) by (induction ss) auto
  have "carried (stage_order encode (cv_stages cv)) = carried_bytes cv" by (simp add: carried_bytes_def o_def)
  then show ?thesis using converters_run_eq [OF assms p(1), of out] p f by auto
qed

lemma build_stages_ok: "build_stages fs = Inr ss \<Longrightarrow> list_all stage_ok ss \<and> carried ss = 0"
proof (induction fs arbitrary: ss)
  case (Cons f fs)
  obtain c ss' where c: "(if ff_id f = FILTER_DELTA then map_sum id ConvDelta (delta_new (ff_props f ! 0))
            else case from_filter_id (ff_id f) of None \<Rightarrow> Inl UnsupportedFilter
              | Some kind \<Rightarrow> map_sum id ConvBcj (bcj_new kind (start_offset f))) = Inr c"
    and ss: "build_stages fs = Inr ss'" "ss = \<lparr>sg_conv = c, sg_carry = []\<rparr> # ss'"
    using Cons.prems by (simp split: sum.splits)
  have "converter_ok c"
    using c by (auto simp: converter_ok_def map_sum_def split: if_splits option.splits sum.splits dest: delta_new_inv)
  then show ?case using Cons.IH [OF ss(1)] ss(2) by (simp add: stage_ok_def)
qed simp

lemma chain_build_ok: "chain_build c = Inr cv \<Longrightarrow> converters_ok cv \<and> carried_bytes cv = 0"
  using build_stages_ok [of "fc_converters c"]
  by (auto simp: chain_build_def converters_ok_def carried_bytes_def o_def split: sum.splits)

end
