(* ===== verification/XzFile.thy ===== *)
theory XzFile
  imports XzEnc XzSeek XzConv
begin

text \<open>
  What the writer of \<open>enc/xz_enc.rs\<close> makes of its input, whatever the block size and the number of threads:
  one stream frame over the blocks of the input cut at the block size, each the block that \<open>block_of\<close>
  describes. Then the reader's tables find those blocks again.
\<close>

subsection \<open>The block of a piece of input\<close>

definition filtered :: "bool \<Rightarrow> filter_flags list \<Rightarrow> u8 \<Rightarrow> bytes \<Rightarrow> bytes" where
  "filtered x86 filters dp d = (case filter_data x86 (\<lambda>_. True) filters dp d of Some (Inr x) \<Rightarrow> x | _ \<Rightarrow> [])"

definition block_of :: "bool \<Rightarrow> digests \<Rightarrow> (bytes \<Rightarrow> bytes) \<Rightarrow> check_type \<Rightarrow> filter_flags list \<Rightarrow> u8 \<Rightarrow> bytes \<Rightarrow> block" where
  "block_of x86 dg pack c filters dp d =
     (let packed = pack (filtered x86 filters dp d);
          header = header_block (dg_crc32 dg) filters dp (Some (of_nat (length packed), of_nat (length d)))
      in \<lparr>bk_header = header, bk_compressed = packed, bk_check = (case check_bytes dg c d of Some b \<Rightarrow> b | None \<Rightarrow> []),
          bk_unpadded = length header + length packed + check_size c, bk_uncompressed = of_nat (length d)\<rparr>)"

definition block_image :: "block \<Rightarrow> bytes" where
  "block_image b = bk_header b @ pad_to_four (bk_compressed b) (length (bk_compressed b)) @ bk_check b"

definition block_record :: "block \<Rightarrow> u64 \<times> u64" where
  "block_record b = (of_nat (bk_unpadded b), bk_uncompressed b)"

text \<open>What the writer relies on: an LZMA2 encoder whose output is a function of its input, is never empty and has
  a length of 62 bits; a SHA-256 of 32 bytes.\<close>

definition l2_packs :: "('e, 'p) lzma2_ops \<Rightarrow> (bytes \<Rightarrow> bytes) \<Rightarrow> bool" where
  "l2_packs ops pack \<longleftrightarrow> (\<forall>e n d. snd (l2_encode ops e n d) = Inr (pack d)) \<and> (\<forall>d. pack d \<noteq> [] \<and> length (pack d) < 2 ^ 62)"

definition digests_ok :: "digests \<Rightarrow> bool" where
  "digests_ok dg \<longleftrightarrow> (\<forall>h d. dg_sha256 dg = Some h \<longrightarrow> length (h d) = 32)"

definition settings_ok :: "digests \<Rightarrow> check_type \<Rightarrow> filter_flags list \<Rightarrow> u8 \<Rightarrow> filter_chain \<Rightarrow> bool" where
  "settings_ok dg c filters dp chain \<longleftrightarrow> digests_ok dg \<and> check_supported dg c \<and> list_all filter_wf filters \<and>
     chain_validate (filters @ [lzma2_filter dp]) = Inr chain"

subsection \<open>The filters of a valid chain\<close>

lemma check_rest_build: "check_rest fs = None \<Longrightarrow> \<exists>ss. build_stages fs = Inr ss"
proof (induction fs)
  case (Cons f fs)
  then obtain ss where ss: "build_stages fs = Inr ss" by (auto split: if_splits option.splits)
  show ?case
  proof (cases "ff_id f = FILTER_DELTA")
    case True
    then show ?thesis using ss by (simp add: delta_new_def)
  next
    case False
    then obtain kind where "from_filter_id (ff_id f) = Some kind" "start_offset f mod alignment kind = 0"
      using Cons.prems by (auto split: if_splits option.splits)
    then show ?thesis using ss False by (simp add: bcj_new_def)
  qed
qed simp

lemma check_rest_all: "check_rest fs = None \<longleftrightarrow> list_all (\<lambda>f. check_rest [f] = None) fs"
  by (induction fs) (simp_all split: option.splits)

lemma check_rest_rev: "check_rest fs = None \<Longrightarrow> check_rest (rev fs) = None"
  using check_rest_all [of fs] check_rest_all [of "rev fs"] by simp

lemma validate_build:
  assumes "chain_validate fs = Inr chain"
  shows "\<exists>cv. chain_build chain = Inr cv \<and> converters_ok cv"
proof -
  have "check_rest (butlast fs) = None" "fc_converters chain = rev (butlast fs)"
    using assms by (auto simp: chain_validate_def Let_def split: if_splits option.splits)
  then obtain ss where "build_stages (fc_converters chain) = Inr ss" using check_rest_build [OF check_rest_rev] by metis
  then show ?thesis using chain_build_ok [of chain] by (simp add: chain_build_def)
qed

lemma run_whole_ok:
  "list_all stage_ok ss \<Longrightarrow> \<exists>ss' out. run_whole x86 e ss data = Some (ss', out) \<and> length out = length data"
proof (induction ss arbitrary: data)
  case (Cons s ss)
  obtain c d n where r: "conv_run x86 e (sg_conv s) data = Some (c, d, n)" "length d = length data"
    using conv_run_ok [of "sg_conv s" x86 e data] Cons.prems by (auto simp: stage_ok_def)
  obtain ss' out where "run_whole x86 e ss d = Some (ss', out)" "length out = length d" using Cons.IH [of d] Cons.prems by auto
  then show ?case using r by auto
qed simp

lemma filter_data_ok:
  assumes "chain_validate (filters @ [lzma2_filter dp]) = Inr chain"
  shows "filter_data x86 (\<lambda>_. True) filters dp d = Some (Inr (filtered x86 filters dp d)) \<and> length (filtered x86 filters dp d) = length d"
proof (cases "filters = []")
  case True
  then show ?thesis by (simp add: filter_data_def filtered_def)
next
  case False
  obtain cv where cv: "chain_build chain = Inr cv" "converters_ok cv" using validate_build [OF assms] by blast
  then have "list_all stage_ok (rev (cv_stages cv))" by (simp add: converters_ok_def)
  from run_whole_ok [OF this] obtain ss' out where "run_whole x86 True (rev (cv_stages cv)) d = Some (ss', out)" "length out = length d"
    by blast
  then have "filter_data x86 (\<lambda>_. True) filters dp d = Some (Inr out)"
    using False assms cv(1) by (simp add: filter_data_def chain_for_props_def encode_in_place_def)
  then show ?thesis using \<open>length out = length d\<close> by (simp add: filtered_def)
qed

lemma check_bytes_ok:
  assumes "digests_ok dg" "check_supported dg c"
  shows "\<exists>b. check_bytes dg c d = Some b \<and> length b = check_size c"
    and "check_size c mod 4 = 0" "check_size c \<le> 32" "check_ok c"
  using assms by (auto simp: check_bytes_def check_supported_def check_size_def digests_ok_def check_ok_def check_from_id_def
      split: check_type.splits)

subsection \<open>One block\<close>


lemma compress_block_eq:
  assumes ok: "settings_ok dg c filters dp chain" and p: "l2_packs ops pack" and d: "length d < 2 ^ 62"
  shows "\<exists>e'. compress_block x86 (\<lambda>_. True) dg ops e c filters dp d = Some (e', Inr (block_of x86 dg pack c filters dp d))"
proof -
  define x where "x = filtered x86 filters dp d"
  have set: "digests_ok dg" "check_supported dg c" "list_all filter_wf filters" "chain_validate (filters @ [lzma2_filter dp]) = Inr chain"
    using ok by (simp_all add: settings_ok_def)
  obtain b where b: "check_bytes dg c d = Some b" using check_bytes_ok(1) [OF set(1,2)] by blast
  have f: "filter_data x86 (\<lambda>_. True) filters dp d = Some (Inr x)" using filter_data_ok [OF set(4)] by (simp add: x_def)
  obtain e' where e: "l2_encode ops e (of_nat (length d)) x = (e', Inr (pack x))"
    using p by (metis l2_packs_def prod.collapse)
  define sizes where "sizes = Some ((of_nat (length (pack x)) :: u64), (of_nat (length d) :: u64))"
  have "pack x \<noteq> []" "length (pack x) < 2 ^ 62" using p by (simp_all add: l2_packs_def)
  moreover from this have "unat (of_nat (length (pack x)) :: u64) = length (pack x)" "unat (of_nat (length d) :: u64) = length d"
    using d by (auto intro!: unat_of_nat64)
  ultimately have "sizes_ok sizes" using d by (auto simp: sizes_def VLI_MAX_nat simp flip: unat_eq_0)
  from write_block_header_eq [OF set(3) this chain_validate_length [OF set(4)], of "\<lambda>_. True" "dg_crc32 dg" dp]
  have h: "write_block_header (\<lambda>_. True) (dg_crc32 dg) filters dp sizes = Some (Inr (header_block (dg_crc32 dg) filters dp sizes))" by simp
  show ?thesis
    unfolding compress_block_def Let_def compute_check_def b f option.case sum.case bind.bind_lunit e prod.case sizes_def [symmetric] h
    by (simp add: block_of_def Let_def b x_def sizes_def)
qed

lemma length_pad_to_four: "length (pad_to_four xs n) = length xs + (next_multiple_of n 4 - n)"
  by (simp add: pad_to_four_def)

lemma block_of_ok:
  assumes ok: "settings_ok dg c filters dp chain" and p: "l2_packs ops pack" and d: "length d < 2 ^ 62"
  shows "record_ok (block_record (block_of x86 dg pack c filters dp d))"
    and "length (block_image (block_of x86 dg pack c filters dp d)) = padded (fst (block_record (block_of x86 dg pack c filters dp d)))"
    and "unat (snd (block_record (block_of x86 dg pack c filters dp d))) = length d"
proof -
  define b where "b = block_of x86 dg pack c filters dp d"
  define x where "x = pack (filtered x86 filters dp d)"
  define sizes where "sizes = Some ((of_nat (length x) :: u64), (of_nat (length d) :: u64))"
  have set: "digests_ok dg" "check_supported dg c" "list_all filter_wf filters" "chain_validate (filters @ [lzma2_filter dp]) = Inr chain"
    using ok by (simp_all add: settings_ok_def)
  note l3 = chain_validate_length [OF set(4)]
  have x: "x \<noteq> []" "length x < 2 ^ 62" using p by (simp_all add: l2_packs_def x_def)
  have u: "unat (of_nat (length x) :: u64) = length x" "unat (of_nat (length d) :: u64) = length d"
    using d x by (auto intro!: unat_of_nat64)
  then have so: "sizes_ok sizes" using d x by (auto simp: sizes_def VLI_MAX_nat simp flip: unat_eq_0)
  obtain k where k: "check_bytes dg c d = Some k" "length k = check_size c" using check_bytes_ok(1) [OF set(1,2)] by blast
  have cs: "check_size c mod 4 = 0" "check_size c \<le> 32" using check_bytes_ok(2,3) [OF set(1,2)] by auto
  note h = length_header_block [OF set(3) so l3]
  define hl where "hl = block_header_size filters sizes"
  have b: "bk_unpadded b = hl + length x + check_size c" "length (bk_header b) = hl" "bk_compressed b = x" "bk_check b = k"
      "bk_uncompressed b = of_nat (length d)"
    using h(1) by (simp_all add: b_def block_of_def Let_def x_def [symmetric] sizes_def [symmetric] k hl_def)
  have hl: "hl \<le> 112" "hl mod 4 = 0" "12 \<le> hl" using h(2-4) by (simp_all add: hl_def)
  have lt: "bk_unpadded b < 2 ^ 63" using x hl cs b(1) by simp
  then have ub: "unat (fst (block_record b)) = bk_unpadded b" unfolding block_record_def by (simp add: unat_of_nat64)
  have "5 \<le> fst (block_record b)" unfolding word_le_nat_alt ub using b(1) hl by simp
  moreover have "fst (block_record b) \<le> VLI_MAX" unfolding VLI_MAX_nat ub by (rule lt)
  moreover have "snd (block_record b) \<le> VLI_MAX" unfolding VLI_MAX_nat block_record_def using u(2) d by (simp add: b(5))
  ultimately show "record_ok (block_record (block_of x86 dg pack c filters dp d))" by (simp add: record_ok_def b_def)
  show "unat (snd (block_record (block_of x86 dg pack c filters dp d))) = length d" using u(2) by (simp add: block_record_def b(5) flip: b_def)
  have "length (block_image b) = hl + next_multiple_of (length x) 4 + check_size c"
    using next_multiple_of_4 [of "length x"] by (simp add: block_image_def b length_pad_to_four k)
  also have "\<dots> = padded (fst (block_record b))"
    unfolding padded_def ub b(1) using hl(2) cs(1) by (simp add: next_multiple_of_def) presburger
  finally show "length (block_image (block_of x86 dg pack c filters dp d)) = padded (fst (block_record (block_of x86 dg pack c filters dp d)))"
    by (simp add: b_def)
qed

subsection \<open>The blocks of the output\<close>

text \<open>The state of a writer that has taken the pieces \<open>bl\<close> as blocks: some are in the output with their records,
  the rest waits in the queue.\<close>

definition settings :: "('e, 'p) xz_encoder \<Rightarrow> check_type \<Rightarrow> filter_flags list \<Rightarrow> u8 \<Rightarrow> u64 \<Rightarrow> nat \<Rightarrow> bool" where
  "settings s c filters dp n t \<longleftrightarrow> en_check s = c \<and> en_filters s = filters \<and> en_dict_prop s = dp \<and> en_block_size s = n \<and>
     en_threads s = t \<and> en_stream s = None \<and> \<not> en_finished s \<and> \<not> en_may_stream s"

definition writer_inv ::
    "bool \<Rightarrow> digests \<Rightarrow> (bytes \<Rightarrow> bytes) \<Rightarrow> check_type \<Rightarrow> filter_flags list \<Rightarrow> u8 \<Rightarrow> u64 \<Rightarrow> nat \<Rightarrow> bytes list \<Rightarrow> bytes list \<Rightarrow>
     ('e, 'p) xz_encoder \<Rightarrow> bool" where
  "writer_inv x86 dg pack c filters dp n t written bl s \<longleftrightarrow>
     settings s c filters dp n t \<and> en_lzma2 s \<noteq> None \<and> bl = written @ en_queue s \<and>
     en_out s = write_stream_header (dg_crc32 dg) c [] @ concat (map (block_image \<circ> block_of x86 dg pack c filters dp) written) \<and>
     en_records s = map (block_record \<circ> block_of x86 dg pack c filters dp) written"

lemma append_block_ok:
  "append_block (\<lambda>_. True) b s =
     Some (s\<lparr>en_out := en_out s @ block_image b, en_records := en_records s @ [block_record b]\<rparr>, Inr ())"
  by (simp add: append_block_def Let_def block_image_def block_record_def pad_to_four_def)

lemma append_all_ok:
  "append_all (\<lambda>_. True) (map Inr bs) s =
     Some (s\<lparr>en_out := en_out s @ concat (map block_image bs), en_records := en_records s @ map block_record bs\<rparr>, Inr ())"
  by (induction bs arbitrary: s) (simp_all add: append_block_ok)

lemma fill_pool_ok:
  "l2_new ops = Inr e \<Longrightarrow> fill_pool (\<lambda>_. True) ops n s = Some (s\<lparr>en_pool := en_pool s @ replicate n e\<rparr>, Inr ())"
  by (induction n arbitrary: s) simp_all

lemma compress_all_ok:
  assumes ok: "settings_ok dg c filters dp chain" and p: "l2_packs ops pack"
  shows "length queue \<le> length pool \<Longrightarrow> list_all (\<lambda>d. length d < 2 ^ 62) queue \<Longrightarrow>
    \<exists>pool'. compress_all x86 (\<lambda>_. True) dg ops c filters dp pool queue =
      Some (pool', map (Inr \<circ> block_of x86 dg pack c filters dp) queue)"
proof (induction queue arbitrary: pool)
  case Nil
  then show ?case by (cases pool) simp_all
next
  case (Cons d queue)
  then obtain e pool' where pool: "pool = e # pool'" by (cases pool) auto
  obtain e' where "compress_block x86 (\<lambda>_. True) dg ops e c filters dp d = Some (e', Inr (block_of x86 dg pack c filters dp d))"
    using compress_block_eq [OF ok p, of d x86 e] Cons.prems(2) by auto
  moreover obtain pool'' where "compress_all x86 (\<lambda>_. True) dg ops c filters dp pool' queue =
      Some (pool'', map (Inr \<circ> block_of x86 dg pack c filters dp) queue)"
    using Cons.IH [of pool'] Cons.prems by (auto simp: pool)
  ultimately show ?case by (simp add: pool)
qed

lemma flush_queue_ok:
  assumes ok: "settings_ok dg c filters dp chain" and p: "l2_packs ops pack" "l2_new ops = Inr e0"
    and inv: "writer_inv x86 dg pack c filters dp n t written bl s" and l: "list_all (\<lambda>d. length d < 2 ^ 62) bl"
  shows "\<exists>s'. flush_queue x86 (\<lambda>_. True) dg ops s = Some (s', Inr ()) \<and> writer_inv x86 dg pack c filters dp n t bl bl s' \<and>
    en_pending s' = en_pending s"
proof (cases "en_queue s = []")
  case True
  then show ?thesis using inv by (simp add: flush_queue_def compress_queue_def writer_inv_def)
next
  case False
  define w where "w = length (en_queue s) - length (en_pool s)"
  define s1 where "s1 = s\<lparr>en_pool := en_pool s @ replicate w e0\<rparr>"
  have "length (en_queue s) \<le> length (en_pool s1)" by (simp add: s1_def w_def)
  moreover have "list_all (\<lambda>d. length d < 2 ^ 62) (en_queue s)" using inv l by (simp add: writer_inv_def)
  ultimately obtain pool' where "compress_all x86 (\<lambda>_. True) dg ops c filters dp (en_pool s1) (en_queue s) =
      Some (pool', map (Inr \<circ> block_of x86 dg pack c filters dp) (en_queue s))"
    using compress_all_ok [OF ok p(1)] by blast
  moreover have "en_check s = c" "en_filters s = filters" "en_dict_prop s = dp" using inv by (simp_all add: writer_inv_def settings_def)
  ultimately have "compress_queue x86 (\<lambda>_. True) dg ops s =
      Some (s1\<lparr>en_queue := [], en_pool := pool'\<rparr>, Inr (map (Inr \<circ> block_of x86 dg pack c filters dp) (en_queue s)))"
    using False by (simp add: compress_queue_def fill_pool_ok [OF p(2)] w_def s1_def Let_def)
  then have "flush_queue x86 (\<lambda>_. True) dg ops s =
      Some (s1\<lparr>en_queue := [], en_pool := pool', en_out := en_out s @ concat (map block_image (map (block_of x86 dg pack c filters dp) (en_queue s))),
        en_records := en_records s @ map block_record (map (block_of x86 dg pack c filters dp) (en_queue s))\<rparr>, Inr ())"
    using append_all_ok [of "map (block_of x86 dg pack c filters dp) (en_queue s)" "s1\<lparr>en_queue := [], en_pool := pool'\<rparr>"]
    by (simp add: flush_queue_def s1_def o_def)
  then show ?thesis using inv by (simp add: writer_inv_def settings_def s1_def o_def)
qed

lemma block_ready_ok:
  assumes ok: "settings_ok dg c filters dp chain" and p: "l2_packs ops pack" "l2_new ops = Inr e0"
    and inv: "writer_inv x86 dg pack c filters dp n t written bl s" and l: "list_all (\<lambda>d. length d < 2 ^ 62) (bl @ [en_pending s])"
    and t1: "t \<le> 1 \<longrightarrow> written = bl"
  shows "\<exists>s' written'. block_ready x86 (\<lambda>_. True) dg ops s = Some (s', Inr ()) \<and>
    writer_inv x86 dg pack c filters dp n t written' (bl @ [en_pending s]) s' \<and> en_pending s' = [] \<and> (t \<le> 1 \<longrightarrow> written' = bl @ [en_pending s])"
proof (cases "1 < t")
  case True
  define s1 where "s1 = s\<lparr>en_queue := en_queue s @ [en_pending s], en_pending := []\<rparr>"
  have inv1: "writer_inv x86 dg pack c filters dp n t written (bl @ [en_pending s]) s1"
    using inv by (simp add: writer_inv_def settings_def s1_def)
  have t: "en_threads s = t" using inv by (simp add: writer_inv_def settings_def)
  have q: "queue_pending (\<lambda>_. True) s = Some (s1, Inr (t \<le> length (en_queue s1)))" by (simp add: queue_pending_def Let_def s1_def t)
  show ?thesis
  proof (cases "t \<le> length (en_queue s1)")
    case full: True
    obtain s2 where "flush_queue x86 (\<lambda>_. True) dg ops s1 = Some (s2, Inr ())"
        "writer_inv x86 dg pack c filters dp n t (bl @ [en_pending s]) (bl @ [en_pending s]) s2" "en_pending s2 = en_pending s1"
      using flush_queue_ok [OF ok p inv1 l] by blast
    then show ?thesis using True q full
      by (intro exI [of _ "s2\<lparr>en_pending := []\<rparr>"] exI [of _ "bl @ [en_pending s]"])
        (simp add: block_ready_def t writer_inv_def settings_def)
  next
    case False
    then show ?thesis using True q inv1
      by (intro exI [of _ s1] exI [of _ written]) (simp add: block_ready_def t s1_def)
  qed
next
  case False
  define d where "d = en_pending s"
  have set: "en_check s = c" "en_filters s = filters" "en_dict_prop s = dp" "en_threads s = t" "en_queue s = []" and w: "written = bl"
    using inv t1 False by (simp_all add: writer_inv_def settings_def)
  obtain e where e: "en_lzma2 s = Some e" using inv by (auto simp: writer_inv_def)
  obtain e' where "compress_block x86 (\<lambda>_. True) dg ops e c filters dp d = Some (e', Inr (block_of x86 dg pack c filters dp d))"
    using compress_block_eq [OF ok p(1), of d x86 e] l by (auto simp: d_def)
  then have "compress_pending x86 (\<lambda>_. True) dg ops s = Some (s\<lparr>en_pending := [], en_lzma2 := Some e'\<rparr>, Inr (block_of x86 dg pack c filters dp d))"
    by (simp add: compress_pending_def Let_def set e d_def)
  then have "block_ready x86 (\<lambda>_. True) dg ops s = Some (s\<lparr>en_pending := [], en_lzma2 := Some e',
      en_out := en_out s @ block_image (block_of x86 dg pack c filters dp d),
      en_records := en_records s @ [block_record (block_of x86 dg pack c filters dp d)]\<rparr>, Inr ())"
    using False by (simp add: block_ready_def set emit_block_def append_block_ok)
  then show ?thesis using inv w
    by (intro exI [of _ "s\<lparr>en_pending := [], en_lzma2 := Some e',
      en_out := en_out s @ block_image (block_of x86 dg pack c filters dp d),
      en_records := en_records s @ [block_record (block_of x86 dg pack c filters dp d)]\<rparr>"] exI [of _ "bl @ [d]"])
      (simp add: writer_inv_def settings_def set d_def)
qed

subsection \<open>The whole input\<close>

lemma chunks_concat:
  assumes "0 < n" "list_all (\<lambda>d. length d = n) bl" "length p < n"
  shows "chunks n (concat bl @ p) = bl @ (if p = [] then [] else [p])"
  using assms(2)
proof (induction bl)
  case Nil
  then show ?case using assms(1,3) by (simp add: chunks.simps)
next
  case (Cons d bl)
  then have d: "length d = n" "d \<noteq> []" using assms(1) by auto
  have "chunks n (concat (d # bl) @ p) = d # chunks n (concat bl @ p)"
    using d assms(1) by (subst chunks.simps) simp
  then show ?case using Cons by simp
qed

lemma length_piece: "d \<in> set bl \<Longrightarrow> length d \<le> length (concat bl)"
  by (induction bl) auto

lemma pieces_small: "length (concat bl) < 2 ^ 62 \<Longrightarrow> list_all (\<lambda>d. length d < 2 ^ 62) bl"
  using length_piece by (fastforce simp: list_all_iff)

lemma push_loop_ok:
  assumes ok: "settings_ok dg c filters dp chain" and p: "l2_packs ops pack" "l2_new ops = Inr e0"
  shows "writer_inv x86 dg pack c filters dp n t written bl s \<Longrightarrow> t \<le> 1 \<longrightarrow> written = bl \<Longrightarrow>
    list_all (\<lambda>d. length d = unat n) bl \<Longrightarrow> length (en_pending s) < unat n \<Longrightarrow>
    length (concat bl @ en_pending s @ data) < 2 ^ 62 \<Longrightarrow>
    \<exists>s' written' bl'. push_loop x86 (\<lambda>_. True) dg ops data s = Some (s', Inr ()) \<and> writer_inv x86 dg pack c filters dp n t written' bl' s' \<and>
      (t \<le> 1 \<longrightarrow> written' = bl') \<and> list_all (\<lambda>d. length d = unat n) bl' \<and> length (en_pending s') < unat n \<and>
      concat bl' @ en_pending s' = concat bl @ en_pending s @ data"
proof (induction "length data" arbitrary: data s written bl rule: less_induct)
  case less
  show ?case
  proof (cases "data = []")
    case True
    then show ?thesis using less.prems
      by (intro exI [of _ s] exI [of _ written] exI [of _ bl]) (simp add: push_loop.simps)
  next
    case False
    define k where "k = min (unat n - length (en_pending s)) (length data)"
    have k: "0 < k" "k \<le> length data" using less.prems(4) False by (auto simp: k_def)
    define s1 where "s1 = s\<lparr>en_pending := en_pending s @ take k data\<rparr>"
    have n: "en_block_size s = n" using less.prems(1) by (simp add: writer_inv_def settings_def)
    have inv1: "writer_inv x86 dg pack c filters dp n t written bl s1" using less.prems(1) by (simp add: s1_def writer_inv_def settings_def)
    have le: "length (drop k data) < length data" using k by simp
    have l1: "length (en_pending s1) = length (en_pending s) + k" using k by (simp add: s1_def)
    have tot: "concat bl @ en_pending s @ data = concat bl @ en_pending s1 @ drop k data" by (simp add: s1_def)
    show ?thesis
    proof (cases "unat n \<le> length (en_pending s1)")
      case True
      then have full: "length (en_pending s1) = unat n" using l1 less.prems(4) by (simp add: k_def min_def split: if_splits)
      have small: "list_all (\<lambda>d. length d < 2 ^ 62) (bl @ [en_pending s1])"
        using less.prems(5) unfolding tot by (intro pieces_small) simp
      obtain s2 written2 where r: "block_ready x86 (\<lambda>_. True) dg ops s1 = Some (s2, Inr ())"
        and inv2: "writer_inv x86 dg pack c filters dp n t written2 (bl @ [en_pending s1]) s2" and e: "en_pending s2 = []"
        and t2: "t \<le> 1 \<longrightarrow> written2 = bl @ [en_pending s1]"
        using block_ready_ok [OF ok p inv1 small less.prems(2)] by blast
      have "\<exists>s' written' bl'. push_loop x86 (\<lambda>_. True) dg ops (drop k data) s2 = Some (s', Inr ()) \<and> writer_inv x86 dg pack c filters dp n t written' bl' s' \<and>
          (t \<le> 1 \<longrightarrow> written' = bl') \<and> list_all (\<lambda>d. length d = unat n) bl' \<and> length (en_pending s') < unat n \<and>
          concat bl' @ en_pending s' = concat (bl @ [en_pending s1]) @ en_pending s2 @ drop k data"
        by (rule less.hyps [OF le inv2 t2]) (use less.prems e full tot in auto)
      then show ?thesis
        using False True True [unfolded l1] r e unfolding tot
        by (subst push_loop.simps) (simp add: Let_def n k_def [symmetric] s1_def [symmetric])
    next
      case part: False
      have "\<exists>s' written' bl'. push_loop x86 (\<lambda>_. True) dg ops (drop k data) s1 = Some (s', Inr ()) \<and> writer_inv x86 dg pack c filters dp n t written' bl' s' \<and>
          (t \<le> 1 \<longrightarrow> written' = bl') \<and> list_all (\<lambda>d. length d = unat n) bl' \<and> length (en_pending s') < unat n \<and>
          concat bl' @ en_pending s' = concat bl @ en_pending s1 @ drop k data"
        by (rule less.hyps [OF le inv1 less.prems(2,3)]) (use less.prems part tot in simp_all)
      then show ?thesis
        using False part part [unfolded l1] unfolding tot
        by (subst push_loop.simps) (simp add: Let_def n k_def [symmetric] s1_def [symmetric])
    qed
  qed
qed

text \<open>The file: the pieces of the input at the block size, their blocks and records.\<close>

definition file_blocks_of ::
    "bool \<Rightarrow> digests \<Rightarrow> (bytes \<Rightarrow> bytes) \<Rightarrow> check_type \<Rightarrow> filter_flags list \<Rightarrow> u8 \<Rightarrow> u64 \<Rightarrow> bytes \<Rightarrow> block list" where
  "file_blocks_of x86 dg pack c filters dp n src =
     map (block_of x86 dg pack c filters dp) (chunks (unat (if n = 0 then DEFAULT_BLOCK_SIZE else n)) src)"

lemma encoder_finish_ok:
  assumes ok: "settings_ok dg c filters dp chain" and p: "l2_packs ops pack" "l2_new ops = Inr e0"
    and inv: "writer_inv x86 dg pack c filters dp n t written bl s" and t: "t \<le> 1 \<longrightarrow> written = bl"
    and l: "length (concat bl @ en_pending s) < 2 ^ 62" "length bl < 2 ^ 62" "list_all (\<lambda>d. length d = unat n) bl" "length (en_pending s) < unat n"
    and n: "n = (if bs = 0 then DEFAULT_BLOCK_SIZE else bs)"
    and b: "b = file_blocks_of x86 dg pack c filters dp bs (concat bl @ en_pending s)"
    and f: "stream_frame (dg_crc32 dg) c (concat (map block_image b)) (map block_record b) = Some f"
  shows "\<exists>s'. encoder_finish x86 (\<lambda>_. True) dg ops s = Some (s', Inr ()) \<and> en_out s' = f"
proof -
  define last where "last = (if en_pending s = [] then [] else [en_pending s])"
  have small: "list_all (\<lambda>d. length d < 2 ^ 62) (bl @ [en_pending s])" by (rule pieces_small) (use l(1) in simp)
  have st: "en_stream s = None" "\<not> en_finished s" using inv by (simp_all add: writer_inv_def settings_def)
  obtain s1 w1 where s1: "(if en_pending s \<noteq> [] then block_ready x86 (\<lambda>_. True) dg ops s else Some (s, Inr ())) = Some (s1, Inr ())"
    and inv1: "writer_inv x86 dg pack c filters dp n t w1 (bl @ last) s1"
  proof (cases "en_pending s = []")
    case True
    then show ?thesis using that inv by (simp add: last_def)
  next
    case False
    then show ?thesis using that block_ready_ok [OF ok p inv small t] by (auto simp: last_def)
  qed
  have "list_all (\<lambda>d. length d < 2 ^ 62) (bl @ last)" using small by (simp add: last_def)
  from flush_queue_ok [OF ok p inv1 this] obtain s2 where s2: "flush_queue x86 (\<lambda>_. True) dg ops s1 = Some (s2, Inr ())"
    and inv2: "writer_inv x86 dg pack c filters dp n t (bl @ last) (bl @ last) s2" by blast
  have "chunks (unat n) (concat bl @ en_pending s) = bl @ last"
    unfolding last_def using l(3,4) by (intro chunks_concat) auto
  then have b: "b = map (block_of x86 dg pack c filters dp) (bl @ last)" unfolding b file_blocks_of_def n [symmetric] by simp
  have "en_check s2 = c" "en_out s2 = write_stream_header (dg_crc32 dg) c [] @ concat (map block_image b)" "en_records s2 = map block_record b"
    using inv2 by (simp_all add: writer_inv_def settings_def b o_def)
  then obtain o1 where "write_index (dg_crc32 dg) (en_records s2) (en_out s2) = Some o1"
      "write_footer (dg_crc32 dg) (en_check s2) (index_size (en_records s2)) o1 = Some f"
    using f by (auto simp: stream_frame_def Let_def split: bind_splits)
  then show ?thesis using st s1 s2 by (simp add: encoder_finish_def)
qed

definition pieces :: "u64 \<Rightarrow> bytes \<Rightarrow> bytes list" where
  "pieces n src = chunks (unat (if n = 0 then DEFAULT_BLOCK_SIZE else n)) src"

lemma chunks_concat_id: "0 < n \<Longrightarrow> concat (chunks n xs) = xs"
proof (induction n xs rule: chunks.induct)
  case (1 n xs)
  then show ?case by (subst chunks.simps) auto
qed

lemma block_size_pos: "0 < unat (if n = 0 then DEFAULT_BLOCK_SIZE else (n :: u64))"
  by (simp add: DEFAULT_BLOCK_SIZE_def unat_gt_0)

lemma pieces_concat: "concat (pieces n src) = src"
  unfolding pieces_def by (rule chunks_concat_id [OF block_size_pos])

lemma file_blocks_pieces: "file_blocks_of x86 dg pack c filters dp n src = map (block_of x86 dg pack c filters dp) (pieces n src)"
  by (simp add: file_blocks_of_def pieces_def)

lemma file_blocks_ok:
  assumes ok: "settings_ok dg c filters dp chain" and p: "l2_packs ops pack" and l: "length src < 2 ^ 62"
    and b: "b = file_blocks_of x86 dg pack c filters dp n src"
    and idx: "length (index_bytes crc (map block_record b)) \<le> unat MAX_INDEX_SIZE"
  shows "frame_ok crc c (concat (map block_image b)) (map block_record b)"
    and "unpacked (map block_record b) = length src"
proof -
  have b: "b = map (block_of x86 dg pack c filters dp) (pieces n src)" unfolding b by (rule file_blocks_pieces)
  have small: "list_all (\<lambda>d. length d < 2 ^ 62) (pieces n src)" by (rule pieces_small) (use l in \<open>simp add: pieces_concat\<close>)
  have "list_all record_ok (map block_record (map (block_of x86 dg pack c filters dp) ds)) \<and>
      length (concat (map block_image (map (block_of x86 dg pack c filters dp) ds))) =
      pair_blocks (map block_record (map (block_of x86 dg pack c filters dp) ds))" if "list_all (\<lambda>d. length d < 2 ^ 62) ds" for ds
    using that block_of_ok(1,2) [OF ok p, of _ x86] by (induction ds) auto
  from this [OF small]
  have "list_all record_ok (map block_record b)" "length (concat (map block_image b)) = pair_blocks (map block_record b)"
    unfolding b by blast+
  moreover have "check_ok c" using ok check_bytes_ok(4) by (auto simp: settings_ok_def)
  ultimately show "frame_ok crc c (concat (map block_image b)) (map block_record b)" using idx by (simp add: frame_ok_def)
  have "unpacked (map block_record (map (block_of x86 dg pack c filters dp) ds)) = length (concat ds)" if "list_all (\<lambda>d. length d < 2 ^ 62) ds" for ds
    using that block_of_ok(3) [OF ok p, of _ x86] by (induction ds) auto
  from this [OF small] show "unpacked (map block_record b) = length src" unfolding b pieces_concat .
qed

lemma encode_xz_mt_ok:
  assumes ok: "settings_ok dg c filters (l2_properties ops e0) chain" and p: "l2_packs ops pack" "l2_new ops = Inr e0" and l: "length src < 2 ^ 62"
    and b: "b = file_blocks_of x86 dg pack c filters (l2_properties ops e0) n src"
    and f: "stream_frame (dg_crc32 dg) c (concat (map block_image b)) (map block_record b) = Some f"
  shows "encode_xz_mt x86 (\<lambda>_. True) dg ops src c n filters threads = Some (Inr f)"
proof -
  define dp where "dp = l2_properties ops e0"
  define m where "m = (if n = 0 then DEFAULT_BLOCK_SIZE else n)"
  define t where "t = max threads 1"
  define s0 where "s0 = \<lparr>en_check = CheckCrc64, en_block_size = DEFAULT_BLOCK_SIZE, en_lzma2 = Some e0, en_dict_prop = dp,
      en_solid_threshold = ucast (l2_dict_size ops e0), en_stream = None :: 'b solid_stream option, en_may_stream = True, en_filters = [], en_pending = [],
      en_records = [], en_out = write_stream_header (dg_crc32 dg) CheckCrc64 [], en_finished = False, en_threads = 1,
      en_queue = [], en_pool = []\<rparr>"
  define s1 where "s1 = s0\<lparr>en_check := c, en_out := write_stream_header (dg_crc32 dg) c []\<rparr>"
  define s2 where "s2 = s1\<lparr>en_filters := filters, en_block_size := m, en_threads := t, en_may_stream := False\<rparr>"
  have set: "check_supported dg c" "chain_validate (filters @ [lzma2_filter dp]) = Inr chain" using ok by (simp_all add: settings_ok_def dp_def)
  have e1: "encoder_new dg ops = Inr s0" by (simp add: encoder_new_def p(2) s0_def dp_def)
  have e2: "set_check dg c s0 = (s1, Inr ())" using set(1) by (simp add: set_check_def Let_def s1_def s0_def started_def)
  have e3: "set_filters (\<lambda>_. True) filters s1 = (s1\<lparr>en_filters := filters\<rparr>, Inr ())"
    using set(2) chain_validate_length [OF set(2)]
    by (simp add: set_filters_def started_def s1_def s0_def chain_for_props_def MAX_FILTERS_def)
  have e4: "(set_threads threads (set_block_size n (s1\<lparr>en_filters := filters\<rparr>)))\<lparr>en_may_stream := False\<rparr> = s2"
    by (simp add: set_threads_def set_block_size_def s2_def m_def t_def)
  have inv: "writer_inv x86 dg pack c filters dp m t [] [] s2"
    by (simp add: writer_inv_def settings_def s2_def s1_def s0_def)
  have "encoder_push x86 (\<lambda>_. True) dg ops src s2 = push_loop x86 (\<lambda>_. True) dg ops src s2"
    by (simp add: encoder_push_def s2_def s1_def s0_def)
  moreover have "0 < unat m" unfolding m_def by (rule block_size_pos)
  ultimately obtain s3 w3 bl where s3: "encoder_push x86 (\<lambda>_. True) dg ops src s2 = Some (s3, Inr ())"
    and inv3: "writer_inv x86 dg pack c filters dp m t w3 bl s3" and t3: "t \<le> 1 \<longrightarrow> w3 = bl"
    and bl: "list_all (\<lambda>d. length d = unat m) bl" "length (en_pending s3) < unat m" "concat bl @ en_pending s3 = src"
    using push_loop_ok [OF ok [folded dp_def] p inv, of src] l by (auto simp: s2_def s1_def s0_def)
  have lb: "length bl < 2 ^ 62"
  proof -
    have "length bl \<le> length (concat bl)" using bl(1) \<open>0 < unat m\<close> by (induction bl) auto
    also have "\<dots> \<le> length src" unfolding bl(3) [symmetric] by simp
    finally show ?thesis using l by simp
  qed
  have "\<exists>s'. encoder_finish x86 (\<lambda>_. True) dg ops s3 = Some (s', Inr ()) \<and> en_out s' = f"
    by (rule encoder_finish_ok [OF ok [folded dp_def] p inv3 t3 _ lb bl(1,2) m_def _ f])
      (use l in \<open>simp_all add: bl(3) b dp_def\<close>)
  then show ?thesis
    using e3 unfolding encode_xz_mt_def e1 sum.case e2 prod.case
    by (auto simp: e4 Let_def s3 take_output_def)
qed

subsection \<open>The reader finds the blocks\<close>

lemma block_entries_nth:
  "length (block_entries off u rs) = length rs"
  "i < length rs \<Longrightarrow> block_entries off u rs ! i =
     \<lparr>be_file_offset = of_nat (off + pair_blocks (take i rs)), be_uncompressed_offset = of_nat (u + unpacked (take i rs)),
      be_record = record_of (rs ! i)\<rparr>"
proof -
  show "length (block_entries off u rs) = length rs" by (induction rs arbitrary: off u) simp_all
  show "i < length rs \<Longrightarrow> block_entries off u rs ! i =
     \<lparr>be_file_offset = of_nat (off + pair_blocks (take i rs)), be_uncompressed_offset = of_nat (u + unpacked (take i rs)),
      be_record = record_of (rs ! i)\<rparr>"
  proof (induction rs arbitrary: off u i)
    case (Cons r rs)
    then show ?case by (cases i) (simp_all add: add.assoc)
  qed simp
qed

text \<open>A block of the file where its entry says: its header, which parses to the sizes and the chain, its payload, padding and
  check; and where its bytes belong in the output.\<close>

definition block_found :: "crc \<Rightarrow> filter_chain \<Rightarrow> bytes \<Rightarrow> block_entry \<Rightarrow> block \<Rightarrow> nat \<Rightarrow> nat \<Rightarrow> bool" where
  "block_found crc chain f e b off len \<longleftrightarrow>
     take (length (block_image b)) (drop (unat (be_file_offset e)) f) = block_image b \<and>
     block_parse crc (bk_header b) =
       Inr \<lparr>bh_header_size = length (bk_header b), bh_compressed_size = Some (of_nat (length (bk_compressed b))),
            bh_uncompressed_size = Some (of_nat len), bh_chain = chain\<rparr> \<and>
     unat (be_uncompressed_offset e) = off \<and> unat (xr_uncompressed_size (be_record e)) = len \<and>
     unat (xr_unpadded_size (be_record e)) = bk_unpadded b"

lemma block_of_parse:
  assumes ok: "settings_ok dg c filters dp chain" and p: "l2_packs ops pack" and d: "length d < 2 ^ 62"
  shows "block_parse (dg_crc32 dg) (bk_header (block_of x86 dg pack c filters dp d)) =
       Inr \<lparr>bh_header_size = length (bk_header (block_of x86 dg pack c filters dp d)),
            bh_compressed_size = Some (of_nat (length (bk_compressed (block_of x86 dg pack c filters dp d)))),
            bh_uncompressed_size = Some (of_nat (length d)), bh_chain = chain\<rparr>"
    and "unat (fst (block_record (block_of x86 dg pack c filters dp d))) = bk_unpadded (block_of x86 dg pack c filters dp d)"
proof -
  define x where "x = pack (filtered x86 filters dp d)"
  define sizes where "sizes = Some ((of_nat (length x) :: u64), (of_nat (length d) :: u64))"
  have set: "digests_ok dg" "check_supported dg c" "list_all filter_wf filters" "chain_validate (filters @ [lzma2_filter dp]) = Inr chain"
    using ok by (simp_all add: settings_ok_def)
  have x: "x \<noteq> []" "length x < 2 ^ 62" using p by (simp_all add: l2_packs_def x_def)
  have u: "unat (of_nat (length x) :: u64) = length x" "unat (of_nat (length d) :: u64) = length d"
    using d x by (auto intro!: unat_of_nat64)
  then have so: "sizes_ok sizes" using d x by (auto simp: sizes_def VLI_MAX_nat simp flip: unat_eq_0)
  note h = length_header_block [OF set(3) so chain_validate_length [OF set(4)]]
  have b: "bk_header (block_of x86 dg pack c filters dp d) = header_block (dg_crc32 dg) filters dp sizes"
      "bk_compressed (block_of x86 dg pack c filters dp d) = x"
      "bk_unpadded (block_of x86 dg pack c filters dp d) = length (header_block (dg_crc32 dg) filters dp sizes) + length x + check_size c"
    by (simp_all add: block_of_def Let_def x_def sizes_def)
  show "block_parse (dg_crc32 dg) (bk_header (block_of x86 dg pack c filters dp d)) =
       Inr \<lparr>bh_header_size = length (bk_header (block_of x86 dg pack c filters dp d)),
            bh_compressed_size = Some (of_nat (length (bk_compressed (block_of x86 dg pack c filters dp d)))),
            bh_uncompressed_size = Some (of_nat (length d)), bh_chain = chain\<rparr>"
    unfolding b header_block_parse(1) [OF set(3) so set(4)] h(1) by (simp add: sizes_def)
  have "check_size c \<le> 32" using check_bytes_ok(3) [OF set(1,2)] .
  then have "bk_unpadded (block_of x86 dg pack c filters dp d) < 2 ^ 64" using h(2) x(2) unfolding b h(1) by simp
  then show "unat (fst (block_record (block_of x86 dg pack c filters dp d))) = bk_unpadded (block_of x86 dg pack c filters dp d)"
    by (simp add: block_record_def unat_of_nat64)
qed

lemma drop_concat_nth: "i < length xs \<Longrightarrow> \<exists>r. drop (length (concat (take i xs))) (concat xs) = xs ! i @ r"
proof (induction xs arbitrary: i)
  case (Cons x xs)
  then show ?case by (cases i) auto
qed simp

lemma xz_file_read:
  assumes ok: "settings_ok dg c filters dp chain" and p: "l2_packs ops pack" and l: "length src < 2 ^ 62"
    and b: "b = file_blocks_of x86 dg pack c filters dp n src"
    and idx: "length (index_bytes (dg_crc32 dg) (map block_record b)) \<le> unat MAX_INDEX_SIZE"
    and f: "stream_frame (dg_crc32 dg) c (concat (map block_image b)) (map block_record b) = Some f" and lf: "length f < 2 ^ 63"
  shows "block_table (\<lambda>_. True) (dg_crc32 dg) f MAX_INDEX_SIZE = Inr (block_entries 12 0 (map block_record b))"
    and "i < length b \<Longrightarrow> block_found (dg_crc32 dg) chain f (block_entries 12 0 (map block_record b) ! i) (b ! i)
      (length (concat (take i (pieces n src)))) (length (pieces n src ! i))"
proof -
  define rs where "rs = map block_record b"
  have fr: "frame_ok (dg_crc32 dg) c (concat (map block_image b)) rs" and un: "unpacked rs = length src"
    using file_blocks_ok [OF ok p l b idx] by (simp_all add: rs_def)
  have it: "item_ok (\<lambda>_. True) (dg_crc32 dg) MAX_INDEX_SIZE (f, 0, c, rs)"
    using fr f idx by (auto simp: item_ok_def rs_def)
  have "length (concat (map item_bytes [(f, 0, c, rs)])) < 2 ^ 63" using lf by simp
  from block_table_items [OF _ _ this, of "\<lambda>_. True" "dg_crc32 dg" MAX_INDEX_SIZE] it un l
  show "block_table (\<lambda>_. True) (dg_crc32 dg) f MAX_INDEX_SIZE = Inr (block_entries 12 0 (map block_record b))"
    by (simp add: rs_def)
  assume i: "i < length b"
  have bp: "b = map (block_of x86 dg pack c filters dp) (pieces n src)" unfolding b by (rule file_blocks_pieces)
  have small: "list_all (\<lambda>d. length d < 2 ^ 62) (pieces n src)" by (rule pieces_small) (use l in \<open>simp add: pieces_concat\<close>)
  define d where "d = pieces n src ! i"
  have i': "i < length (pieces n src)" using i by (simp add: bp)
  then have d: "length d < 2 ^ 62" "b ! i = block_of x86 dg pack c filters dp d" using small by (simp_all add: d_def bp list_all_length)
  obtain rest where fe: "f = write_stream_header (dg_crc32 dg) c [] @ concat (map block_image b) @ rest"
    using stream_frame_eq [OF fr, unfolded rs_def f, symmetric] by auto
  have sums: "length (concat (map block_image (map (block_of x86 dg pack c filters dp) ds))) =
      pair_blocks (map block_record (map (block_of x86 dg pack c filters dp) ds)) \<and>
      length (concat ds) = unpacked (map block_record (map (block_of x86 dg pack c filters dp) ds))"
    if "list_all (\<lambda>d. length d < 2 ^ 62) ds" for ds
    using that block_of_ok(2,3) [OF ok p, of _ x86] by (induction ds) auto
  have "list_all (\<lambda>d. length d < 2 ^ 62) (take i (pieces n src))" using small by (auto simp: list_all_iff dest: in_set_takeD)
  note sums = sums [OF this]
  have off: "pair_blocks (take i rs) = length (concat (take i (map block_image b)))"
      "unpacked (take i rs) = length (concat (take i (pieces n src)))"
    using sums by (simp_all add: rs_def bp take_map)
  obtain r where r: "drop (length (concat (take i (map block_image b)))) (concat (map block_image b)) = block_image (b ! i) @ r"
    using drop_concat_nth [of i "map block_image b"] i by auto
  have le: "length (concat (take i (map block_image b))) \<le> length (concat (map block_image b))"
    by (metis append_take_drop_id concat_append length_append le_add1)
  define e where "e = block_entries 12 0 rs ! i"
  have e: "e = \<lparr>be_file_offset = of_nat (12 + pair_blocks (take i rs)), be_uncompressed_offset = of_nat (0 + unpacked (take i rs)),
      be_record = record_of (rs ! i)\<rparr>"
    unfolding e_def using i by (intro block_entries_nth(2)) (simp add: rs_def)
  have fo: "unat (be_file_offset e) = 12 + length (concat (take i (map block_image b)))"
    unfolding e block_entry.select_convs off(1) using le lf by (intro unat_of_nat64) (simp add: fe)
  have "length (concat (take i (pieces n src))) \<le> length src"
    by (metis append_take_drop_id concat_append length_append le_add1 pieces_concat)
  then have uo: "unat (be_uncompressed_offset e) = length (concat (take i (pieces n src)))"
    unfolding e block_entry.select_convs off(2) using l by (simp add: unat_of_nat64)
  have "take (length (block_image (b ! i))) (drop (unat (be_file_offset e)) f) = block_image (b ! i)"
    unfolding fo fe using le r by (simp add: drop_append [symmetric] add.commute flip: drop_drop)
  then show "block_found (dg_crc32 dg) chain f (block_entries 12 0 (map block_record b) ! i) (b ! i)
      (length (concat (take i (pieces n src)))) (length (pieces n src ! i))"
    unfolding block_found_def e_def [unfolded rs_def, symmetric]
    using block_of_parse [OF ok p d(1), of x86] block_of_ok(3) [OF ok p d(1), of x86] uo i
    by (simp add: d(2) d_def [symmetric] e rs_def record_of_def)
qed

lemma index_bytes_le:
  assumes "list_all record_ok rs" "length rs < 2 ^ 63"
  shows "length (index_bytes crc rs) \<le> 20 + 18 * length rs"
proof -
  have "length (concat (map record_bytes rs)) \<le> 18 * length rs"
    using assms(1)
  proof (induction rs)
    case (Cons r rs)
    have "length (record_bytes r) \<le> 18"
      using Cons.prems length_vli_push [of "fst r"] length_vli_push [of "snd r"] by (simp add: record_bytes_def record_ok_def)
    then show ?case using Cons by simp
  qed simp
  moreover have "length (vli_bytes (length rs)) \<le> 9" using length_vli_bytes_le [of "length rs" 9] assms(2) by simp
  ultimately have "length (index_body rs) \<le> 10 + 18 * length rs" by (simp add: index_body_def)
  then show ?thesis using next_multiple_of_4 [of "length (index_body rs)"] by (simp add: index_bytes_length(1))
qed

lemma file_index_le:
  assumes ok: "settings_ok dg c filters dp chain" and p: "l2_packs ops pack" and l: "length src < 2 ^ 62"
    and b: "b = file_blocks_of x86 dg pack c filters dp n src" and m: "length (pieces n src) < 2 ^ 28"
  shows "length (index_bytes crc (map block_record b)) \<le> unat MAX_INDEX_SIZE"
proof -
  have b: "b = map (block_of x86 dg pack c filters dp) (pieces n src)" unfolding b by (rule file_blocks_pieces)
  have "list_all (\<lambda>d. length d < 2 ^ 62) (pieces n src)" by (rule pieces_small) (use l in \<open>simp add: pieces_concat\<close>)
  then have "list_all record_ok (map block_record b)"
    using block_of_ok(1) [OF ok p, of _ x86] by (auto simp: b list_all_iff)
  from index_bytes_le [OF this, of crc] m show ?thesis by (simp add: b MAX_INDEX_SIZE_def)
qed

lemma frame_exists: "frame_ok crc c area rs \<Longrightarrow> \<exists>f. stream_frame crc c area rs = Some f"
  using stream_frame_eq [of crc c area rs] footer_written [of crc rs c] by (fastforce simp: frame_ok_def)

end
