(* ===== verification/XzProps.thy ===== *)
theory XzProps
  imports XzFile
begin

text \<open>
  What the xz container promises: its writer's file and the reader's tables, the index, the block header
  and the converter chain. Each property is followed by a witness on concrete bytes.
\<close>

subsection \<open>Samples\<close>

definition sample_digests :: digests where
  "sample_digests = \<lparr>dg_crc32 = (\<lambda>_. 7), dg_crc64 = (\<lambda>_. 9), dg_sha256 = None\<rparr>"

text \<open>An LZMA2 encoder that stores its input, with at most a hundred bytes of it, and ends the stream.\<close>

definition sample_pack :: "bytes \<Rightarrow> bytes" where
  "sample_pack d = [1, 0, of_nat (length d - 1)] @ take 100 d @ [0]"

definition sample_ops :: "(unit, unit) lzma2_ops" where
  "sample_ops = \<lparr>l2_new = Inr (), l2_properties = (\<lambda>_. 0), l2_dict_size = (\<lambda>_. 4096), l2_encode = (\<lambda>e n d. (e, Inr (sample_pack d))),
     pipe_start = (\<lambda>e. Inl e), pipe_write = (\<lambda>p d out. (p, out @ d, Inr ())), pipe_write_owned = (\<lambda>p d out. (p, out @ d, Inr ())),
     pipe_finish = (\<lambda>p out. (out, Inr 0))\<rparr>"

definition sample_filter :: filter_flags where
  "sample_filter = \<lparr>ff_id = FILTER_DELTA, ff_props = [0, 0, 0, 0], ff_props_len = 1\<rparr>"

definition sample_chain :: filter_chain where
  "sample_chain = \<lparr>fc_dict_prop = 0, fc_converters = [sample_filter]\<rparr>"

lemma sample_packs: "l2_packs sample_ops sample_pack"
proof -
  have "min (length d) 100 \<le> 100" for d :: bytes by simp
  then have "min (length d) 100 < 4611686018427387900" for d :: bytes by (rule le_less_trans) simp
  then show ?thesis by (simp add: l2_packs_def sample_ops_def sample_pack_def)
qed

lemma sample_wf: "filter_wf sample_filter"
  by code_simp

lemma sample_validate: "chain_validate ([sample_filter] @ [lzma2_filter 0]) = Inr sample_chain"
  by code_simp

lemma sample_settings: "settings_ok sample_digests CheckCrc32 [sample_filter] (l2_properties sample_ops ()) sample_chain"
  using sample_wf sample_validate
  by (simp add: settings_ok_def digests_ok_def sample_digests_def check_supported_def sample_ops_def)

lemma sample_pieces: "pieces 2 [10, 20, 30] = [[10, 20], [30 :: u8]]"
  by (simp add: pieces_def chunks.simps)

subsection \<open>The writer\<close>




lemma sample_image_length:
  "length (block_image (block_of False sample_digests sample_pack CheckCrc32 [sample_filter] 0 [10, 20])) < 100"
  "length (block_image (block_of False sample_digests sample_pack CheckCrc32 [sample_filter] 0 [30])) < 100"
  by code_simp+

definition sample_file :: bytes where
  "sample_file = (case encode_xz_mt False (\<lambda>_. True) sample_digests sample_ops [10, 20, 30] CheckCrc32 2 [sample_filter] 3 of
     Some (Inr f) \<Rightarrow> f | _ \<Rightarrow> [])"

lemma sample_file_ok:
  "encode_xz_mt False (\<lambda>_. True) sample_digests sample_ops [10, 20, 30] CheckCrc32 2 [sample_filter] 3 = Some (Inr sample_file)"
  "length sample_file < 2 ^ 62"
  "\<exists>rs. item_ok (\<lambda>_. True) (dg_crc32 sample_digests) MAX_INDEX_SIZE (sample_file, 1, CheckCrc32, rs)"
proof -
  define b where "b = file_blocks_of False sample_digests sample_pack CheckCrc32 [sample_filter] (l2_properties sample_ops ()) 2 [10, 20, 30]"
  have n: "l2_new sample_ops = Inr ()" "length [10, 20, 30 :: u8] < 2 ^ 62" "length (pieces 2 [10, 20, 30]) < 2 ^ 28" 
    by (simp_all add: sample_ops_def sample_pieces)
  note idx = file_index_le [OF sample_settings sample_packs n(2) b_def n(3)]
  note fr = file_blocks_ok(1) [OF sample_settings sample_packs n(2) b_def idx]
  obtain f where f: "stream_frame (dg_crc32 sample_digests) CheckCrc32 (concat (map block_image b)) (map block_record b) = Some f"
    using frame_exists [OF fr] by blast
  note e = encode_xz_mt_ok [OF sample_settings sample_packs n(1,2) b_def f]
  then have sf: "sample_file = f" by (simp add: sample_file_def)
  show "encode_xz_mt False (\<lambda>_. True) sample_digests sample_ops [10, 20, 30] CheckCrc32 2 [sample_filter] 3 = Some (Inr sample_file)"
    using e sf by simp
  obtain F where F: "write_footer (dg_crc32 sample_digests) CheckCrc32
      (of_nat (length (index_bytes (dg_crc32 sample_digests) (map block_record b)))) [] = Some F" "length F = 12"
    using footer_written [OF idx] .
  have b: "b = map (block_of False sample_digests sample_pack CheckCrc32 [sample_filter] 0) [[10, 20], [30]]"
    unfolding b_def file_blocks_pieces sample_pieces by (simp add: sample_ops_def)
  have "length (concat (map block_image b)) < 200" using sample_image_length unfolding b by simp
  moreover have "length (index_bytes (dg_crc32 sample_digests) (map block_record b)) \<le> 2 ^ 34" by (rule index_length(5) [OF idx])
  moreover have "f = write_stream_header (dg_crc32 sample_digests) CheckCrc32 [] @ concat (map block_image b) @
      index_bytes (dg_crc32 sample_digests) (map block_record b) @ F"
    using stream_frame_eq [OF fr] f F(1) by simp
  ultimately show "length sample_file < 2 ^ 62" unfolding sf using F(2) by simp
  show "\<exists>rs. item_ok (\<lambda>_. True) (dg_crc32 sample_digests) MAX_INDEX_SIZE (sample_file, 1, CheckCrc32, rs)"
    using fr f idx by (auto simp: item_ok_def sf intro!: exI [of _ "map block_record b"])
qed


subsection \<open>The reader\<close>

text \<open>C8: the table of streams exists exactly for the files that are one or more streams as the writer frames them, each followed by
  a whole number of null four-byte groups; it is then the list of those streams with their offsets, sizes, checks and records.\<close>
theorem stream_table_exact:
  assumes "length src < 2 ^ 63"
  shows "stream_table alloc_ok crc src limit = Inr sis \<longleftrightarrow>
    (\<exists>items. items \<noteq> [] \<and> list_all (item_ok alloc_ok crc limit) items \<and> src = concat (map item_bytes items) \<and>
       sis = stream_entries crc 0 items)"
  by (rule stream_table_iff [OF assms])

theorem stream_table_exact_witness:
  "\<exists>sis. stream_table (\<lambda>_. True) (dg_crc32 sample_digests) (sample_file @ [0, 0, 0, 0]) MAX_INDEX_SIZE = Inr sis \<and> length sis = 1"
proof -
  obtain rs where "item_ok (\<lambda>_. True) (dg_crc32 sample_digests) MAX_INDEX_SIZE (sample_file, 1, CheckCrc32, rs)"
    using sample_file_ok(3) by blast
  moreover have "concat (map item_bytes [(sample_file, 1, CheckCrc32, rs)]) = sample_file @ [0, 0, 0, 0]" by (simp add: eval_nat_numeral)
  moreover have "length (sample_file @ [0, 0, 0, 0]) < 2 ^ 63" using sample_file_ok(2) by simp
  ultimately have "stream_table (\<lambda>_. True) (dg_crc32 sample_digests) (sample_file @ [0, 0, 0, 0]) MAX_INDEX_SIZE =
      Inr (stream_entries (dg_crc32 sample_digests) 0 [(sample_file, 1, CheckCrc32, rs)])"
    by (subst stream_table_exact) (auto intro!: exI [of _ "[(sample_file, 1, CheckCrc32, rs)]"])
  then show ?thesis by simp
qed

text \<open>C34: the index parser accepts exactly what the index writer writes for records that respect the format, returns those
  records, and the size the footer declares is the size written.\<close>
theorem index_exact:
  "index_parse alloc_ok crc buf = Inr xi \<longleftrightarrow>
    (\<exists>rs. list_all record_ok rs \<and> pair_blocks rs < 2 ^ 64 \<and> alloc_ok (length rs) \<and> length buf \<le> unat MAX_INDEX_SIZE \<and>
       length rs < 2 ^ 63 \<and> write_index crc rs [] = Some buf \<and>
       xi = \<lparr>xi_records = map record_of rs, xi_index_size = index_size rs\<rparr>)"
proof
  assume "index_parse alloc_ok crc buf = Inr xi"
  then obtain rs where rs: "list_all record_ok rs" "pair_blocks rs < 2 ^ 64" "alloc_ok (length rs)" "buf = index_bytes crc rs"
    "length buf \<le> unat MAX_INDEX_SIZE" "xi = \<lparr>xi_records = map record_of rs, xi_index_size = of_nat (length buf)\<rparr>"
    using index_parse_only by blast
  note l = index_length(1) [OF rs(5) [unfolded rs(4)]]
  show "\<exists>rs. list_all record_ok rs \<and> pair_blocks rs < 2 ^ 64 \<and> alloc_ok (length rs) \<and> length buf \<le> unat MAX_INDEX_SIZE \<and>
       length rs < 2 ^ 63 \<and> write_index crc rs [] = Some buf \<and>
       xi = \<lparr>xi_records = map record_of rs, xi_index_size = index_size rs\<rparr>"
    using rs l write_index_eq [OF rs(1) l, of crc "[]"] index_size_eq [OF l, of crc] by auto
next
  assume "\<exists>rs. list_all record_ok rs \<and> pair_blocks rs < 2 ^ 64 \<and> alloc_ok (length rs) \<and> length buf \<le> unat MAX_INDEX_SIZE \<and>
       length rs < 2 ^ 63 \<and> write_index crc rs [] = Some buf \<and>
       xi = \<lparr>xi_records = map record_of rs, xi_index_size = index_size rs\<rparr>"
  then obtain rs where rs: "list_all record_ok rs" "pair_blocks rs < 2 ^ 64" "alloc_ok (length rs)" "length buf \<le> unat MAX_INDEX_SIZE"
    "length rs < 2 ^ 63" "write_index crc rs [] = Some buf" "xi = \<lparr>xi_records = map record_of rs, xi_index_size = index_size rs\<rparr>" by blast
  then have b: "buf = index_bytes crc rs" using write_index_eq [OF rs(1,5), of crc "[]"] by simp
  show "index_parse alloc_ok crc buf = Inr xi"
    using index_parse_bytes [of rs alloc_ok crc, OF rs(1-3) rs(4) [unfolded b]] rs(7) index_size_eq [OF rs(5), of crc] by (simp add: b)
qed

text \<open>C35: the block header the writer writes for filters with well-formed properties is a multiple of four bytes, at most a
  hundred and twelve, its first byte gives its size, and it parses back to the sizes and the validated chain.\<close>
theorem block_header_roundtrip:
  assumes "list_all filter_wf filters" "sizes_ok sizes" "chain_validate (filters @ [lzma2_filter d]) = Inr chain"
  shows "\<exists>h. write_block_header (\<lambda>_. True) crc filters d sizes = Some (Inr h) \<and> length h mod 4 = 0 \<and> length h \<le> 112 \<and>
    header_size_from_first_byte (h ! 0) = Some (length h) \<and>
    block_parse crc h = Inr \<lparr>bh_header_size = length h, bh_compressed_size = map_option fst sizes,
         bh_uncompressed_size = map_option snd sizes, bh_chain = chain\<rparr>"
proof -
  note l3 = chain_validate_length [OF assms(3)]
  show ?thesis
    using write_block_header_eq [OF assms(1,2) l3, of "\<lambda>_. True" crc d] length_header_block [OF assms(1,2) l3]
      header_block_parse [OF assms] by auto
qed

theorem block_header_roundtrip_witness:
  "\<exists>h. write_block_header (\<lambda>_. True) (\<lambda>_. 7) [sample_filter] 0 (Some (300, 5)) = Some (Inr h) \<and> length h mod 4 = 0 \<and> length h \<le> 112 \<and>
    header_size_from_first_byte (h ! 0) = Some (length h) \<and>
    block_parse (\<lambda>_. 7) h = Inr \<lparr>bh_header_size = length h, bh_compressed_size = map_option fst (Some (300, 5 :: u64)),
         bh_uncompressed_size = map_option snd (Some (300 :: u64, 5)), bh_chain = sample_chain\<rparr>"
  by (rule block_header_roundtrip [OF _ _ sample_validate]) (simp_all add: sample_wf VLI_MAX_def)

text \<open>A filter with the wrong number of properties passes \<open>set_filters\<close>, and the header then written is refused by
  the parser of the same crate.\<close>

lemma bad_properties_pass:
  "\<exists>f h. filter_new FILTER_DELTA [] = Inr f \<and> chain_for_props (\<lambda>_. True) [f] 0 \<noteq> Inl Param \<and>
    write_block_header (\<lambda>_. True) (\<lambda>_. 7) [f] 0 (Some (300, 5)) = Some (Inr h) \<and> block_parse (\<lambda>_. 7) h = Inl BadFilterChain"
  by (intro exI [of _ "\<lparr>ff_id = FILTER_DELTA, ff_props = [0, 0, 0, 0], ff_props_len = 0\<rparr>"]
      exI [of _ "[3, 0xC1, 0xAC, 2, 5, 3, 0, 0x21, 1, 0, 0, 0, 7, 0, 0, 0]"] conjI) code_simp+

subsection \<open>The converters\<close>

text \<open>C9: the in-place buffer of the converter chain, with the tails of its stages copied in front of the data, computes the pipeline
  of the stages: it never panics, appends the pipeline's output, keeps every stage's tail within its bound, loses no byte and makes
  none up, and a flush leaves nothing behind.\<close>
theorem converters_run_refines:
  assumes "converters_ok cv"
  shows "\<exists>ss o' scratch. pipe_stages x86 flush encode (stage_order encode (cv_stages cv)) data = Some (ss, o') \<and>
    converters_run x86 cv data out flush encode = Some (\<lparr>cv_stages = stage_order encode ss, cv_scratch = scratch\<rparr>, out @ o') \<and>
    list_all stage_ok ss \<and> length o' + carried ss = length data + carried_bytes cv \<and> (flush \<longrightarrow> carried ss = 0)"
  by (rule converters_run_ok [OF assms])

definition sample_converters :: converters where
  "sample_converters = \<lparr>cv_stages = [\<lparr>sg_conv = ConvBcj \<lparr>b_kind = Arm, b_pc = 8, b_state = 0\<rparr>, sg_carry = [1, 2, 3]\<rparr>,
     \<lparr>sg_conv = ConvDelta \<lparr>d_distance = 1, d_state = replicate 256 0\<rparr>, sg_carry = []\<rparr>], cv_scratch = []\<rparr>"

theorem converters_run_refines_witness:
  "\<exists>ss o' scratch. pipe_stages False True False (stage_order False (cv_stages sample_converters)) [0xEB, 5] = Some (ss, o') \<and>
    converters_run False sample_converters [0xEB, 5] [9] True False = Some (\<lparr>cv_stages = stage_order False ss, cv_scratch = scratch\<rparr>, [9] @ o') \<and>
    list_all stage_ok ss \<and> length o' + carried ss = length [0xEB, 5 :: u8] + carried_bytes sample_converters \<and> (True \<longrightarrow> carried ss = 0)"
  by (rule converters_run_refines)
    (simp add: sample_converters_def converters_ok_def stage_ok_def converter_ok_def conv_max_carry_def max_carry_def delta_inv_def)

end
