(* ===== verification/Spec2Isabelle.thy ===== *)
theory Spec2Isabelle
  imports Lzma2Parse Lzma2Props Lzma2Scan LzmaProps RangeProps XzProps
begin

text \<open>
  Verification of \<open>lzma-turbo\<close>, a Rust implementation of LZMA, LZMA2 and xz after the LZMA SDK.

  \<^bold>\<open>The program.\<close> A compressed stream passes through three layers. An xz container (\<open>src/src/xz\<close>)
  frames blocks and names their filters; the filters (\<open>src/src/filters\<close>) undo delta coding and branch
  conversion; LZMA2 (\<open>src/src/lzma2\<close>) cuts a stream into chunks, stored or LZMA, and drives the LZMA
  decoder (\<open>src/src/lzma\<close>), which decodes symbols with an adaptive binary range coder into a ring
  buffer. Callers feed input in pieces of any length, so every layer is a resumable state machine.

  \<^bold>\<open>Conventions.\<close> Machine integers are words of their width, \<open>usize\<close> a natural number with its bounds
  checked where the source indexes or subtracts. A function that may panic, or that is undefined
  behaviour outside its \<open>unsafe\<close> contract, returns \<open>option\<close>, and \<open>None\<close> is that fault; \<open>Result\<close> is a
  sum, \<open>Inl\<close> the error. Loops that need an argument for their termination are
  \<open>partial_function (option)\<close>, so that not ending is \<open>None\<close> as well, and each is proved to return
  \<open>Some\<close>. Allocation is the parameter \<open>alloc_ok\<close>.

  \<^bold>\<open>Theories.\<close>
  \<^item> \<open>LzPrelude\<close>: checked indexing, slices and copies; the bridge between words and naturals.
  \<^item> \<open>Errors\<close> (\<open>error.rs\<close>): the error kinds and their classes.
  \<^item> \<open>RangeDec\<close>, \<open>LzmaState\<close>, \<open>LzmaDecode\<close>, \<open>LzmaSymbol\<close>, \<open>LzmaWindow\<close>, \<open>LzmaLoop\<close> (\<open>lzma/consts.rs\<close>,
    \<open>state.rs\<close>, \<open>decode.rs\<close>): the branch-free bit macros, the decoder's state, the symbol loop. The
    loop's body is proved equal to running a decision tree (\<open>bitprog\<close>), from which the input margin of
    twenty bytes and the safety of all accesses follow; its effect is a step of an abstract decoder
    over a history (locale \<open>history\<close>, interpreted by the ring buffer).
  \<^item> \<open>LzmaDummy\<close> (\<open>dummy.rs\<close>): the dry run and its agreement with the loop.
  \<^item> \<open>LzmaDec\<close>, \<open>LzmaTotal\<close>, \<open>LzmaProps\<close> (\<open>lzma/mod.rs\<close>): \<open>decode_to_dic\<close> and \<open>LzmaDecoder\<close>; the invariant
    \<open>dec_inv\<close>, under which every call returns, and the properties of the decoder.
  \<^item> \<open>Lzma2Frame\<close>, \<open>Lzma2Props\<close> (\<open>lzma2/frame.rs\<close>): the chunk-header machine and its invariant.
  \<^item> \<open>Lzma2Dec\<close>, \<open>Lzma2Parse\<close>, \<open>Lzma2Scan\<close> (\<open>lzma2/mod.rs\<close>, \<open>parse.rs\<close>, \<open>scan.rs\<close>): the three users of that
    machine: the decoder, the parser that only accounts, and the scanner that finds independent runs.
  \<^item> \<open>RangeEnc\<close>, \<open>RangeRound\<close>, \<open>RangeTrees\<close>, \<open>RangeTrip\<close>, \<open>RangeProps\<close> (\<open>enc/range_enc.rs\<close>, the length
    coder of \<open>enc/price.rs\<close>): the range encoder with its carry cache (its sink is the locale \<open>seq_out\<close>,
    interpreted by the byte vector), the number its bytes denote, and the decoder of \<open>RangeDec\<close> reading
    every bit, tree, direct bit and length back.
  \<^item> \<open>LzBytes\<close>: little-endian fields. \<open>Vli\<close> (\<open>xz/vli.rs\<close>): variable-length integers.
  \<^item> \<open>Delta\<close> (\<open>filters/delta.rs\<close>): the filter with each of its fast paths (locale \<open>stream_filter\<close>,
    interpreted by it) against the one recurrence it computes.
  \<^item> \<open>Bcj\<close>, \<open>BcjSafe\<close> (\<open>filters/bcj.rs\<close>): the nine branch converters and the contract their caller
    relies on.
  \<^item> \<open>XzStream\<close> (\<open>xz/stream.rs\<close>, \<open>xz/error.rs\<close>, \<open>lzma_alone.rs\<close>): stream header and footer, check kinds, the
    header of the \<open>.lzma\<close> format.
  \<^item> \<open>XzFilter\<close>, \<open>XzConv\<close> (\<open>xz/filter.rs\<close>): filter chains, their stages and converters, and the chain of
    buffered converters against running every filter over the whole data.
  \<^item> \<open>XzBlock\<close> (\<open>xz/block.rs\<close>, \<open>block_header\<close> of \<open>enc/xz_enc.rs\<close>): block headers, parsed and written.
  \<^item> \<open>XzIndex\<close>, \<open>XzSeek\<close> (\<open>xz/index.rs\<close>, \<open>write_index\<close>): the index and the search backwards from the end of
    a file for the table of its streams and blocks.
  \<^item> \<open>XzEnc\<close>, \<open>XzFile\<close>, \<open>XzProps\<close> (\<open>enc/xz_enc.rs\<close>): the xz writer, whose LZMA2 encoder and digests are
    records of operations; the file it writes is a stream header, framed blocks, the index and a
    footer, whatever the number of threads, and \<open>XzSeek\<close> finds exactly these blocks in it.

  \<^bold>\<open>Bounds.\<close> The margin of twenty bytes is derived, not assumed: the worst symbol has 22 modelled and 26
  direct bits, a modelled bit keeps more than \<open>31/2048\<close> of the range (\<open>rc_spent\<close>). No loop is given
  fuel.

  \<^bold>\<open>Not modelled.\<close> The assembly decoder loops (\<open>lzma/decode_opt\<close>) and SIMD searches, which mirror
  portable code that is modelled; threads, pools and adaptive scheduling (\<open>mt\<close>, the parallel xz
  readers, the threaded encoder); the match finders over raw pointers and the optimal parser that
  chooses among their matches, so the LZMA2 encoder is an interface of the xz writer; the four-stream
  filter of \<open>filters/bcj2.rs\<close>; the incremental xz readers and the writer's incremental output
  (\<open>push_to\<close>, \<open>finish_to\<close>); third-party digests, which are parameters; adapters to \<open>std::io\<close>.
\<close>

end
